(* ===== verification/Merkle_Tree.thy ===== *)
theory Merkle_Tree
  imports Prelude
begin

text \<open>
  The binary Merkle tree of \<^verbatim>\<open>utils/binary-merkle-tree/src/lib.rs\<close>: building a root row by
  row, collecting the proof of one leaf with a visitor, and checking a proof against a root.
  The hash function is code of another crate (\<^verbatim>\<open>hash_db::Hasher\<close>), so it is a parameter, the
  record \<open>hasher\<close>; what the code relies on is that a hash has the announced length.
  A panic (a slice copied into a buffer of another length, an \<open>expect\<close> on a missing leaf) is
  the result \<open>None\<close>.
\<close>

section \<open>Data\<close>

record 'h hasher =
  h_hash :: "u8 list \<Rightarrow> 'h"
  h_LENGTH :: nat
  h_as_ref :: "'h \<Rightarrow> u8 list"
  h_default :: 'h

definition hasher_ok :: "'h hasher \<Rightarrow> bool" where
  "hasher_ok H \<longleftrightarrow> (\<forall>x. length (h_as_ref H x) = h_LENGTH H) \<and> inj (h_as_ref H)"

record ('h, 'v) Visitor =
  move_up :: "'v \<Rightarrow> 'v"
  visit :: "nat \<Rightarrow> 'h option \<Rightarrow> 'h option \<Rightarrow> 'v \<Rightarrow> 'v"

record 'h MerkleProof =
  root :: 'h
  proof_items :: "'h list"
  number_of_leaves :: nat
  leaf_index :: nat
  leaf :: "u8 list"

record 'h ProofCollection =
  pc_proof :: "'h list"
  pc_position :: nat

datatype 'h Leaf = Value "u8 list" | Hash 'h

section \<open>Operations\<close>

text \<open>The two halves of the buffer \<open>combined\<close> are overwritten with \<open>a\<close> and \<open>b\<close>.\<close>

definition combined :: "'h hasher \<Rightarrow> 'h \<Rightarrow> 'h \<Rightarrow> u8 list option" where
  "combined H a b =
     (if length (h_as_ref H a) = h_LENGTH H \<and> length (h_as_ref H b) = h_LENGTH H
      then Some (h_as_ref H a @ h_as_ref H b) else None)"

fun merkelize_row_loop ::
  "'h hasher \<Rightarrow> ('h, 'v) Visitor \<Rightarrow> 'h list \<Rightarrow> nat \<Rightarrow> 'h list \<Rightarrow> 'v \<Rightarrow> (('h list, 'h) result \<times> 'v) option" where
  "merkelize_row_loop H V [] index nxt v = Some (Inl nxt, visit V index None None v)"
| "merkelize_row_loop H V [a] index nxt v =
     (let v' = visit V index (Some a) None v
      in if nxt \<noteq> [] then merkelize_row_loop H V [] (index + 2) (nxt @ [a]) v'
         else Some (Inr a, v'))"
| "merkelize_row_loop H V (a # b # iter) index nxt v =
     (let v' = visit V index (Some a) (Some b) v
      in case combined H a b of
           None \<Rightarrow> None
         | Some c \<Rightarrow> merkelize_row_loop H V iter (index + 2) (nxt @ [h_hash H c]) v')"

definition merkelize_row ::
  "'h hasher \<Rightarrow> ('h, 'v) Visitor \<Rightarrow> 'h list \<Rightarrow> 'v \<Rightarrow> (('h list, 'h) result \<times> 'v) option" where
  "merkelize_row H V iter v = merkelize_row_loop H V iter 0 [] v"

partial_function (option) merkelize_loop ::
  "'h hasher \<Rightarrow> ('h, 'v) Visitor \<Rightarrow> 'h list \<Rightarrow> 'v \<Rightarrow> ('h \<times> 'v) option" where
  "merkelize_loop H V nxt v =
     Option.bind (merkelize_row H V nxt (move_up V v))
       (\<lambda>(r, v'). case r of Inr rt \<Rightarrow> Some (rt, v') | Inl t \<Rightarrow> merkelize_loop H V t v')"

definition merkelize :: "'h hasher \<Rightarrow> ('h, 'v) Visitor \<Rightarrow> 'h list \<Rightarrow> 'v \<Rightarrow> ('h \<times> 'v) option" where
  "merkelize H V leaves v =
     (case merkelize_row H V leaves v of
        None \<Rightarrow> None
      | Some (Inr rt, v') \<Rightarrow> Some (rt, v')
      | Some (Inl nxt, v') \<Rightarrow>
          if nxt = [] then Some (h_default H, v') else merkelize_loop H V nxt v')"

definition unit_visitor :: "('h, unit) Visitor" where
  "unit_visitor = \<lparr>move_up = (\<lambda>v. v), visit = (\<lambda>_ _ _ v. v)\<rparr>"

definition merkle_root :: "'h hasher \<Rightarrow> u8 list list \<Rightarrow> 'h option" where
  "merkle_root H leaves = map_option fst (merkelize H unit_visitor (map (h_hash H) leaves) ())"

definition pc_new :: "nat \<Rightarrow> 'h ProofCollection" where
  "pc_new position = \<lparr>pc_proof = [], pc_position = position\<rparr>"

definition pc_visit :: "nat \<Rightarrow> 'h option \<Rightarrow> 'h option \<Rightarrow> 'h ProofCollection \<Rightarrow> 'h ProofCollection" where
  "pc_visit index left right c =
     (let c1 = (if pc_position c = index
                then (case right of Some r \<Rightarrow> c\<lparr>pc_proof := pc_proof c @ [r]\<rparr> | None \<Rightarrow> c)
                else c)
      in if pc_position c1 = index + 1
         then (case left of Some l \<Rightarrow> c1\<lparr>pc_proof := pc_proof c1 @ [l]\<rparr> | None \<Rightarrow> c1)
         else c1)"

definition proof_visitor :: "('h, 'h ProofCollection) Visitor" where
  "proof_visitor =
     \<lparr>move_up = (\<lambda>c. c\<lparr>pc_position := pc_position c div 2\<rparr>), visit = pc_visit\<rparr>"

definition merkle_proof :: "'h hasher \<Rightarrow> u8 list list \<Rightarrow> nat \<Rightarrow> 'h MerkleProof option" where
  "merkle_proof H leaves i =
     (case merkelize H proof_visitor (map (h_hash H) leaves) (pc_new i) of
        None \<Rightarrow> None
      | Some (rt, c) \<Rightarrow>
          (case nth_opt leaves i of
             None \<Rightarrow> None
           | Some l \<Rightarrow> Some \<lparr>root = rt, proof_items = pc_proof c, number_of_leaves = length leaves,
                              leaf_index = i, leaf = l\<rparr>))"

fun verify_fold :: "'h hasher \<Rightarrow> nat \<Rightarrow> nat \<Rightarrow> 'h \<Rightarrow> 'h list \<Rightarrow> 'h option" where
  "verify_fold H position width a [] = Some a"
| "verify_fold H position width a (b # bs) =
     (case (if position mod 2 = 1 \<or> position + 1 = width then combined H b a else combined H a b) of
        None \<Rightarrow> None
      | Some c \<Rightarrow> verify_fold H (position div 2) ((width - 1) div 2 + 1) (h_hash H c) bs)"

fun leaf_hash :: "'h hasher \<Rightarrow> 'h Leaf \<Rightarrow> 'h" where
  "leaf_hash H (Value content) = h_hash H content"
| "leaf_hash H (Hash h) = h"

definition verify_proof :: "'h hasher \<Rightarrow> 'h \<Rightarrow> 'h list \<Rightarrow> nat \<Rightarrow> nat \<Rightarrow> 'h Leaf \<Rightarrow> bool option" where
  "verify_proof H rt prf n i l =
     (if n \<le> i then Some False
      else map_option (\<lambda>computed. rt = computed) (verify_fold H i n (leaf_hash H l) prf))"

section \<open>Reference definitions\<close>

text \<open>One row of the tree above another, the root, and the siblings on the way to the root.\<close>

definition node :: "'h hasher \<Rightarrow> 'h \<Rightarrow> 'h \<Rightarrow> 'h" where
  "node H a b = h_hash H (h_as_ref H a @ h_as_ref H b)"

fun pair_up :: "'h hasher \<Rightarrow> 'h list \<Rightarrow> 'h list" where
  "pair_up H (a # b # xs) = node H a b # pair_up H xs"
| "pair_up H xs = xs"

lemma length_pair_up [simp]: "length (pair_up H xs) = (length xs + 1) div 2"
  by (induction H xs rule: pair_up.induct) auto

function up_root :: "'h hasher \<Rightarrow> 'h list \<Rightarrow> 'h" where
  "up_root H xs = (case xs of [] \<Rightarrow> h_default H | [x] \<Rightarrow> x | _ \<Rightarrow> up_root H (pair_up H xs))"
  by pat_completeness auto
termination
  by (relation "measure (\<lambda>(H, xs). length xs)") (auto split: list.splits)

declare up_root.simps [simp del]

lemma up_root_simps [simp]:
  "up_root H [] = h_default H"
  "up_root H [x] = x"
  "up_root H (x # y # xs) = up_root H (pair_up H (x # y # xs))"
  by (subst up_root.simps; simp)+

declare up_root_simps(3) [simp del]

lemma up_root_pair_up: "up_root H (pair_up H xs) = up_root H xs"
  by (cases "(H, xs)" rule: pair_up.cases) (auto simp: up_root_simps(3))

fun sib :: "'h list \<Rightarrow> nat \<Rightarrow> 'h list" where
  "sib (a # b # xs) 0 = [b]"
| "sib (a # b # xs) (Suc 0) = [a]"
| "sib (a # b # xs) (Suc (Suc p)) = sib xs p"
| "sib xs p = []"

function path :: "'h hasher \<Rightarrow> 'h list \<Rightarrow> nat \<Rightarrow> 'h list" where
  "path H xs p = (if length xs \<le> 1 then [] else sib xs p @ path H (pair_up H xs) (p div 2))"
  by pat_completeness auto
termination
  by (relation "measure (\<lambda>(H, xs, p). length xs)") auto

declare path.simps [simp del]

section \<open>The row loop against the reference\<close>

lemma combined_ok [simp]:
  "hasher_ok H \<Longrightarrow> combined H a b = Some (h_as_ref H a @ h_as_ref H b)"
  by (simp add: combined_def hasher_ok_def)

fun row_visit :: "('h, 'v) Visitor \<Rightarrow> 'h list \<Rightarrow> nat \<Rightarrow> 'v \<Rightarrow> 'v" where
  "row_visit V (a # b # xs) index v = row_visit V xs (index + 2) (visit V index (Some a) (Some b) v)"
| "row_visit V [a] index v = visit V (index + 2) None None (visit V index (Some a) None v)"
| "row_visit V [] index v = visit V index None None v"

lemma row_loop_eq:
  assumes "hasher_ok H"
  shows "length iter \<noteq> 1 \<or> nxt \<noteq> [] \<Longrightarrow>
    merkelize_row_loop H V iter index nxt v
      = Some (Inl (nxt @ pair_up H iter), row_visit V iter index v)"
  using assms
  by (induction H V iter index nxt v rule: merkelize_row_loop.induct) (auto simp: node_def)

lemma row_single: "merkelize_row H V [a] v = Some (Inr a, visit V 0 (Some a) None v)"
  by (simp add: merkelize_row_def)

lemma row_many:
  "hasher_ok H \<Longrightarrow> length xs \<noteq> 1 \<Longrightarrow>
     merkelize_row H V xs v = Some (Inl (pair_up H xs), row_visit V xs 0 v)"
  by (simp add: merkelize_row_def row_loop_eq)

lemma length_ne_1_cases:
  assumes "xs \<noteq> []" "length xs \<noteq> 1" obtains a b r where "xs = a # b # r"
  using assms by (cases xs; cases "tl xs") auto

text \<open>Whatever the visitor, a nonempty row leads to the root of the reference.\<close>

lemma merkelize_loop_root:
  assumes "hasher_ok H"
  shows "xs \<noteq> [] \<Longrightarrow> \<exists>v'. merkelize_loop H V xs v = Some (up_root H xs, v')"
proof (induction "length xs" arbitrary: xs v rule: less_induct)
  case less
  show ?case
  proof (cases "length xs = 1")
    case True
    then obtain a where "xs = [a]" by (auto simp: length_Suc_conv)
    then show ?thesis by (simp add: merkelize_loop.simps [of H V "[a]"] row_single)
  next
    case False
    with less.prems have "length (pair_up H xs) < length xs" "pair_up H xs \<noteq> []"
      by (auto elim!: length_ne_1_cases)
    from less.hyps [OF this] False show ?thesis
      by (simp add: merkelize_loop.simps [of H V xs] row_many [OF assms] up_root_pair_up)
  qed
qed

lemma merkelize_root:
  assumes "hasher_ok H"
  shows "\<exists>v'. merkelize H V xs v = Some (up_root H xs, v')"
proof (cases "length xs = 1")
  case True
  then obtain a where "xs = [a]" by (auto simp: length_Suc_conv)
  then show ?thesis by (simp add: merkelize_def row_single)
next
  case False
  show ?thesis
  proof (cases "xs = []")
    case True
    then show ?thesis by (simp add: merkelize_def row_many [OF assms])
  next
    case nonempty: False
    with False have "pair_up H xs \<noteq> []" by (auto elim!: length_ne_1_cases)
    from merkelize_loop_root [OF assms this] False show ?thesis
      by (simp add: merkelize_def row_many [OF assms] up_root_pair_up \<open>pair_up H xs \<noteq> []\<close>)
  qed
qed

lemma merkle_root_eq:
  assumes "hasher_ok H"
  shows "merkle_root H leaves = Some (up_root H (map (h_hash H) leaves))"
  using merkelize_root [OF assms, of unit_visitor "map (h_hash H) leaves" "()"]
  by (auto simp: merkle_root_def)

section \<open>The collected proof\<close>

lemma proof_visitor_sel [simp]:
  "visit proof_visitor = pc_visit"
  "move_up proof_visitor c = c\<lparr>pc_position := pc_position c div 2\<rparr>"
  by (simp_all add: proof_visitor_def)

lemma row_visit_passed:
  "pc_position c < index \<Longrightarrow> row_visit proof_visitor xs index c = c"
proof (induction xs arbitrary: index c rule: induct_list012)
qed (auto simp: pc_visit_def)

lemma row_visit_proof:
  "p < length xs \<Longrightarrow> pc_position c = index + p \<Longrightarrow>
     row_visit proof_visitor xs index c = c\<lparr>pc_proof := pc_proof c @ sib xs p\<rparr>"
proof (induction xs p arbitrary: index c rule: sib.induct)
qed (auto simp: pc_visit_def row_visit_passed)

lemma merkelize_loop_proof:
  assumes "hasher_ok H"
  shows "xs \<noteq> [] \<Longrightarrow> pc_position c div 2 < length xs \<Longrightarrow>
    \<exists>q. merkelize_loop H proof_visitor xs c =
      Some (up_root H xs, \<lparr>pc_proof = pc_proof c @ path H xs (pc_position c div 2), pc_position = q\<rparr>)"
proof (induction "length xs" arbitrary: xs c rule: less_induct)
  case less
  show ?case
  proof (cases "length xs = 1")
    case True
    then obtain a where "xs = [a]" by (auto simp: length_Suc_conv)
    with less.prems show ?thesis
      by (cases c)
        (simp add: merkelize_loop.simps [of H _ "[a]"] row_single pc_visit_def path.simps [of H "[a]"])
  next
    case False
    let ?c = "c\<lparr>pc_position := pc_position c div 2, pc_proof := pc_proof c @ sib xs (pc_position c div 2)\<rparr>"
    from False less.prems have shorter: "length (pair_up H xs) < length xs" "pair_up H xs \<noteq> []"
      by (auto elim!: length_ne_1_cases)
    have "pc_position ?c div 2 < length (pair_up H xs)" using less.prems(2) by simp
    from less.hyps [OF shorter this] False less.prems show ?thesis
      by (simp add: merkelize_loop.simps [of H _ xs] row_many [OF assms] up_root_pair_up
          row_visit_proof path.simps [of H xs])
  qed
qed

lemma merkelize_proof:
  assumes "hasher_ok H" "i < length xs"
  shows "\<exists>q. merkelize H proof_visitor xs (pc_new i) =
    Some (up_root H xs, \<lparr>pc_proof = path H xs i, pc_position = q\<rparr>)"
proof (cases "length xs = 1")
  case True
  then obtain a where "xs = [a]" by (auto simp: length_Suc_conv)
  with assms show ?thesis
    by (simp add: merkelize_def row_single pc_visit_def pc_new_def path.simps [of H "[a]"])
next
  case False
  let ?c = "\<lparr>pc_proof = sib xs i, pc_position = i\<rparr>"
  from assms have "xs \<noteq> []" by auto
  with False have ne: "pair_up H xs \<noteq> []" by (auto elim!: length_ne_1_cases)
  have "pc_position ?c div 2 < length (pair_up H xs)" using assms by simp
  from merkelize_loop_proof [OF assms(1) ne this] False assms ne show ?thesis
    by (simp add: merkelize_def row_many row_visit_proof pc_new_def up_root_pair_up path.simps [of H xs])
qed

lemma merkle_proof_eq:
  assumes "hasher_ok H" "i < length leaves"
  shows "merkle_proof H leaves i =
    Some \<lparr>root = up_root H (map (h_hash H) leaves), proof_items = path H (map (h_hash H) leaves) i,
          number_of_leaves = length leaves, leaf_index = i, leaf = leaves ! i\<rparr>"
  using merkelize_proof [OF assms(1), of i "map (h_hash H) leaves"] assms(2)
  by (auto simp: merkle_proof_def nth_opt_def)

section \<open>Checking a proof\<close>

text \<open>For the last node of a row only \<open>position + 1 = width\<close> matters, and halving keeps it.\<close>

lemma verify_fold_last:
  "pos + 1 = w \<Longrightarrow> pos' + 1 = w' \<Longrightarrow> verify_fold H pos w a bs = verify_fold H pos' w' a bs"
proof (induction bs arbitrary: pos w pos' w' a)
  case (Cons b bs)
  have "\<And>x. verify_fold H (pos div 2) ((w - 1) div 2 + 1) x bs =
             verify_fold H (pos' div 2) ((w' - 1) div 2 + 1) x bs"
    by (rule Cons.IH) (use Cons.prems in auto)
  with Cons.prems show ?case by (auto split: option.splits)
qed simp

lemma sib_nth:
  "p < length xs \<Longrightarrow>
     sib xs p = (if odd p then [xs ! (p - 1)] else if p + 1 < length xs then [xs ! (p + 1)] else [])"
  by (induction xs p rule: sib.induct) (auto simp: nth_Cons')

lemma pair_up_nth:
  "p < length xs \<Longrightarrow>
     pair_up H xs ! (p div 2) =
       (if odd p then node H (xs ! (p - 1)) (xs ! p)
        else if p + 1 < length xs then node H (xs ! p) (xs ! (p + 1)) else xs ! p)"
  by (induction xs p rule: sib.induct) (auto simp: nth_Cons')

lemma verify_fold_path:
  assumes "hasher_ok H"
  shows "i < length xs \<Longrightarrow> verify_fold H i (length xs) (xs ! i) (path H xs i) = Some (up_root H xs)"
proof (induction "length xs" arbitrary: xs i rule: less_induct)
  case less
  show ?case
  proof (cases "length xs = 1")
    case True
    then obtain a where "xs = [a]" by (auto simp: length_Suc_conv)
    with less.prems show ?thesis by (simp add: path.simps [of H "[a]"])
  next
    case False
    let ?ys = "pair_up H xs"
    from False less.prems have shorter: "length ?ys < length xs" by simp
    have IH: "verify_fold H (i div 2) (length ?ys) (?ys ! (i div 2)) (path H ?ys (i div 2))
        = Some (up_root H xs)"
      using less.hyps [OF shorter, of "i div 2"] less.prems by (simp add: up_root_pair_up)
    have width: "(length xs - 1) div 2 + 1 = length ?ys" using less.prems by simp
    show ?thesis
    proof (cases "odd i \<or> i + 1 < length xs")
      case True
      then show ?thesis
        using IH False less.prems width assms
        by (auto simp: path.simps [of H xs] sib_nth pair_up_nth node_def odd_iff_mod_2_eq_one)
    next
      case last: False
      then have i: "i + 1 = length xs" "even i" using less.prems by auto
      then have "i div 2 + 1 = length ?ys" by auto
      then have "verify_fold H i (length xs) (xs ! i) (path H ?ys (i div 2)) = Some (up_root H xs)"
        using IH i less.prems by (subst verify_fold_last [OF i(1)]) (simp_all add: pair_up_nth)
      then show ?thesis using i False by (simp add: path.simps [of H xs] sib_nth)
    qed
  qed
qed

lemma up_root_append:
  "length xs = 2 ^ k \<Longrightarrow> ys \<noteq> [] \<Longrightarrow> length ys \<le> 2 ^ k \<Longrightarrow>
     up_root H (xs @ ys) = node H (up_root H xs) (up_root H ys)"
proof (induction k arbitrary: xs ys)
  case 0
  then obtain x y where "xs = [x]" "ys = [y]" by (auto simp: length_Suc_conv le_Suc_eq)
  then show ?case by (simp add: up_root_simps(3))
next
  case (Suc k)
  have even_append: "even (length xs) \<Longrightarrow> pair_up H (xs @ ys) = pair_up H xs @ pair_up H ys" for xs ys
    by (induction xs rule: induct_list012) auto
  have "up_root H (xs @ ys) = up_root H (pair_up H xs @ pair_up H ys)"
    using Suc.prems(1) by (simp add: even_append flip: up_root_pair_up [of H "xs @ ys"])
  also have "\<dots> = node H (up_root H (pair_up H xs)) (up_root H (pair_up H ys))"
  proof (rule Suc.IH)
    have "0 < length (pair_up H ys)" using Suc.prems(2) by (cases ys) auto
    then show "pair_up H ys \<noteq> []" by (rule length_greater_0_conv [THEN iffD1])
  qed (use Suc.prems in auto)
  finally show ?case by (simp add: up_root_pair_up)
qed

text \<open>
  Two runs of the checker over proofs of one length that end in the same hash but start from
  different ones hash two different inputs to the same output on the way.
\<close>

fun verify_inputs :: "'h hasher \<Rightarrow> nat \<Rightarrow> nat \<Rightarrow> 'h \<Rightarrow> 'h list \<Rightarrow> u8 list list" where
  "verify_inputs H position width a [] = []"
| "verify_inputs H position width a (b # bs) =
     (let c = (if position mod 2 = 1 \<or> position + 1 = width
               then h_as_ref H b @ h_as_ref H a else h_as_ref H a @ h_as_ref H b)
      in c # verify_inputs H (position div 2) ((width - 1) div 2 + 1) (h_hash H c) bs)"

lemma verify_fold_collision:
  assumes "hasher_ok H"
  shows "length bs = length bs' \<Longrightarrow> a \<noteq> a' \<Longrightarrow>
    verify_fold H pos w a bs = verify_fold H pos w a' bs' \<Longrightarrow>
    \<exists>(x, y) \<in> set (zip (verify_inputs H pos w a bs) (verify_inputs H pos w a' bs')).
      x \<noteq> y \<and> h_hash H x = h_hash H y"
proof (induction bs bs' arbitrary: pos w a a' rule: list_induct2)
  case (Cons b bs b' bs')
  define c where "c a b = (if pos mod 2 = 1 \<or> pos + 1 = w
    then h_as_ref H b @ h_as_ref H a else h_as_ref H a @ h_as_ref H b)" for a b
  have neq: "c a b \<noteq> c a' b'"
    using Cons.prems(1) assms by (auto simp: c_def hasher_ok_def inj_def)
  show ?case
  proof (cases "h_hash H (c a b) = h_hash H (c a' b')")
    case True
    with neq show ?thesis by (force simp: Let_def c_def)
  next
    case False
    have "verify_fold H (pos div 2) ((w - 1) div 2 + 1) (h_hash H (c a b)) bs =
          verify_fold H (pos div 2) ((w - 1) div 2 + 1) (h_hash H (c a' b')) bs'"
      using Cons.prems(2) assms by (auto simp: c_def split: if_splits)
    from Cons.IH [OF False this] show ?thesis
      unfolding verify_inputs.simps Let_def c_def [symmetric] by auto
  qed
qed simp

section \<open>Properties\<close>

text \<open>
  C10. Round trip: for every list of leaves and every index into it, the proof that
  \<open>merkle_proof\<close> returns has the root that \<open>merkle_root\<close> computes, and \<open>verify_proof\<close> accepts it
  for the leaf at that index; neither function panics.
\<close>

theorem merkle_proof_verifies:
  assumes "hasher_ok H" "i < length leaves"
  shows "\<exists>p. merkle_proof H leaves i = Some p \<and> merkle_root H leaves = Some (root p) \<and>
     leaf p = leaves ! i \<and>
     verify_proof H (root p) (proof_items p) (number_of_leaves p) (leaf_index p) (Value (leaf p))
       = Some True"
  using assms verify_fold_path [OF assms(1), of i "map (h_hash H) leaves"]
  by (simp add: merkle_proof_eq merkle_root_eq verify_proof_def)

definition sample_hasher :: "u8 hasher" where
  "sample_hasher = \<lparr>h_hash = (\<lambda>bs. fold (\<lambda>b acc. acc * 31 + b + 7) bs 1), h_LENGTH = 1,
     h_as_ref = (\<lambda>x. [x]), h_default = 0\<rparr>"

lemma sample_hasher_ok: "hasher_ok sample_hasher"
  by (simp add: hasher_ok_def sample_hasher_def inj_def)

theorem merkle_proof_verifies_witness:
  "\<exists>p. merkle_proof sample_hasher [[1], [2], [3]] 2 = Some p \<and>
     merkle_root sample_hasher [[1], [2], [3]] = Some (root p) \<and> leaf p = [3] \<and>
     verify_proof sample_hasher (root p) (proof_items p) (number_of_leaves p) (leaf_index p)
       (Value (leaf p)) = Some True"
  using merkle_proof_verifies [OF sample_hasher_ok, of 2 "[[1], [2], [3]]"] by simp

text \<open>
  C37. The row-by-row construction is the recursive tree: when the first part of the leaves is a
  full subtree of \<open>2 ^ k\<close> leaves and at most as many follow, the root is the hash of the
  two roots joined.
\<close>

theorem merkle_root_join:
  assumes "hasher_ok H" "length xs = 2 ^ k" "ys \<noteq> []" "length ys \<le> 2 ^ k"
  shows "\<exists>l r. merkle_root H xs = Some l \<and> merkle_root H ys = Some r \<and>
     merkle_root H (xs @ ys) = Some (h_hash H (h_as_ref H l @ h_as_ref H r))"
  using assms up_root_append [of "map (h_hash H) xs" k "map (h_hash H) ys" H]
  by (simp add: merkle_root_eq node_def)

theorem merkle_root_join_witness:
  "\<exists>l r. merkle_root sample_hasher [[1], [2]] = Some l \<and> merkle_root sample_hasher [[3]] = Some r \<and>
     merkle_root sample_hasher [[1], [2], [3]]
       = Some (h_hash sample_hasher (h_as_ref sample_hasher l @ h_as_ref sample_hasher r))"
  using merkle_root_join [OF sample_hasher_ok, of "[[1], [2]]" 1 "[[3]]"] by simp

text \<open>
  C28. Soundness of the check: if a proof of the right length makes \<open>verify_proof\<close> accept a leaf
  whose hash is not the one at that index, the checker's run on it and on the genuine proof
  hash two different inputs to the same value.
\<close>

theorem verify_proof_sound:
  assumes "hasher_ok H" "merkle_proof H leaves i = Some p"
    and "length prf = length (proof_items p)"
    and "verify_proof H (root p) prf (length leaves) i l = Some True"
    and "leaf_hash H l \<noteq> h_hash H (leaves ! i)"
  shows "\<exists>(x, y) \<in> set (zip (verify_inputs H i (length leaves) (leaf_hash H l) prf)
       (verify_inputs H i (length leaves) (h_hash H (leaves ! i)) (proof_items p))).
     x \<noteq> y \<and> h_hash H x = h_hash H y"
proof (rule verify_fold_collision [OF assms(1,3,5)])
  have i: "i < length leaves"
    using assms(4) by (auto simp: verify_proof_def split: if_splits)
  with assms(2) have p: "root p = up_root H (map (h_hash H) leaves)"
      "proof_items p = path H (map (h_hash H) leaves) i"
    by (auto simp: merkle_proof_eq [OF assms(1)])
  show "verify_fold H i (length leaves) (leaf_hash H l) prf =
        verify_fold H i (length leaves) (h_hash H (leaves ! i)) (proof_items p)"
    using assms(4) i p verify_fold_path [OF assms(1), of i "map (h_hash H) leaves"]
    by (auto simp: verify_proof_def)
qed

definition weak_hasher :: "u8 hasher" where
  "weak_hasher = sample_hasher\<lparr>h_hash := (\<lambda>_. 0)\<rparr>"

theorem verify_proof_sound_witness:
  "\<exists>(x, y) \<in> set (zip (verify_inputs weak_hasher 0 2 5 [0]) (verify_inputs weak_hasher 0 2 0 [0])).
     x \<noteq> y \<and> h_hash weak_hasher x = h_hash weak_hasher y"
proof -
  have ok: "hasher_ok weak_hasher"
    using sample_hasher_ok by (simp add: hasher_ok_def weak_hasher_def)
  have p: "merkle_proof weak_hasher [[1], [2]] 0 = Some \<lparr>root = 0, proof_items = [0],
      number_of_leaves = 2, leaf_index = 0, leaf = [1]\<rparr>"
    by (simp add: merkle_proof_eq [OF ok] up_root_simps path.simps [of _ "[x, y]" for x y]
        path.simps [of _ "[x]" for x]) (simp add: node_def weak_hasher_def)
  have acc: "verify_proof weak_hasher 0 [0] (Suc (Suc 0)) 0 (Hash 5) = Some True"
    using ok by (simp add: verify_proof_def) (simp add: weak_hasher_def)
  show ?thesis
    using verify_proof_sound [OF ok p, of "[0]" "Hash 5"] acc
    by (simp add: weak_hasher_def)
qed

text \<open>
  \<open>merkle_proof\<close> panics exactly when the index is not below the number of leaves: also for an
  index equal to it, where the documentation only speaks of greater ones.
\<close>

lemma merkle_proof_panics_iff:
  assumes "hasher_ok H"
  shows "merkle_proof H leaves i = None \<longleftrightarrow> length leaves \<le> i"
  using assms merkelize_root [OF assms, of proof_visitor "map (h_hash H) leaves" "pc_new i"]
  by (auto simp: merkle_proof_def vec_simps split: option.splits)

end
