(* ===== verification/BTree_Map.thy ===== *)
theory BTree_Map
  imports Prelude
begin

text \<open>
  Rust's \<^verbatim>\<open>BTreeMap\<close> as the program uses it: a finite map whose iteration follows the order of the
  keys. The representation is a list of pairs with strictly increasing keys. The locale
  \<open>keyed_store\<close> states what the components that keep a map rely on; it is interpreted here on
  the list operations, and the components use the interpretation's facts.
\<close>

type_synonym ('k, 'v) btm = "('k \<times> 'v) list"

named_theorems btm_simps \<open>what a lookup returns after each map operation\<close>

section \<open>Operations\<close>

definition btm_get :: "('k, 'v) btm \<Rightarrow> 'k \<Rightarrow> 'v option" where
  "btm_get m = map_of m"

fun btm_insert :: "'k::linorder \<Rightarrow> 'v \<Rightarrow> ('k, 'v) btm \<Rightarrow> ('k, 'v) btm" where
  "btm_insert k v [] = [(k, v)]"
| "btm_insert k v ((k', v') # m) =
     (if k = k' then (k, v) # m
      else if k < k' then (k, v) # (k', v') # m
      else (k', v') # btm_insert k v m)"

definition btm_remove :: "'k \<Rightarrow> ('k, 'v) btm \<Rightarrow> ('k, 'v) btm" where
  "btm_remove k m = filter (\<lambda>(k', _). k' \<noteq> k) m"

definition btm_inv :: "('k::linorder, 'v) btm \<Rightarrow> bool" where
  "btm_inv m \<longleftrightarrow> sorted_wrt (<) (map fst m)"

text \<open>In-place update of every entry, and removal of the entries that fail a test.\<close>

definition btm_map :: "('k \<Rightarrow> 'v \<Rightarrow> 'w) \<Rightarrow> ('k, 'v) btm \<Rightarrow> ('k, 'w) btm" where
  "btm_map f m = map (\<lambda>(k, v). (k, f k v)) m"

definition btm_retain :: "('k \<Rightarrow> 'v \<Rightarrow> bool) \<Rightarrow> ('k, 'v) btm \<Rightarrow> ('k, 'v) btm" where
  "btm_retain p m = filter (\<lambda>(k, v). p k v) m"

section \<open>Laws\<close>

lemma btm_get_Nil [simp, btm_simps]: "btm_get [] = Map.empty"
  by (simp add: btm_get_def)

lemma btm_get_Cons [simp]: "btm_get ((a, b) # m) k = (if k = a then Some b else btm_get m k)"
  by (simp add: btm_get_def)

lemma btm_get_insert [btm_simps]: "btm_get (btm_insert k v m) = (btm_get m)(k \<mapsto> v)"
  by (induction k v m rule: btm_insert.induct) (auto simp: fun_eq_iff)

lemma btm_get_remove [btm_simps]: "btm_get (btm_remove k m) = (btm_get m)(k := None)"
proof
  show "btm_get (btm_remove k m) x = ((btm_get m)(k := None)) x" for x
    by (induction m) (auto simp: btm_remove_def)
qed

lemma btm_get_map [btm_simps]: "btm_get (btm_map f m) k = map_option (f k) (btm_get m k)"
  by (induction m) (auto simp: btm_map_def)

lemma btm_get_None_iff: "btm_get m k = None \<longleftrightarrow> k \<notin> fst ` set m"
  by (simp add: btm_get_def map_of_eq_None_iff)

lemma btm_inv_distinct: "btm_inv m \<Longrightarrow> distinct (map fst m)"
  by (simp add: btm_inv_def strict_sorted_iff)

lemma btm_get_Some_iff: "btm_inv m \<Longrightarrow> btm_get m k = Some v \<longleftrightarrow> (k, v) \<in> set m"
  by (simp add: btm_get_def btm_inv_distinct)

lemma btm_get_retain [btm_simps]:
  assumes "btm_inv m"
  shows "btm_get (btm_retain p m) k = (case btm_get m k of None \<Rightarrow> None | Some v \<Rightarrow> if p k v then Some v else None)"
  using btm_inv_distinct [OF assms]
proof (induction m)
  case (Cons x m)
  obtain a b where x: "x = (a, b)" by (cases x)
  have "btm_get m a = None" using Cons.prems x by (simp add: btm_get_None_iff)
  then show ?case using Cons x by (cases "k = a") (auto simp: btm_retain_def)
qed (simp add: btm_retain_def)

lemma btm_inv_Nil [simp]: "btm_inv []"
  by (simp add: btm_inv_def)

lemma fst_set_insert: "fst ` set (btm_insert k v m) = insert k (fst ` set m)"
  by (induction k v m rule: btm_insert.induct) auto

lemma btm_inv_insert [simp]: "btm_inv m \<Longrightarrow> btm_inv (btm_insert k v m)"
  by (induction k v m rule: btm_insert.induct) (auto simp: btm_inv_def fst_set_insert)

lemma btm_inv_filter: "btm_inv m \<Longrightarrow> btm_inv (filter p m)"
  by (induction m) (auto simp: btm_inv_def)

lemma btm_inv_remove [simp]: "btm_inv m \<Longrightarrow> btm_inv (btm_remove k m)"
  by (simp add: btm_remove_def btm_inv_filter)

lemma btm_inv_retain [simp]: "btm_inv m \<Longrightarrow> btm_inv (btm_retain p m)"
  by (simp add: btm_retain_def btm_inv_filter)

lemma btm_inv_map [simp]: "btm_inv (btm_map f m) \<longleftrightarrow> btm_inv m"
  by (simp add: btm_inv_def btm_map_def comp_def case_prod_beta)

section \<open>The interface\<close>

locale keyed_store =
  fixes get :: "'m \<Rightarrow> 'k \<Rightarrow> 'v option"
    and ins :: "'k \<Rightarrow> 'v \<Rightarrow> 'm \<Rightarrow> 'm"
    and del :: "'k \<Rightarrow> 'm \<Rightarrow> 'm"
    and ok :: "'m \<Rightarrow> bool"
  assumes get_ins: "ok m \<Longrightarrow> get (ins k v m) = (get m)(k \<mapsto> v)"
    and get_del: "ok m \<Longrightarrow> get (del k m) = (get m)(k := None)"
    and ok_ins: "ok m \<Longrightarrow> ok (ins k v m)"
    and ok_del: "ok m \<Longrightarrow> ok (del k m)"
begin

lemma get_ins_same: "ok m \<Longrightarrow> get (ins k v m) k = Some v"
  by (simp add: get_ins)

lemma get_other: "ok m \<Longrightarrow> k' \<noteq> k \<Longrightarrow> get (ins k v m) k' = get m k' \<and> get (del k m) k' = get m k'"
  by (simp add: get_ins get_del)

lemma del_ins: "ok m \<Longrightarrow> get m k = None \<Longrightarrow> get (del k (ins k v m)) = get m"
  by (simp add: get_ins get_del ok_ins fun_upd_idem)

end

interpretation btm: keyed_store btm_get btm_insert btm_remove btm_inv
  by unfold_locales (simp_all add: btm_simps)

end
