(* ===== verification/Changeset.thy ===== *)
theory Changeset
  imports BTree_Map
begin

text \<open>
  The transactional overlay storage of
  \<^verbatim>\<open>primitives/state-machine/src/overlayed_changes/changeset.rs\<close> (and the type \<open>Extrinsics\<close> of
  \<^verbatim>\<open>overlayed_changes/mod.rs\<close>): every key keeps one version of its value per open transaction that
  wrote it, and per transaction a set of dirty keys says which versions a commit merges and a
  rollback drops. The two stacks (\<open>transactions\<close> of an entry and \<open>dirty_keys\<close>) have their last
  element at the head of the list; a set of dirty keys is the list of its elements. An
  \<open>expect\<close> that fails, or an \<open>assert\<close>, is the result \<open>None\<close>.
\<close>

section \<open>Data\<close>

datatype ExecutionMode = Client | Runtime

datatype transaction_error = NoOpenTransaction | AlreadyInRuntime | NotInRuntime

record 'v InnerValue =
  iv_value :: 'v
  iv_extrinsics :: "u32 list"

record 'v OverlayedEntry =
  transactions :: "'v InnerValue list"

record ('k, 'v) OverlayedMap =
  changes :: "('k, 'v OverlayedEntry) btm"
  dirty_keys :: "'k list list"
  num_client_transactions :: nat
  execution_mode :: ExecutionMode

section \<open>Operations\<close>

definition ext_insert :: "u32 \<Rightarrow> u32 list \<Rightarrow> u32 list" where
  "ext_insert x xs = (if xs \<noteq> [] \<and> last xs = x then xs else xs @ [x])"

definition ext_extend :: "u32 list \<Rightarrow> u32 list \<Rightarrow> u32 list" where
  "ext_extend xs other = xs @ other"

definition entry_default :: "'v OverlayedEntry" where
  "entry_default = \<lparr>transactions = []\<rparr>"

definition om_default :: "('k, 'v) OverlayedMap" where
  "om_default = \<lparr>changes = [], dirty_keys = [], num_client_transactions = 0, execution_mode = Client\<rparr>"

definition om_from :: "('k, 'w) btm \<Rightarrow> ('k, 'w option) OverlayedMap" where
  "om_from storage =
     \<lparr>changes = map (\<lambda>(k, v). (k, \<lparr>transactions = [\<lparr>iv_value = Some v, iv_extrinsics = []\<rparr>]\<rparr>)) storage,
      dirty_keys = [], num_client_transactions = 0, execution_mode = Client\<rparr>"

definition value_ref :: "'v OverlayedEntry \<Rightarrow> 'v option" where
  "value_ref e = (case transactions e of [] \<Rightarrow> None | t # _ \<Rightarrow> Some (iv_value t))"

definition extrinsics :: "'v OverlayedEntry \<Rightarrow> u32 set" where
  "extrinsics e = (\<Union>t \<in> set (transactions e). set (iv_extrinsics t))"

text \<open>Writes through \<open>value_mut\<close> and \<open>transaction_extrinsics_mut\<close>: the last version changes.\<close>

fun tx_write :: "('v InnerValue \<Rightarrow> 'v InnerValue) \<Rightarrow> 'v InnerValue list \<Rightarrow> 'v InnerValue list" where
  "tx_write f [] = []"
| "tx_write f (t # ts) = f t # ts"

definition entry_set :: "'v \<Rightarrow> bool \<Rightarrow> u32 option \<Rightarrow> 'v OverlayedEntry \<Rightarrow> 'v OverlayedEntry" where
  "entry_set value first_write_in_tx at_extrinsic e =
     (let txs = (if first_write_in_tx \<or> transactions e = []
                 then \<lparr>iv_value = value, iv_extrinsics = []\<rparr> # transactions e
                 else tx_write (\<lambda>t. t\<lparr>iv_value := value\<rparr>) (transactions e))
      in e\<lparr>transactions :=
           (case at_extrinsic of
              None \<Rightarrow> txs
            | Some x \<Rightarrow> tx_write (\<lambda>t. t\<lparr>iv_extrinsics := ext_insert x (iv_extrinsics t)\<rparr>) txs)\<rparr>)"

fun insert_dirty :: "'k list list \<Rightarrow> 'k \<Rightarrow> bool \<times> 'k list list" where
  "insert_dirty [] key = (False, [])"
| "insert_dirty (dk # rest) key =
     (if key \<in> set dk then (False, dk # rest) else (True, (dk @ [key]) # rest))"

definition transaction_depth :: "('k, 'v) OverlayedMap \<Rightarrow> nat" where
  "transaction_depth m = length (dirty_keys m)"

definition spawn_child :: "('k, 'v) OverlayedMap \<Rightarrow> ('k2, 'v2) OverlayedMap" where
  "spawn_child m =
     \<lparr>changes = [], dirty_keys = replicate (transaction_depth m) [],
      num_client_transactions = num_client_transactions m, execution_mode = execution_mode m\<rparr>"

definition om_is_empty :: "('k, 'v) OverlayedMap \<Rightarrow> bool" where
  "om_is_empty m \<longleftrightarrow> changes m = []"

definition om_get :: "('k, 'v) OverlayedMap \<Rightarrow> 'k \<Rightarrow> 'v OverlayedEntry option" where
  "om_get m key = btm_get (changes m) key"

definition om_set :: "'k::linorder \<Rightarrow> 'v \<Rightarrow> u32 option \<Rightarrow> ('k, 'v) OverlayedMap \<Rightarrow> ('k, 'v) OverlayedMap" where
  "om_set key value at_extrinsic m =
     (let overlayed = (case btm_get (changes m) key of None \<Rightarrow> entry_default | Some e \<Rightarrow> e);
          (first_write, dks) = insert_dirty (dirty_keys m) key
      in m\<lparr>changes := btm_insert key (entry_set value first_write at_extrinsic overlayed) (changes m),
           dirty_keys := dks\<rparr>)"

fun pop_values :: "('k, 'v OverlayedEntry) btm \<Rightarrow> ('k \<times> 'v) list option" where
  "pop_values [] = Some []"
| "pop_values ((k, e) # m) =
     (case transactions e of
        [] \<Rightarrow> None
      | t # _ \<Rightarrow> map_option (\<lambda>r. (k, iv_value t) # r) (pop_values m))"

definition drain_commited :: "('k, 'v) OverlayedMap \<Rightarrow> ('k \<times> 'v) list option" where
  "drain_commited m = (if transaction_depth m = 0 then pop_values (changes m) else None)"

definition enter_runtime ::
  "('k, 'v) OverlayedMap \<Rightarrow> (transaction_error, ('k, 'v) OverlayedMap) result" where
  "enter_runtime m =
     (if execution_mode m = Runtime then Inl AlreadyInRuntime
      else Inr (m\<lparr>execution_mode := Runtime, num_client_transactions := transaction_depth m\<rparr>))"

definition start_transaction :: "('k, 'v) OverlayedMap \<Rightarrow> ('k, 'v) OverlayedMap" where
  "start_transaction m = m\<lparr>dirty_keys := [] # dirty_keys m\<rparr>"

definition has_open_runtime_transactions :: "('k, 'v) OverlayedMap \<Rightarrow> bool" where
  "has_open_runtime_transactions m \<longleftrightarrow> transaction_depth m > num_client_transactions m"

text \<open>One round of the loop over the dirty keys of the transaction that is closed.\<close>

definition close_key ::
  "bool \<Rightarrow> 'k::linorder \<Rightarrow> ('k, 'v OverlayedEntry) btm \<times> 'k list list
     \<Rightarrow> (('k, 'v OverlayedEntry) btm \<times> 'k list list) option" where
  "close_key rollback key s =
     (case s of (chs, dks) \<Rightarrow>
      case btm_get chs key of
        None \<Rightarrow> None
      | Some overlayed \<Rightarrow>
          if rollback then
            (case transactions overlayed of
               [] \<Rightarrow> None
             | t # ts \<Rightarrow>
                 Some (if ts = [] then btm_remove key chs
                       else btm_insert key (overlayed\<lparr>transactions := ts\<rparr>) chs, dks))
          else
            (let (has_predecessor, dks') =
                   (case dks of
                      [] \<Rightarrow> (length (transactions overlayed) > 1, dks)
                    | _ \<Rightarrow> (let (inserted, dks') = insert_dirty dks key in (\<not> inserted, dks')))
             in if has_predecessor then
                  (case transactions overlayed of
                     dropped # prev # ts \<Rightarrow>
                       Some (btm_insert key
                         (overlayed\<lparr>transactions :=
                            prev\<lparr>iv_value := iv_value dropped,
                                 iv_extrinsics := ext_extend (iv_extrinsics prev) (iv_extrinsics dropped)\<rparr>
                              # ts\<rparr>) chs, dks')
                   | _ \<Rightarrow> None)
                else Some (chs, dks')))"

fun close_keys ::
  "bool \<Rightarrow> 'k::linorder list \<Rightarrow> ('k, 'v OverlayedEntry) btm \<times> 'k list list
     \<Rightarrow> (('k, 'v OverlayedEntry) btm \<times> 'k list list) option" where
  "close_keys rollback [] s = Some s"
| "close_keys rollback (key # keys) s =
     (case close_key rollback key s of None \<Rightarrow> None | Some s' \<Rightarrow> close_keys rollback keys s')"

definition close_transaction ::
  "bool \<Rightarrow> ('k::linorder, 'v) OverlayedMap \<Rightarrow> (transaction_error, ('k, 'v) OverlayedMap) result option" where
  "close_transaction rollback m =
     (if execution_mode m = Runtime \<and> \<not> has_open_runtime_transactions m
      then Some (Inl NoOpenTransaction)
      else
        (case dirty_keys m of
           [] \<Rightarrow> Some (Inl NoOpenTransaction)
         | keys # rest \<Rightarrow>
             (case close_keys rollback keys (changes m, rest) of
                None \<Rightarrow> None
              | Some (chs, dks) \<Rightarrow> Some (Inr (m\<lparr>changes := chs, dirty_keys := dks\<rparr>)))))"

definition rollback_transaction ::
  "('k::linorder, 'v) OverlayedMap \<Rightarrow> (transaction_error, ('k, 'v) OverlayedMap) result option" where
  "rollback_transaction m = close_transaction True m"

definition commit_transaction ::
  "('k::linorder, 'v) OverlayedMap \<Rightarrow> (transaction_error, ('k, 'v) OverlayedMap) result option" where
  "commit_transaction m = close_transaction False m"

text \<open>Closing only ever adds keys to the set below, so the loop of \<open>exit_runtime\<close> ends.\<close>

lemma close_key_dirty_length:
  "close_key rb k (chs, dks) = Some (chs', dks') \<Longrightarrow> length dks' = length dks"
  by (cases dks) (auto simp: close_key_def split: option.splits list.splits if_splits prod.splits)

lemma close_keys_dirty_length:
  "close_keys rb ks (chs, dks) = Some (chs', dks') \<Longrightarrow> length dks' = length dks"
proof (induction ks arbitrary: chs dks)
  case (Cons k ks)
  then show ?case by (auto split: option.splits dest!: close_key_dirty_length)
qed simp

lemma close_transaction_depth:
  "close_transaction rb m = Some (Inr m') \<Longrightarrow> transaction_depth m = Suc (transaction_depth m')"
  by (auto simp: close_transaction_def transaction_depth_def close_keys_dirty_length
      split: if_splits list.splits option.splits)

function rollback_open :: "('k::linorder, 'v) OverlayedMap \<Rightarrow> ('k, 'v) OverlayedMap option" where
  "rollback_open m =
     (if has_open_runtime_transactions m then
        (case rollback_transaction m of
           Some (Inr m') \<Rightarrow> rollback_open m'
         | _ \<Rightarrow> None)
      else Some m)"
  by pat_completeness auto
termination
  by (relation "measure transaction_depth")
    (auto simp: rollback_transaction_def dest: close_transaction_depth)

declare rollback_open.simps [simp del]

definition exit_runtime ::
  "('k::linorder, 'v) OverlayedMap \<Rightarrow> (transaction_error, ('k, 'v) OverlayedMap) result option" where
  "exit_runtime m =
     (if execution_mode m = Client then Some (Inl NotInRuntime)
      else map_option Inr (rollback_open (m\<lparr>execution_mode := Client\<rparr>)))"

text \<open>
  \<open>modify\<close> hands out a mutable reference to the last version; \<open>upd\<close> is what its caller writes
  through it.
\<close>

definition om_modify ::
  "'k::linorder \<Rightarrow> 'w \<Rightarrow> u32 option \<Rightarrow> ('w option \<Rightarrow> 'w option) \<Rightarrow> ('k, 'w option) OverlayedMap
     \<Rightarrow> ('k, 'w option) OverlayedMap" where
  "om_modify key init at_extrinsic upd m =
     (let overlayed = (case btm_get (changes m) key of None \<Rightarrow> entry_default | Some e \<Rightarrow> e);
          (first_write, dks) = insert_dirty (dirty_keys m) key;
          clone_into_new_tx =
            (case transactions overlayed of
               t # _ \<Rightarrow> if first_write then Some (iv_value t) else None
             | [] \<Rightarrow> Some (Some init));
          overlayed' =
            (case clone_into_new_tx of
               Some cloned \<Rightarrow> entry_set cloned first_write at_extrinsic overlayed
             | None \<Rightarrow> overlayed)
      in m\<lparr>changes := btm_insert key
             (overlayed'\<lparr>transactions :=
                tx_write (\<lambda>t. t\<lparr>iv_value := upd (iv_value t)\<rparr>) (transactions overlayed')\<rparr>) (changes m),
           dirty_keys := dks\<rparr>)"

fun clear_loop ::
  "('k \<Rightarrow> 'w option OverlayedEntry \<Rightarrow> bool) \<Rightarrow> u32 option \<Rightarrow> ('k, 'w option OverlayedEntry) btm
     \<Rightarrow> 'k list list \<Rightarrow> u32 \<Rightarrow> (('k, 'w option OverlayedEntry) btm \<times> 'k list list \<times> u32) option" where
  "clear_loop predicate at_extrinsic [] dks count = Some ([], dks, count)"
| "clear_loop predicate at_extrinsic ((k, e) # m) dks count =
     (if predicate k e then
        (case value_ref e of
           None \<Rightarrow> None
         | Some v \<Rightarrow>
             (let (first_write, dks') = insert_dirty dks k
              in map_option (\<lambda>(m', r). ((k, entry_set None first_write at_extrinsic e) # m', r))
                   (clear_loop predicate at_extrinsic m dks' (if v \<noteq> None then count + 1 else count))))
      else map_option (\<lambda>(m', r). ((k, e) # m', r)) (clear_loop predicate at_extrinsic m dks count))"

definition clear_where ::
  "('k \<Rightarrow> 'w option OverlayedEntry \<Rightarrow> bool) \<Rightarrow> u32 option \<Rightarrow> ('k, 'w option) OverlayedMap
     \<Rightarrow> (('k, 'w option) OverlayedMap \<times> u32) option" where
  "clear_where predicate at_extrinsic m =
     map_option (\<lambda>(chs, dks, count). (m\<lparr>changes := chs, dirty_keys := dks\<rparr>, count))
       (clear_loop predicate at_extrinsic (changes m) (dirty_keys m) 0)"

definition changes_after :: "'k::linorder \<Rightarrow> ('k, 'v) OverlayedMap \<Rightarrow> ('k \<times> 'v OverlayedEntry) list" where
  "changes_after key m = filter (\<lambda>(k, _). key < k) (changes m)"

section \<open>Well-formed overlays\<close>

text \<open>
  Every key has one version per open transaction that wrote it, plus at most one committed
  version; a key without versions is not stored. In runtime mode the transactions of the client
  are still open.
\<close>

definition versions :: "('k, 'v OverlayedEntry) btm \<Rightarrow> 'k \<Rightarrow> 'v InnerValue list" where
  "versions chs k = (case btm_get chs k of None \<Rightarrow> [] | Some e \<Rightarrow> transactions e)"

definition n_dirty :: "'k list list \<Rightarrow> 'k \<Rightarrow> nat" where
  "n_dirty dks k = length (filter (\<lambda>d. k \<in> set d) dks)"

definition entries_ok :: "('k::linorder, 'v OverlayedEntry) btm \<Rightarrow> bool" where
  "entries_ok chs \<longleftrightarrow> btm_inv chs \<and> (\<forall>k e. btm_get chs k = Some e \<longrightarrow> transactions e \<noteq> [])"

definition layers_ok :: "('k::linorder, 'v OverlayedEntry) btm \<Rightarrow> 'k list list \<Rightarrow> bool" where
  "layers_ok chs dks \<longleftrightarrow> (\<forall>d \<in> set dks. distinct d) \<and>
     (\<forall>k. n_dirty dks k \<le> length (versions chs k) \<and> length (versions chs k) \<le> Suc (n_dirty dks k))"

definition om_wf :: "('k::linorder, 'v) OverlayedMap \<Rightarrow> bool" where
  "om_wf m \<longleftrightarrow> entries_ok (changes m) \<and> layers_ok (changes m) (dirty_keys m) \<and>
     (execution_mode m = Runtime \<longrightarrow> num_client_transactions m \<le> transaction_depth m)"

lemma n_dirty_simps [simp]:
  "n_dirty [] k = 0"
  "n_dirty (d # dks) k = (if k \<in> set d then Suc (n_dirty dks k) else n_dirty dks k)"
  by (simp_all add: n_dirty_def)

lemma versions_insert [simp]:
  "versions (btm_insert k e chs) = (versions chs)(k := transactions e)"
  by (auto simp: versions_def btm_simps fun_eq_iff)

lemma versions_remove [simp]: "versions (btm_remove k chs) = (versions chs)(k := [])"
  by (auto simp: versions_def btm_simps fun_eq_iff)

lemma entries_ok_insert [simp]:
  "entries_ok chs \<Longrightarrow> transactions e \<noteq> [] \<Longrightarrow> entries_ok (btm_insert k e chs)"
  by (auto simp: entries_ok_def btm_simps)

lemma entries_ok_remove [simp]: "entries_ok chs \<Longrightarrow> entries_ok (btm_remove k chs)"
  by (auto simp: entries_ok_def btm_simps)

lemma versions_Some: "btm_get chs k = Some e \<Longrightarrow> versions chs k = transactions e"
  by (simp add: versions_def)

lemma versions_nonempty:
  assumes "versions chs k \<noteq> []" obtains e where "btm_get chs k = Some e" "transactions e = versions chs k"
  using assms by (cases "btm_get chs k") (auto simp: versions_def)

section \<open>The abstract specification\<close>

text \<open>
  What a reader sees: the current value of every key, and for every open transaction the values
  at its start. Rolling back returns to the values at the start, committing forgets them.
\<close>

definition latest :: "'v InnerValue list \<Rightarrow> 'v option" where
  "latest ts = (case ts of [] \<Rightarrow> None | t # _ \<Rightarrow> Some (iv_value t))"

fun layer_views :: "'k list list \<Rightarrow> ('k \<Rightarrow> 'v InnerValue list) \<Rightarrow> ('k \<rightharpoonup> 'v) list" where
  "layer_views [] T = []"
| "layer_views (d # dks) T =
     (let T' = (\<lambda>k. if k \<in> set d then tl (T k) else T k)
      in (\<lambda>k. latest (T' k)) # layer_views dks T')"

definition om_view :: "('k, 'v) OverlayedMap \<Rightarrow> 'k \<rightharpoonup> 'v" where
  "om_view m = (\<lambda>k. latest (versions (changes m) k))"

definition om_saved :: "('k, 'v) OverlayedMap \<Rightarrow> ('k \<rightharpoonup> 'v) list" where
  "om_saved m = layer_views (dirty_keys m) (versions (changes m))"

lemma latest_simps [simp]: "latest [] = None" "latest (t # ts) = Some (iv_value t)"
  by (simp_all add: latest_def)

lemma tx_write_Nil_iff [simp]: "tx_write f ts = [] \<longleftrightarrow> ts = []"
  by (cases ts) auto

lemma tl_tx_write [simp]: "tl (tx_write f ts) = tl ts"
  by (cases ts) auto

lemma length_tx_write [simp]: "length (tx_write f ts) = length ts"
  by (cases ts) auto

lemma length_layer_views [simp]: "length (layer_views dks T) = length dks"
  by (induction dks arbitrary: T) (auto simp: Let_def)

lemma length_om_saved [simp]: "length (om_saved m) = transaction_depth m"
  by (simp add: om_saved_def transaction_depth_def)

text \<open>Writing a version.\<close>

lemma entry_set_versions:
  "transactions (entry_set v fw x e) \<noteq> []"
  "latest (transactions (entry_set v fw x e)) = Some v"
  "fw \<or> transactions e = [] \<Longrightarrow> tl (transactions (entry_set v fw x e)) = transactions e"
  "\<not> fw \<Longrightarrow> transactions e \<noteq> [] \<Longrightarrow> tl (transactions (entry_set v fw x e)) = tl (transactions e)"
  "length (transactions (entry_set v fw x e)) =
     (if fw \<or> transactions e = [] then Suc (length (transactions e)) else length (transactions e))"
  by (cases "transactions e"; simp add: entry_set_def Let_def split: option.split)+

lemma insert_dirty_facts:
  assumes "insert_dirty dks k = (fw, dks')"
  shows "fw \<longleftrightarrow> dks \<noteq> [] \<and> k \<notin> set (hd dks)" "length dks' = length dks"
    "(\<forall>d \<in> set dks. distinct d) \<Longrightarrow> \<forall>d \<in> set dks'. distinct d"
    "n_dirty dks' k' = (if fw \<and> k' = k then Suc (n_dirty dks k') else n_dirty dks k')"
  using assms by (cases dks; auto split: if_splits)+

text \<open>
  A write of a first version when the innermost transaction has not seen the key, or a change of
  the last version otherwise, leaves every saved view as it was.
\<close>

lemma layer_views_write:
  assumes "insert_dirty dks k = (fw, dks')" "fw \<Longrightarrow> tl ts = T k" "\<not> fw \<Longrightarrow> dks \<noteq> [] \<Longrightarrow> tl ts = tl (T k)"
  shows "layer_views dks' (T(k := ts)) = layer_views dks T"
proof (cases dks)
  case (Cons d rest)
  have "(\<lambda>j. if j \<in> set (hd dks') then tl ((T(k := ts)) j) else (T(k := ts)) j) =
        (\<lambda>j. if j \<in> set d then tl (T j) else T j)"
    using assms Cons by (auto simp: fun_eq_iff split: if_splits)
  then show ?thesis using assms(1) Cons by (auto simp: Let_def split: if_splits)
qed (use assms in simp)

lemma layers_ok_write:
  assumes "layers_ok chs dks" "insert_dirty dks k = (fw, dks')"
    and "length (transactions e) = (if fw \<or> versions chs k = [] then Suc (length (versions chs k))
                                    else length (versions chs k))"
  shows "layers_ok (btm_insert k e chs) dks'"
  unfolding layers_ok_def
proof (intro conjI allI)
  note facts = insert_dirty_facts [OF assms(2)]
  show "\<forall>d \<in> set dks'. distinct d" using facts(3) assms(1) by (simp add: layers_ok_def)
  fix j
  have j: "n_dirty dks j \<le> length (versions chs j)" "length (versions chs j) \<le> Suc (n_dirty dks j)"
    using assms(1) by (simp_all add: layers_ok_def)
  show "n_dirty dks' j \<le> length (versions (btm_insert k e chs) j)"
    using j assms(3) by (cases "j = k") (auto simp: facts(4))
  show "length (versions (btm_insert k e chs) j) \<le> Suc (n_dirty dks' j)"
    using j assms(3) by (cases "j = k") (auto simp: facts(4))
qed

lemma om_write_facts:
  assumes "om_wf m" "insert_dirty (dirty_keys m) k = (fw, dks')"
    and "transactions e \<noteq> []"
    and "fw \<or> versions (changes m) k = [] \<Longrightarrow> tl (transactions e) = versions (changes m) k"
    and "\<not> fw \<Longrightarrow> versions (changes m) k \<noteq> [] \<Longrightarrow> tl (transactions e) = tl (versions (changes m) k)"
  defines "m' \<equiv> m\<lparr>changes := btm_insert k e (changes m), dirty_keys := dks'\<rparr>"
  shows "om_wf m'" "om_view m' = (om_view m)(k := latest (transactions e))" "om_saved m' = om_saved m"
proof -
  have wf: "entries_ok (changes m)" "layers_ok (changes m) (dirty_keys m)"
    using assms(1) by (auto simp: om_wf_def)
  have touched: "versions (changes m) k = [] \<Longrightarrow> dirty_keys m \<noteq> [] \<Longrightarrow> fw"
    using wf(2) assms(2) by (cases "dirty_keys m") (force simp: layers_ok_def split: if_splits)+
  show "om_view m' = (om_view m)(k := latest (transactions e))"
    by (simp add: m'_def om_view_def fun_eq_iff)
  have "layer_views dks' ((versions (changes m))(k := transactions e)) =
        layer_views (dirty_keys m) (versions (changes m))"
    using touched assms(4,5) by (intro layer_views_write [OF assms(2)]) blast+
  then show "om_saved m' = om_saved m" by (simp add: m'_def om_saved_def)
  have "length (transactions e) = (if fw \<or> versions (changes m) k = []
      then Suc (length (versions (changes m) k)) else length (versions (changes m) k))"
    using assms(3,4,5) by (cases "transactions e") (auto simp: Suc_leI)
  then have "layers_ok (btm_insert k e (changes m)) dks'"
    by (rule layers_ok_write [OF wf(2) assms(2)])
  then show "om_wf m'"
    using assms(1,3) wf(1) insert_dirty_facts(2) [OF assms(2)]
    by (simp add: m'_def om_wf_def transaction_depth_def)
qed

lemma entry_or_default:
  "transactions (case btm_get chs k of None \<Rightarrow> entry_default | Some e \<Rightarrow> e) = versions chs k"
  by (auto simp: versions_def entry_default_def split: option.split)

lemma om_set_facts:
  assumes "om_wf m"
  shows "om_wf (om_set k v x m)" "om_view (om_set k v x m) = (om_view m)(k \<mapsto> v)"
    "om_saved (om_set k v x m) = om_saved m"
proof -
  define e where "e = (case btm_get (changes m) k of None \<Rightarrow> entry_default | Some e \<Rightarrow> e)"
  obtain fw dks' where ins: "insert_dirty (dirty_keys m) k = (fw, dks')" by fastforce
  have e: "transactions e = versions (changes m) k" by (simp add: e_def entry_or_default)
  have set: "om_set k v x m =
      m\<lparr>changes := btm_insert k (entry_set v fw x e) (changes m), dirty_keys := dks'\<rparr>"
    by (simp add: om_set_def e_def [symmetric] ins)
  note es = entry_set_versions [where v = v and fw = fw and x = x and e = e, unfolded e]
  from om_write_facts [OF assms ins es(1) es(3) es(4)]
  show "om_wf (om_set k v x m)" "om_view (om_set k v x m) = (om_view m)(k \<mapsto> v)"
    "om_saved (om_set k v x m) = om_saved m"
    by (simp_all add: set es(2))
qed

text \<open>The value a caller of \<open>modify\<close> finds behind the reference, and what its write leaves.\<close>

lemma om_modify_facts:
  fixes m :: "('k::linorder, 'w option) OverlayedMap" and upd x init k
  assumes "om_wf m"
  defines "m' \<equiv> om_modify k init x upd m"
  shows "om_wf m'"
    "om_view m' = (om_view m)(k \<mapsto> upd (case om_view m k of None \<Rightarrow> Some init | Some v \<Rightarrow> v))"
    "om_saved m' = om_saved m"
proof -
  define e where "e = (case btm_get (changes m) k of None \<Rightarrow> entry_default | Some e \<Rightarrow> e)"
  obtain fw dks' where ins: "insert_dirty (dirty_keys m) k = (fw, dks')" by fastforce
  have e: "transactions e = versions (changes m) k" by (simp add: e_def entry_or_default)
  define c where "c = (case transactions e of t # _ \<Rightarrow> if fw then Some (iv_value t) else None
    | [] \<Rightarrow> Some (Some init))"
  define e1 where "e1 = (case c of Some v \<Rightarrow> entry_set v fw x e | None \<Rightarrow> e)"
  define e2 where "e2 = e1\<lparr>transactions := tx_write (\<lambda>t. t\<lparr>iv_value := upd (iv_value t)\<rparr>) (transactions e1)\<rparr>"
  have m': "m' = m\<lparr>changes := btm_insert k e2 (changes m), dirty_keys := dks'\<rparr>"
    by (simp add: m'_def om_modify_def ins Let_def e_def [symmetric] c_def [symmetric] e1_def [symmetric] e2_def)
  have e1_ne: "transactions e1 \<noteq> []"
    by (auto simp: e1_def c_def entry_set_versions split: list.splits option.splits)
  have e2_tl: "tl (transactions e2) = tl (transactions e1)" by (simp add: e2_def)
  have tl1: "fw \<or> versions (changes m) k = [] \<Longrightarrow> tl (transactions e2) = versions (changes m) k"
    by (auto simp: e2_tl e1_def c_def entry_set_versions e [symmetric] split: list.splits)
  have tl2: "\<not> fw \<Longrightarrow> versions (changes m) k \<noteq> [] \<Longrightarrow> tl (transactions e2) = tl (versions (changes m) k)"
    by (auto simp: e2_tl e1_def c_def e [symmetric] split: list.splits)
  have "latest (transactions e1) = Some (case om_view m k of None \<Rightarrow> Some init | Some v \<Rightarrow> v)"
    by (cases "transactions e") (auto simp: e1_def c_def entry_set_versions om_view_def e [symmetric])
  then have latest: "latest (transactions e2) = Some (upd (case om_view m k of None \<Rightarrow> Some init | Some v \<Rightarrow> v))"
    by (cases "transactions e1") (auto simp: e2_def)
  have "transactions e2 \<noteq> []" using e1_ne by (simp add: e2_def)
  from om_write_facts [OF assms(1) ins this tl1 tl2] show "om_wf m'"
    "om_view m' = (om_view m)(k \<mapsto> upd (case om_view m k of None \<Rightarrow> Some init | Some v \<Rightarrow> v))"
    "om_saved m' = om_saved m"
    by (simp_all add: m' latest)
qed

lemma start_transaction_facts:
  assumes "om_wf m"
  shows "om_wf (start_transaction m)" "om_view (start_transaction m) = om_view m"
    "om_saved (start_transaction m) = om_view m # om_saved m"
  using assms
  by (auto simp: start_transaction_def om_wf_def layers_ok_def om_view_def om_saved_def
      transaction_depth_def Let_def)

section \<open>Closing a transaction\<close>

text \<open>A rollback drops the last version of each dirty key and nothing else.\<close>

lemma close_keys_rollback:
  assumes "entries_ok chs" "distinct ks" "\<forall>k \<in> set ks. versions chs k \<noteq> []"
  shows "\<exists>chs'. close_keys True ks (chs, dks) = Some (chs', dks) \<and> entries_ok chs' \<and>
    versions chs' = (\<lambda>k. if k \<in> set ks then tl (versions chs k) else versions chs k)"
  using assms
proof (induction ks arbitrary: chs)
  case (Cons k ks)
  from Cons.prems(3) have "versions chs k \<noteq> []" by simp
  then obtain e t ts where e: "btm_get chs k = Some e" "transactions e = t # ts" "versions chs k = t # ts"
    by (metis list.exhaust versions_nonempty)
  define chs1 where
    "chs1 = (if ts = [] then btm_remove k chs else btm_insert k (e\<lparr>transactions := ts\<rparr>) chs)"
  have step: "close_key True k (chs, dks) = Some (chs1, dks)"
    using e by (simp add: close_key_def chs1_def)
  have chs1: "entries_ok chs1" "versions chs1 = (versions chs)(k := ts)"
    using Cons.prems(1) e by (auto simp: chs1_def)
  have "\<forall>j \<in> set ks. versions chs1 j \<noteq> []"
    using Cons.prems(2,3) chs1(2) by auto
  with Cons.IH [OF chs1(1)] Cons.prems(2) obtain chs' where
    "close_keys True ks (chs1, dks) = Some (chs', dks)" "entries_ok chs'"
    "versions chs' = (\<lambda>k. if k \<in> set ks then tl (versions chs1 k) else versions chs1 k)"
    by auto
  then show ?case using step chs1(2) e Cons.prems(2) by (auto simp: fun_eq_iff)
qed auto

text \<open>
  A commit merges the last two versions of each dirty key whose predecessor belongs to the
  transaction below (or is committed), and makes the other keys dirty there.
\<close>

definition merge_versions :: "'v InnerValue list \<Rightarrow> 'v InnerValue list" where
  "merge_versions ts =
     (case ts of dropped # prev # rest \<Rightarrow>
        prev\<lparr>iv_value := iv_value dropped,
             iv_extrinsics := iv_extrinsics prev @ iv_extrinsics dropped\<rparr> # rest
      | _ \<Rightarrow> ts)"

definition has_pred :: "'k list list \<Rightarrow> 'k \<Rightarrow> 'v InnerValue list \<Rightarrow> bool" where
  "has_pred dks k ts \<longleftrightarrow> (case dks of [] \<Rightarrow> length ts > 1 | d # _ \<Rightarrow> k \<in> set d)"

lemma merge_versions_facts:
  assumes "1 < length ts"
  shows "length (merge_versions ts) = length ts - 1" "tl (merge_versions ts) = tl (tl ts)"
    "latest (merge_versions ts) = latest ts" "merge_versions ts \<noteq> []"
  using assms by (auto simp: merge_versions_def split: list.split)

lemma close_key_commit:
  assumes "entries_ok chs" "versions chs k \<noteq> []"
    and "has_pred dks k (versions chs k) \<Longrightarrow> 1 < length (versions chs k)"
  shows "\<exists>chs'. close_key False k (chs, dks) = Some (chs', snd (insert_dirty dks k)) \<and> entries_ok chs' \<and>
    versions chs' = (versions chs)(k :=
      if has_pred dks k (versions chs k) then merge_versions (versions chs k) else versions chs k)"
proof -
  obtain e where e: "btm_get chs k = Some e" "transactions e = versions chs k"
    using assms(2) by (rule versions_nonempty)
  show ?thesis
  proof (cases "has_pred dks k (versions chs k)")
    case True
    with assms(3) obtain t u ts where ts: "versions chs k = t # u # ts"
      by (cases "versions chs k"; cases "tl (versions chs k)") auto
    with True e assms(1) show ?thesis
      by (cases dks) (auto simp: close_key_def has_pred_def merge_versions_def ext_extend_def)
  next
    case False
    with e assms(1) show ?thesis
      by (cases dks) (auto simp: close_key_def has_pred_def)
  qed
qed

lemma has_pred_insert_dirty:
  "j \<noteq> k \<Longrightarrow> has_pred (snd (insert_dirty dks k)) j ts = has_pred dks j ts"
  by (cases dks) (auto simp: has_pred_def)

lemma close_keys_commit:
  assumes "entries_ok chs" "distinct ks"
    and "\<forall>k \<in> set ks. versions chs k \<noteq> [] \<and> (has_pred dks k (versions chs k) \<longrightarrow> 1 < length (versions chs k))"
  shows "\<exists>chs'. close_keys False ks (chs, dks) = Some (chs', foldl (\<lambda>d k. snd (insert_dirty d k)) dks ks) \<and>
    entries_ok chs' \<and> versions chs' = (\<lambda>k. if k \<in> set ks \<and> has_pred dks k (versions chs k)
      then merge_versions (versions chs k) else versions chs k)"
  using assms
proof (induction ks arbitrary: chs dks)
  case (Cons k ks)
  let ?dks = "snd (insert_dirty dks k)"
  from Cons.prems close_key_commit [of chs k dks] obtain chs1 where chs1:
    "close_key False k (chs, dks) = Some (chs1, ?dks)" "entries_ok chs1"
    "versions chs1 = (versions chs)(k :=
      if has_pred dks k (versions chs k) then merge_versions (versions chs k) else versions chs k)"
    by auto
  have other: "versions chs1 j = versions chs j" "has_pred ?dks j ts = has_pred dks j ts"
    if "j \<in> set ks" for j ts
  proof -
    have "j \<noteq> k" using that Cons.prems(2) by auto
    then show "versions chs1 j = versions chs j" "has_pred ?dks j ts = has_pred dks j ts"
      by (simp_all add: chs1(3) has_pred_insert_dirty)
  qed
  have pre: "\<forall>j \<in> set ks. versions chs1 j \<noteq> [] \<and>
      (has_pred ?dks j (versions chs1 j) \<longrightarrow> 1 < length (versions chs1 j))"
    using Cons.prems(3) by (simp add: other)
  have "distinct ks" using Cons.prems(2) by simp
  from Cons.IH [OF chs1(2) this pre] obtain chs' where chs':
    "close_keys False ks (chs1, ?dks) = Some (chs', foldl (\<lambda>d k. snd (insert_dirty d k)) ?dks ks)"
    "entries_ok chs'" "versions chs' = (\<lambda>k. if k \<in> set ks \<and> has_pred ?dks k (versions chs1 k)
      then merge_versions (versions chs1 k) else versions chs1 k)"
    by blast
  have "versions chs' j = (if j \<in> set (k # ks) \<and> has_pred dks j (versions chs j)
      then merge_versions (versions chs j) else versions chs j)" for j
  proof (cases "j \<in> set ks")
    case True
    then show ?thesis by (simp add: chs'(3) other)
  next
    case False
    then show ?thesis by (simp add: chs'(3) chs1(3))
  qed
  then show ?case using chs1(1) chs'(1,2) by (simp add: fun_eq_iff)
qed auto

lemma foldl_insert_dirty:
  "distinct ks \<Longrightarrow> foldl (\<lambda>d k. snd (insert_dirty d k)) dks ks =
     (case dks of [] \<Rightarrow> [] | d # rest \<Rightarrow> (d @ filter (\<lambda>k. k \<notin> set d) ks) # rest)"
proof (induction ks arbitrary: dks)
  case (Cons k ks)
  have "x \<noteq> k" if "x \<in> set ks" for x using that Cons.prems by auto
  then have "filter (\<lambda>x. x \<noteq> k \<and> x \<notin> set d) ks = filter (\<lambda>x. x \<notin> set d) ks" for d
    by (intro filter_cong) auto
  with Cons show ?case by (auto split: list.splits)
qed (auto split: list.split)

definition can_close :: "('k, 'v) OverlayedMap \<Rightarrow> bool" where
  "can_close m \<longleftrightarrow> dirty_keys m \<noteq> [] \<and> (execution_mode m = Runtime \<longrightarrow> has_open_runtime_transactions m)"

lemma close_refused: "\<not> can_close m \<Longrightarrow> close_transaction rb m = Some (Inl NoOpenTransaction)"
  by (auto simp: can_close_def close_transaction_def)

lemma dirty_versions:
  assumes "layers_ok chs (d # dks)" "k \<in> set d"
  shows "versions chs k \<noteq> []" "has_pred dks k (versions chs k) \<Longrightarrow> 1 < length (versions chs k)"
proof -
  have n: "n_dirty (d # dks) k \<le> length (versions chs k)" using assms(1) by (simp add: layers_ok_def)
  then show "versions chs k \<noteq> []" using assms(2) by auto
  show "1 < length (versions chs k)" if "has_pred dks k (versions chs k)"
    using n that assms(2) by (cases dks) (auto simp: has_pred_def)
qed

lemma layers_ok_rollback:
  assumes "layers_ok chs (d # dks)"
    and "versions chs' = (\<lambda>k. if k \<in> set d then tl (versions chs k) else versions chs k)"
  shows "layers_ok chs' dks"
  unfolding layers_ok_def
proof (intro conjI allI)
  show "\<forall>d \<in> set dks. distinct d" using assms(1) by (simp add: layers_ok_def)
  fix k
  have "n_dirty (d # dks) k \<le> length (versions chs k)" "length (versions chs k) \<le> Suc (n_dirty (d # dks) k)"
    using assms(1) unfolding layers_ok_def by blast+
  then show "n_dirty dks k \<le> length (versions chs' k)" "length (versions chs' k) \<le> Suc (n_dirty dks k)"
    by (auto simp: assms(2) split: if_splits)
qed

lemma rollback_facts:
  assumes "om_wf m" "can_close m"
  shows "\<exists>m'. rollback_transaction m = Some (Inr m') \<and> om_wf m' \<and> om_view m' = hd (om_saved m) \<and>
    om_saved m' = tl (om_saved m) \<and> execution_mode m' = execution_mode m \<and>
    num_client_transactions m' = num_client_transactions m"
proof -
  from assms(2) obtain d dks where d: "dirty_keys m = d # dks"
    by (auto simp: can_close_def neq_Nil_conv)
  from assms(1) have wf: "entries_ok (changes m)" "layers_ok (changes m) (d # dks)" "distinct d"
    by (auto simp: om_wf_def d layers_ok_def)
  from close_keys_rollback [OF wf(1,3), of dks] dirty_versions(1) [OF wf(2)] obtain chs where chs:
    "close_keys True d (changes m, dks) = Some (chs, dks)" "entries_ok chs"
    "versions chs = (\<lambda>k. if k \<in> set d then tl (versions (changes m) k) else versions (changes m) k)"
    by blast
  let ?m = "m\<lparr>changes := chs, dirty_keys := dks\<rparr>"
  have "rollback_transaction m = Some (Inr ?m)"
    using assms(2) chs(1) d by (auto simp: rollback_transaction_def close_transaction_def can_close_def)
  moreover have "om_wf ?m"
    using assms chs(2) layers_ok_rollback [OF wf(2) chs(3)] d
    by (auto simp: om_wf_def can_close_def has_open_runtime_transactions_def transaction_depth_def)
  moreover have "om_view ?m = hd (om_saved m)" "om_saved ?m = tl (om_saved m)"
    by (simp_all add: om_view_def om_saved_def d chs(3) Let_def)
  ultimately show ?thesis by auto
qed

lemma layers_ok_commit:
  assumes "layers_ok chs (d # dks)"
    and "versions chs' = (\<lambda>k. if k \<in> set d \<and> has_pred dks k (versions chs k)
      then merge_versions (versions chs k) else versions chs k)"
    and "dks' = (case dks of [] \<Rightarrow> [] | d2 # rest \<Rightarrow> (d2 @ filter (\<lambda>k. k \<notin> set d2) d) # rest)"
  shows "layers_ok chs' dks'"
  unfolding layers_ok_def
proof (intro conjI allI)
  show "\<forall>d \<in> set dks'. distinct d" using assms(1,3) by (auto simp: layers_ok_def split: list.splits)
  fix k
  have n: "n_dirty (d # dks) k \<le> length (versions chs k)" "length (versions chs k) \<le> Suc (n_dirty (d # dks) k)"
    using assms(1) unfolding layers_ok_def by blast+
  have len: "length (versions chs' k) = (if k \<in> set d \<and> has_pred dks k (versions chs k)
      then length (versions chs k) - 1 else length (versions chs k))"
    using dirty_versions(2) [OF assms(1)] by (simp add: assms(2) merge_versions_facts)
  have n': "n_dirty dks' k = (if k \<in> set d \<and> dks \<noteq> [] \<and> k \<notin> set (hd dks) then Suc (n_dirty dks k) else n_dirty dks k)"
    by (cases dks) (auto simp: assms(3))
  show "n_dirty dks' k \<le> length (versions chs' k)" "length (versions chs' k) \<le> Suc (n_dirty dks' k)"
    using n by (cases dks; auto simp: len n' has_pred_def split: if_splits)+
qed

lemma layer_views_commit:
  assumes "layers_ok chs (d # dks)"
    and "versions chs' = (\<lambda>k. if k \<in> set d \<and> has_pred dks k (versions chs k)
      then merge_versions (versions chs k) else versions chs k)"
    and "dks' = (case dks of [] \<Rightarrow> [] | d2 # rest \<Rightarrow> (d2 @ filter (\<lambda>k. k \<notin> set d2) d) # rest)"
  shows "layer_views dks' (versions chs') = tl (layer_views (d # dks) (versions chs))"
proof (cases dks)
  case (Cons d2 rest)
  have "(\<lambda>k. if k \<in> set (d2 @ filter (\<lambda>k. k \<notin> set d2) d) then tl (versions chs' k) else versions chs' k) =
        (\<lambda>k. let t = (if k \<in> set d then tl (versions chs k) else versions chs k)
             in if k \<in> set d2 then tl t else t)"
  proof
    fix k
    have "1 < length (versions chs k)" if "k \<in> set d" "k \<in> set d2"
      using dirty_versions(2) [OF assms(1) that(1)] that(2) by (simp add: Cons has_pred_def)
    then show "(if k \<in> set (d2 @ filter (\<lambda>k. k \<notin> set d2) d) then tl (versions chs' k) else versions chs' k) =
      (let t = (if k \<in> set d then tl (versions chs k) else versions chs k)
             in if k \<in> set d2 then tl t else t)"
      by (simp add: assms(2) Cons has_pred_def merge_versions_facts)
  qed
  then show ?thesis by (simp add: assms(3) Cons Let_def)
qed (simp add: assms(3))

lemma commit_facts:
  assumes "om_wf m" "can_close m"
  shows "\<exists>m'. commit_transaction m = Some (Inr m') \<and> om_wf m' \<and> om_view m' = om_view m \<and>
    om_saved m' = tl (om_saved m) \<and> execution_mode m' = execution_mode m \<and>
    num_client_transactions m' = num_client_transactions m"
proof -
  from assms(2) obtain d dks where d: "dirty_keys m = d # dks"
    by (auto simp: can_close_def neq_Nil_conv)
  from assms(1) have wf: "entries_ok (changes m)" "layers_ok (changes m) (d # dks)" "distinct d"
    by (auto simp: om_wf_def d layers_ok_def)
  define dks' where "dks' = (case dks of [] \<Rightarrow> [] | d2 # rest \<Rightarrow> (d2 @ filter (\<lambda>k. k \<notin> set d2) d) # rest)"
  from close_keys_commit [OF wf(1,3), of dks] dirty_versions [OF wf(2)] obtain chs where chs:
    "close_keys False d (changes m, dks) = Some (chs, dks')" "entries_ok chs"
    "versions chs = (\<lambda>k. if k \<in> set d \<and> has_pred dks k (versions (changes m) k)
      then merge_versions (versions (changes m) k) else versions (changes m) k)"
    unfolding foldl_insert_dirty [OF wf(3)] dks'_def by blast
  let ?m = "m\<lparr>changes := chs, dirty_keys := dks'\<rparr>"
  have "commit_transaction m = Some (Inr ?m)"
    using assms(2) chs(1) d by (auto simp: commit_transaction_def close_transaction_def can_close_def)
  moreover have "om_wf ?m"
    using assms chs(2) layers_ok_commit [OF wf(2) chs(3) dks'_def] d
      close_keys_dirty_length [OF chs(1)]
    by (auto simp: om_wf_def can_close_def has_open_runtime_transactions_def transaction_depth_def)
  moreover have "om_view ?m = om_view m"
    using dirty_versions(2) [OF wf(2)] by (auto simp: om_view_def chs(3) merge_versions_facts)
  moreover have "om_saved ?m = tl (om_saved m)"
    using layer_views_commit [OF wf(2) chs(3) dks'_def] by (simp add: om_saved_def d)
  ultimately show ?thesis by auto
qed

section \<open>Leaving the runtime\<close>

lemma rollback_open_facts:
  assumes "om_wf m" "execution_mode m = Client"
  shows "\<exists>m'. rollback_open m = Some m' \<and> om_wf m' \<and> execution_mode m' = Client \<and>
    om_view m' # om_saved m' = drop (transaction_depth m - num_client_transactions m) (om_view m # om_saved m)"
  using assms
proof (induction m rule: rollback_open.induct)
  case (1 m)
  show ?case
  proof (cases "has_open_runtime_transactions m")
    case False
    then show ?thesis using "1.prems"
      by (simp add: rollback_open.simps [of m] has_open_runtime_transactions_def)
  next
    case True
    then have "can_close m" using "1.prems"
      by (auto simp: can_close_def has_open_runtime_transactions_def transaction_depth_def)
    from rollback_facts [OF "1.prems"(1) this] obtain m1 where m1: "rollback_transaction m = Some (Inr m1)"
      "om_wf m1" "om_view m1 = hd (om_saved m)" "om_saved m1 = tl (om_saved m)"
      "execution_mode m1 = Client" "num_client_transactions m1 = num_client_transactions m"
      using "1.prems"(2) by auto
    have depth: "transaction_depth m = Suc (transaction_depth m1)"
      using m1(1) by (auto simp: rollback_transaction_def dest: close_transaction_depth)
    then have "om_saved m = om_view m1 # om_saved m1"
      using m1(3,4) by (cases "om_saved m") (auto dest: arg_cong [of _ _ length])
    then show ?thesis
      using "1.IH" [OF True m1(1) refl m1(2,5)] True m1(1,6) depth
      by (auto simp: rollback_open.simps [of m] has_open_runtime_transactions_def Suc_diff_le)
  qed
qed

lemma exit_runtime_facts:
  assumes "om_wf m" "execution_mode m = Runtime"
  shows "\<exists>m'. exit_runtime m = Some (Inr m') \<and> om_wf m' \<and> execution_mode m' = Client \<and>
    transaction_depth m' = num_client_transactions m \<and>
    om_view m' # om_saved m' = drop (transaction_depth m - num_client_transactions m) (om_view m # om_saved m)"
proof -
  let ?m = "m\<lparr>execution_mode := Client\<rparr>"
  have "om_wf ?m" using assms(1) by (simp add: om_wf_def transaction_depth_def)
  from rollback_open_facts [OF this] obtain m' where m': "rollback_open ?m = Some m'" "om_wf m'"
    "execution_mode m' = Client" "om_view m' # om_saved m' =
      drop (transaction_depth m - num_client_transactions m) (om_view m # om_saved m)"
    by (auto simp: transaction_depth_def om_view_def om_saved_def)
  have "length (om_view m' # om_saved m') = Suc (num_client_transactions m)"
    using assms by (subst m'(4)) (auto simp: om_wf_def)
  then have "transaction_depth m' = num_client_transactions m" by simp
  with m' assms(2) show ?thesis by (simp add: exit_runtime_def)
qed

section \<open>Clearing and draining\<close>

lemma btm_insert_replace:
  "btm_inv (pre @ (k, v) # post) \<Longrightarrow> btm_insert k v' (pre @ (k, v) # post) = pre @ (k, v') # post"
  by (induction pre) (auto simp: btm_inv_def)

lemma btm_get_mid: "btm_inv (pre @ (k, v) # post) \<Longrightarrow> btm_get (pre @ (k, v) # post) k = Some v"
  by (simp add: btm_get_Some_iff)

lemma btm_inv_replace: "btm_inv (pre @ (k, v) # post) = btm_inv (pre @ (k, v') # post)"
  by (simp add: btm_inv_def)

text \<open>Clearing visits the stored keys in order and deletes each selected one by a write.\<close>

definition selected :: "('k \<Rightarrow> 'w option OverlayedEntry \<Rightarrow> bool) \<Rightarrow> ('k, 'w option OverlayedEntry) btm \<Rightarrow> 'k list" where
  "selected p m = map fst (filter (\<lambda>(k, e). p k e) m)"

definition n_live :: "('k \<Rightarrow> 'w option OverlayedEntry \<Rightarrow> bool) \<Rightarrow> ('k, 'w option OverlayedEntry) btm \<Rightarrow> nat" where
  "n_live p m = length (filter (\<lambda>(k, e). p k e \<and> value_ref e \<noteq> Some None) m)"

lemma clear_loop_fold:
  assumes "btm_inv (pre @ suf)" "\<forall>(k, e) \<in> set suf. transactions e \<noteq> []"
  shows "\<exists>suf' dks'. clear_loop p x suf dks c = Some (suf', dks', c + of_nat (n_live p suf)) \<and>
    m\<lparr>changes := pre @ suf', dirty_keys := dks'\<rparr> =
      fold (\<lambda>k. om_set k None x) (selected p suf) (m\<lparr>changes := pre @ suf, dirty_keys := dks\<rparr>)"
  using assms
proof (induction suf arbitrary: pre dks c)
  case (Cons ke suf)
  obtain k e where ke: "ke = (k, e)" by (cases ke)
  obtain v where v: "value_ref e = Some v"
    using Cons.prems(2) ke by (cases "transactions e") (auto simp: value_ref_def)
  obtain fw dks1 where ins: "insert_dirty dks k = (fw, dks1)" by fastforce
  define e' where "e' = (if p k e then entry_set None fw x e else e)"
  define dks' where "dks' = (if p k e then dks1 else dks)"
  define c' where "c' = (if p k e \<and> v \<noteq> None then c + 1 else c)"
  have "btm_inv ((pre @ [(k, e')]) @ suf)"
    using Cons.prems(1) ke btm_inv_replace [of pre k e suf e'] by simp
  from Cons.IH [OF this, of dks' c'] Cons.prems(2) obtain suf' dks'' where IH:
    "clear_loop p x suf dks' c' = Some (suf', dks'', c' + of_nat (n_live p suf))"
    "m\<lparr>changes := pre @ (k, e') # suf', dirty_keys := dks''\<rparr> =
      fold (\<lambda>k. om_set k None x) (selected p suf) (m\<lparr>changes := pre @ (k, e') # suf, dirty_keys := dks'\<rparr>)"
    by auto
  have "om_set k None x (m\<lparr>changes := pre @ (k, e) # suf, dirty_keys := dks\<rparr>) =
      m\<lparr>changes := pre @ (k, entry_set None fw x e) # suf, dirty_keys := dks1\<rparr>"
    using Cons.prems(1) ke by (simp add: om_set_def btm_get_mid ins btm_insert_replace)
  with IH v show ?case
    by (auto simp: ke ins e'_def dks'_def c'_def selected_def n_live_def algebra_simps)
qed (simp add: selected_def n_live_def)

lemma fold_delete_facts:
  fixes ks :: "'k::linorder list" and x and m :: "('k, 'w option) OverlayedMap"
  assumes "om_wf m"
  defines "m' \<equiv> fold (\<lambda>k. om_set k None x) ks m"
  shows "om_wf m' \<and> om_view m' = (\<lambda>k. if k \<in> set ks then Some None else om_view m k) \<and> om_saved m' = om_saved m"
  using assms(1) unfolding m'_def
proof (induction ks arbitrary: m)
  case (Cons k ks)
  from Cons.IH [OF om_set_facts(1) [OF Cons.prems]] show ?case
    by (auto simp: om_set_facts [OF Cons.prems] fun_eq_iff)
qed auto

lemma clear_where_facts:
  assumes "om_wf m"
  shows "\<exists>m'. clear_where p x m = Some (m', of_nat (n_live p (changes m))) \<and> om_wf m' \<and>
    om_view m' = (\<lambda>k. if k \<in> set (selected p (changes m)) then Some None else om_view m k) \<and>
    om_saved m' = om_saved m"
proof -
  have chs: "btm_inv ([] @ changes m)" "\<forall>(k, e) \<in> set (changes m). transactions e \<noteq> []"
    using assms by (auto simp: om_wf_def entries_ok_def btm_get_Some_iff)
  from clear_loop_fold [OF chs, of p x "dirty_keys m" 0 m] obtain chs' dks' where
    "clear_loop p x (changes m) (dirty_keys m) 0 = Some (chs', dks', of_nat (n_live p (changes m)))"
    "m\<lparr>changes := chs', dirty_keys := dks'\<rparr> = fold (\<lambda>k. om_set k None x) (selected p (changes m)) m"
    by auto
  then show ?thesis using fold_delete_facts [OF assms, of x "selected p (changes m)"]
    by (simp add: clear_where_def)
qed

lemma pop_values_eq:
  "\<forall>(k, e) \<in> set chs. transactions e \<noteq> [] \<Longrightarrow>
    \<exists>r. pop_values chs = Some r \<and> map fst r = map fst chs \<and> map_of r = (\<lambda>k. latest (versions chs k))"
proof (induction chs)
  case (Cons ke chs)
  obtain k e where ke: "ke = (k, e)" by (cases ke)
  from Cons obtain r where r: "pop_values chs = Some r" "map fst r = map fst chs"
    "map_of r = (\<lambda>k. latest (versions chs k))" by auto
  obtain t ts where "transactions e = t # ts" using Cons.prems ke by (auto simp: neq_Nil_conv)
  then show ?case using r by (auto simp: ke versions_def fun_eq_iff)
qed (auto simp: versions_def)

lemma drain_facts:
  assumes "om_wf m" "transaction_depth m = 0"
  shows "\<exists>r. drain_commited m = Some r \<and> btm_inv r \<and> btm_get r = om_view m"
proof -
  have "\<forall>(k, e) \<in> set (changes m). transactions e \<noteq> []" "btm_inv (changes m)"
    using assms(1) by (auto simp: om_wf_def entries_ok_def btm_get_Some_iff)
  with pop_values_eq [of "changes m"] assms(2) show ?thesis
    by (auto simp: drain_commited_def om_view_def btm_inv_def btm_get_def)
qed

section \<open>The interface of a transactional store\<close>

text \<open>
  What the state machine relies on when it nests transactions. \<open>floor\<close> is the number of outer
  transactions that cannot be closed; closing above it never fails.
\<close>

datatype ('k, 'v) tx_op = Write 'k 'v | Begin | Commit | Rollback

text \<open>The nesting depth never falls below the start, and the run ends where it began.\<close>

fun balanced :: "nat \<Rightarrow> ('k, 'v) tx_op list \<Rightarrow> bool" where
  "balanced d [] \<longleftrightarrow> d = 0"
| "balanced d (Write k v # ops) \<longleftrightarrow> balanced d ops"
| "balanced d (Begin # ops) \<longleftrightarrow> balanced (Suc d) ops"
| "balanced d (Commit # ops) \<longleftrightarrow> 0 < d \<and> balanced (d - 1) ops"
| "balanced d (Rollback # ops) \<longleftrightarrow> 0 < d \<and> balanced (d - 1) ops"

locale transactional =
  fixes wf :: "'s \<Rightarrow> bool"
    and view :: "'s \<Rightarrow> 'k \<rightharpoonup> 'v"
    and saved :: "'s \<Rightarrow> ('k \<rightharpoonup> 'v) list"
    and floor :: "'s \<Rightarrow> nat"
    and put :: "'k \<Rightarrow> 'v \<Rightarrow> 's \<Rightarrow> 's"
    and start :: "'s \<Rightarrow> 's"
    and commit :: "'s \<Rightarrow> 's option"
    and rollback :: "'s \<Rightarrow> 's option"
  assumes floor_le: "wf s \<Longrightarrow> floor s \<le> length (saved s)"
    and put_spec: "wf s \<Longrightarrow> wf (put k v s) \<and> view (put k v s) = (view s)(k \<mapsto> v) \<and>
      saved (put k v s) = saved s \<and> floor (put k v s) = floor s"
    and start_spec: "wf s \<Longrightarrow> wf (start s) \<and> view (start s) = view s \<and>
      saved (start s) = view s # saved s \<and> floor (start s) = floor s"
    and commit_spec: "wf s \<Longrightarrow> floor s < length (saved s) \<Longrightarrow> \<exists>s'. commit s = Some s' \<and> wf s' \<and>
      view s' = view s \<and> saved s' = tl (saved s) \<and> floor s' = floor s"
    and rollback_spec: "wf s \<Longrightarrow> floor s < length (saved s) \<Longrightarrow> \<exists>s'. rollback s = Some s' \<and> wf s' \<and>
      view s' = hd (saved s) \<and> saved s' = tl (saved s) \<and> floor s' = floor s"
begin

fun tx_step :: "('k, 'v) tx_op \<Rightarrow> 's \<Rightarrow> 's option" where
  "tx_step (Write k v) s = Some (put k v s)"
| "tx_step Begin s = Some (start s)"
| "tx_step Commit s = commit s"
| "tx_step Rollback s = rollback s"

fun tx_run :: "('k, 'v) tx_op list \<Rightarrow> 's \<Rightarrow> 's option" where
  "tx_run [] s = Some s"
| "tx_run (op # ops) s = (case tx_step op s of None \<Rightarrow> None | Some s' \<Rightarrow> tx_run ops s')"

lemma tx_run_balanced:
  assumes "wf s" "balanced d ops" "length (saved s) = d + n" "floor s \<le> n"
  shows "\<exists>s'. tx_run ops s = Some s' \<and> wf s' \<and> saved s' = drop d (saved s) \<and> floor s' = floor s"
  using assms
proof (induction d ops arbitrary: s rule: balanced.induct)
  case (2 d k v ops)
  from "2.IH" [of "put k v s"] "2.prems" put_spec [OF "2.prems"(1)] show ?case by simp
next
  case (3 d ops)
  from "3.IH" [of "start s"] "3.prems" start_spec [OF "3.prems"(1)] show ?case by simp
next
  case (4 d ops)
  with commit_spec [of s] obtain s1 where s1: "commit s = Some s1" "wf s1" "saved s1 = tl (saved s)"
    "floor s1 = floor s" by force
  with "4.IH" [of s1] "4.prems" show ?case by (cases d) (auto simp: drop_Suc)
next
  case (5 d ops)
  with rollback_spec [of s] obtain s1 where s1: "rollback s = Some s1" "wf s1" "saved s1 = tl (saved s)"
    "floor s1 = floor s" by force
  with "5.IH" [of s1] "5.prems" show ?case by (cases d) (auto simp: drop_Suc)
qed simp

lemma rollback_restores:
  assumes "wf s" "balanced 0 ops"
  shows "\<exists>s1 s2. tx_run ops (start s) = Some s1 \<and> rollback s1 = Some s2 \<and> wf s2 \<and>
    view s2 = view s \<and> saved s2 = saved s"
proof -
  note st = start_spec [OF assms(1)]
  from tx_run_balanced [OF _ assms(2), of "start s" "Suc (length (saved s))"] st floor_le [OF assms(1)]
  obtain s1 where s1: "tx_run ops (start s) = Some s1" "wf s1" "saved s1 = view s # saved s"
    "floor s1 = floor s" by auto
  with rollback_spec [of s1] floor_le [OF assms(1)] show ?thesis by auto
qed

end

text \<open>The overlay map provides it: closing a transaction is refused only at the floor.\<close>

definition om_floor :: "('k, 'v) OverlayedMap \<Rightarrow> nat" where
  "om_floor m = (if execution_mode m = Runtime then num_client_transactions m else 0)"

definition closed :: "('e, 'a) result option \<Rightarrow> 'a option" where
  "closed r = (case r of Some (Inr a) \<Rightarrow> Some a | _ \<Rightarrow> None)"

lemma closed_simps [simp]: "closed None = None" "closed (Some (Inl e)) = None" "closed (Some (Inr a)) = Some a"
  by (simp_all add: closed_def)

lemma can_close_iff: "can_close m \<longleftrightarrow> om_floor m < transaction_depth m"
  by (auto simp: can_close_def om_floor_def has_open_runtime_transactions_def transaction_depth_def)

interpretation om: transactional om_wf om_view om_saved om_floor "\<lambda>k v. om_set k v x"
  start_transaction "\<lambda>m. closed (commit_transaction m)" "\<lambda>m. closed (rollback_transaction m)"
  for x
proof
  fix s :: "('k::linorder, 'v) OverlayedMap" and k v
  assume wf: "om_wf s"
  show "om_floor s \<le> length (om_saved s)" using wf by (simp add: om_floor_def om_wf_def)
  show "om_wf (om_set k v x s) \<and> om_view (om_set k v x s) = (om_view s)(k \<mapsto> v) \<and>
      om_saved (om_set k v x s) = om_saved s \<and> om_floor (om_set k v x s) = om_floor s"
    using om_set_facts [OF wf] by (simp add: om_floor_def om_set_def Let_def split: prod.split)
  show "om_wf (start_transaction s) \<and> om_view (start_transaction s) = om_view s \<and>
      om_saved (start_transaction s) = om_view s # om_saved s \<and> om_floor (start_transaction s) = om_floor s"
    using start_transaction_facts [OF wf] by (simp add: om_floor_def start_transaction_def)
  assume "om_floor s < length (om_saved s)"
  then have cc: "can_close s" by (simp add: can_close_iff)
  from commit_facts [OF wf cc] obtain s1 where "commit_transaction s = Some (Inr s1)" "om_wf s1"
    "om_view s1 = om_view s" "om_saved s1 = tl (om_saved s)" "om_floor s1 = om_floor s"
    unfolding om_floor_def by metis
  then show "\<exists>s'. closed (commit_transaction s) = Some s' \<and> om_wf s' \<and> om_view s' = om_view s \<and>
      om_saved s' = tl (om_saved s) \<and> om_floor s' = om_floor s"
    by (intro exI [of _ s1]) (simp add: closed_def)
  from rollback_facts [OF wf cc] obtain s2 where "rollback_transaction s = Some (Inr s2)" "om_wf s2"
    "om_view s2 = hd (om_saved s)" "om_saved s2 = tl (om_saved s)" "om_floor s2 = om_floor s"
    unfolding om_floor_def by metis
  then show "\<exists>s'. closed (rollback_transaction s) = Some s' \<and> om_wf s' \<and> om_view s' = hd (om_saved s) \<and>
      om_saved s' = tl (om_saved s) \<and> om_floor s' = om_floor s"
    by (intro exI [of _ s2]) (simp add: closed_def)
qed

fun om_run :: "u32 option \<Rightarrow> ('k::linorder, 'v) tx_op list \<Rightarrow> ('k, 'v) OverlayedMap \<Rightarrow> ('k, 'v) OverlayedMap option" where
  "om_run x [] m = Some m"
| "om_run x (Write k v # ops) m = om_run x ops (om_set k v x m)"
| "om_run x (Begin # ops) m = om_run x ops (start_transaction m)"
| "om_run x (Commit # ops) m =
     (case commit_transaction m of Some (Inr m') \<Rightarrow> om_run x ops m' | _ \<Rightarrow> None)"
| "om_run x (Rollback # ops) m =
     (case rollback_transaction m of Some (Inr m') \<Rightarrow> om_run x ops m' | _ \<Rightarrow> None)"

lemma om_run_eq: "om_run x ops m = om.tx_run x ops m"
  by (induction x ops m rule: om_run.induct) (auto split: option.split sum.split)

section \<open>Reachable overlays\<close>

inductive om_reachable :: "('k::linorder, 'w option) OverlayedMap \<Rightarrow> bool" where
  new: "om_reachable om_default"
| from_storage: "btm_inv storage \<Longrightarrow> om_reachable (om_from storage)"
| child: "om_reachable (m :: ('k, 'w option) OverlayedMap) \<Longrightarrow> om_reachable (spawn_child m)"
| set: "om_reachable m \<Longrightarrow> om_reachable (om_set k v x m)"
| modify: "om_reachable m \<Longrightarrow> om_reachable (om_modify k init x upd m)"
| clear: "om_reachable m \<Longrightarrow> clear_where p x m = Some (m', n) \<Longrightarrow> om_reachable m'"
| start: "om_reachable m \<Longrightarrow> om_reachable (start_transaction m)"
| commit: "om_reachable m \<Longrightarrow> commit_transaction m = Some (Inr m') \<Longrightarrow> om_reachable m'"
| rollback: "om_reachable m \<Longrightarrow> rollback_transaction m = Some (Inr m') \<Longrightarrow> om_reachable m'"
| enter: "om_reachable m \<Longrightarrow> enter_runtime m = Inr m' \<Longrightarrow> om_reachable m'"
| exit: "om_reachable m \<Longrightarrow> exit_runtime m = Some (Inr m') \<Longrightarrow> om_reachable m'"

lemma n_dirty_replicate [simp]: "n_dirty (replicate n []) k = 0"
  by (induction n) auto

lemma om_wf_fresh:
  "om_wf om_default" "om_wf m \<Longrightarrow> om_wf (spawn_child m)" "btm_inv storage \<Longrightarrow> om_wf (om_from storage)"
proof -
  show "om_wf om_default" by (simp add: om_wf_def om_default_def entries_ok_def layers_ok_def versions_def)
  show "om_wf (spawn_child m)" if "om_wf m"
    using that by (auto simp: om_wf_def spawn_child_def entries_ok_def layers_ok_def versions_def transaction_depth_def)
  assume "btm_inv storage"
  have from_eq: "changes (om_from storage) =
      btm_map (\<lambda>_ v. \<lparr>transactions = [\<lparr>iv_value = Some v, iv_extrinsics = []\<rparr>]\<rparr>) storage"
    by (simp add: om_from_def btm_map_def)
  have "entries_ok (changes (om_from storage))" "layers_ok (changes (om_from storage)) []"
    using \<open>btm_inv storage\<close> unfolding from_eq
    by (auto simp: entries_ok_def layers_ok_def versions_def btm_simps split: option.split)
  then show "om_wf (om_from storage)" by (simp add: om_wf_def om_from_def)
qed

lemma om_reachable_wf: "om_reachable m \<Longrightarrow> om_wf m"
proof (induction rule: om_reachable.induct)
  case (clear m p x m' n)
  with clear_where_facts [of m p x] show ?case by auto
next
  case (commit m m')
  then have "can_close m" by (metis close_refused commit_transaction_def option.inject sum.distinct(1))
  from commit_facts [OF commit.IH this] commit.hyps show ?case by auto
next
  case (rollback m m')
  then have "can_close m" by (metis close_refused rollback_transaction_def option.inject sum.distinct(1))
  from rollback_facts [OF rollback.IH this] rollback.hyps show ?case by auto
next
  case (enter m m')
  then show ?case by (auto simp: enter_runtime_def om_wf_def transaction_depth_def split: if_splits)
next
  case (exit m m')
  then have "execution_mode m = Runtime"
    by (cases "execution_mode m") (auto simp: exit_runtime_def)
  from exit_runtime_facts [OF exit.IH this] exit.hyps show ?case by auto
qed (auto simp: om_wf_fresh om_set_facts om_modify_facts start_transaction_facts)

section \<open>Properties\<close>

text \<open>
  C3. Transactions nest: whatever balanced sequence of writes, inner transactions, commits and
  rollbacks runs inside a transaction, it succeeds, and rolling the transaction back restores
  the value of every key and the values saved for every outer transaction.
\<close>

theorem changeset_rollback_restores:
  assumes "om_wf m" "balanced 0 ops"
  shows "\<exists>m1 m2. om_run x ops (start_transaction m) = Some m1 \<and> rollback_transaction m1 = Some (Inr m2) \<and>
    om_wf m2 \<and> om_view m2 = om_view m \<and> om_saved m2 = om_saved m"
proof -
  from om.rollback_restores [OF assms, of x] obtain m1 m2 where
    "om.tx_run x ops (start_transaction m) = Some m1" "closed (rollback_transaction m1) = Some m2"
    "om_wf m2" "om_view m2 = om_view m" "om_saved m2 = om_saved m" by blast
  then show ?thesis by (auto simp: om_run_eq closed_def split: option.splits sum.splits)
qed

theorem changeset_rollback_restores_witness:
  "\<exists>m1 m2. om_run None [Write 7 ''b'', Begin, Write 8 ''c'', Commit]
       (start_transaction (om_set (7::nat) ''a'' None om_default)) = Some m1 \<and>
     rollback_transaction m1 = Some (Inr m2) \<and> om_wf m2 \<and>
     om_view m2 = om_view (om_set (7::nat) ''a'' None om_default) \<and>
     om_saved m2 = om_saved (om_set (7::nat) ''a'' None om_default)"
  by (rule changeset_rollback_restores) (simp_all add: om_set_facts om_wf_fresh)

text \<open>
  C25. Committing on every branch: with a transaction that may be closed it never panics, keeps
  what every key reads and forgets the innermost saved values; otherwise (none open, or only
  transactions of the client while the runtime executes) it returns \<open>NoOpenTransaction\<close>.
\<close>

theorem changeset_commit:
  assumes "om_wf m"
  shows "if om_floor m < transaction_depth m
     then \<exists>m'. commit_transaction m = Some (Inr m') \<and> om_wf m' \<and> om_view m' = om_view m \<and>
            om_saved m' = tl (om_saved m)
     else commit_transaction m = Some (Inl NoOpenTransaction)"
  using commit_facts [OF assms] close_refused [of m False]
  by (auto simp: can_close_iff commit_transaction_def)

theorem changeset_commit_witness:
  "\<exists>m'. commit_transaction (om_set (7::nat) ''a'' None (start_transaction om_default)) = Some (Inr m') \<and>
     om_wf m' \<and> om_view m' = om_view (om_set (7::nat) ''a'' None (start_transaction om_default)) \<and>
     om_saved m' = tl (om_saved (om_set (7::nat) ''a'' None (start_transaction om_default)))"
proof -
  let ?m = "om_set (7::nat) ''a'' None (start_transaction om_default)"
  have "om_wf ?m" by (simp add: om_set_facts start_transaction_facts om_wf_fresh)
  moreover have "om_floor ?m < transaction_depth ?m"
    by (simp add: om_floor_def transaction_depth_def om_set_def start_transaction_def om_default_def)
  ultimately show ?thesis using changeset_commit [of ?m] by simp
qed

text \<open>
  Leaving the runtime rolls back (and does not commit, as its documentation says) every
  transaction the runtime left open: the values are those saved when the first of them was
  started, and exactly the transactions of the client are still open.
\<close>

lemma changeset_exit_runtime:
  assumes "om_wf m" "execution_mode m = Runtime"
  shows "\<exists>m'. exit_runtime m = Some (Inr m') \<and> om_wf m' \<and> execution_mode m' = Client \<and>
    transaction_depth m' = num_client_transactions m \<and>
    om_view m' # om_saved m' = drop (transaction_depth m - num_client_transactions m) (om_view m # om_saved m)"
  using assms by (rule exit_runtime_facts)

text \<open>
  C12. In every overlay the interface can build, every stored key has a version, closing a
  transaction never fails one of its internal expectations, and draining it at depth 0
  yields exactly what each key reads, in key order.
\<close>

theorem changeset_never_panics:
  assumes "om_reachable m"
  shows "close_transaction rb m \<noteq> None \<and> exit_runtime m \<noteq> None \<and> clear_where p x m \<noteq> None \<and>
    (\<forall>k e. om_get m k = Some e \<longrightarrow> value_ref e \<noteq> None) \<and>
    (transaction_depth m = 0 \<longrightarrow> (\<exists>r. drain_commited m = Some r \<and> btm_inv r \<and> btm_get r = om_view m))"
proof -
  note wf = om_reachable_wf [OF assms]
  have "close_transaction rb m \<noteq> None"
    using rollback_facts [OF wf] commit_facts [OF wf] close_refused [of m rb]
    by (cases rb; cases "can_close m") (auto simp: rollback_transaction_def commit_transaction_def)
  moreover have "exit_runtime m \<noteq> None"
    using exit_runtime_facts [OF wf] by (cases "execution_mode m") (auto simp: exit_runtime_def)
  moreover have "\<forall>k e. om_get m k = Some e \<longrightarrow> value_ref e \<noteq> None"
    using wf by (auto simp: om_wf_def entries_ok_def om_get_def value_ref_def split: list.splits)
  ultimately show ?thesis
    using clear_where_facts [OF wf, of p x] drain_facts [OF wf] by auto
qed

theorem changeset_never_panics_witness:
  "let m = om_set (7::nat) (Some ''a'') (None :: u32 option) (start_transaction om_default) in
     close_transaction False m \<noteq> None \<and> exit_runtime m \<noteq> None \<and>
     clear_where (\<lambda>_ _. True) None m \<noteq> None"
proof -
  have "om_reachable (om_set (7::nat) (Some ''a'') (None :: u32 option) (start_transaction om_default))"
    by (rule om_reachable.set, rule om_reachable.start, rule om_reachable.new)
  from changeset_never_panics [OF this, of False "\<lambda>_ _. True" None] show ?thesis
    unfolding Let_def by blast
qed

text \<open>
  Clearing by a predicate deletes exactly the selected keys (they read as deleted, not as
  unknown), returns how many of them had a value, and can be rolled back.
\<close>

lemma changeset_clear_where:
  assumes "om_wf m"
  shows "\<exists>m'. clear_where p x m = Some (m', of_nat (n_live p (changes m))) \<and> om_wf m' \<and>
    (\<forall>k. om_view m' k = (case om_get m k of
        None \<Rightarrow> None | Some e \<Rightarrow> if p k e then Some None else om_view m k)) \<and>
    om_saved m' = om_saved m"
proof -
  have sel: "k \<in> set (selected p (changes m)) \<longleftrightarrow> (\<exists>e. om_get m k = Some e \<and> p k e)" for k
    using assms by (force simp: selected_def om_get_def om_wf_def entries_ok_def btm_get_Some_iff)
  have "om_get m k = None \<Longrightarrow> om_view m k = None" for k
    by (simp add: om_get_def om_view_def versions_def)
  then have view: "(if k \<in> set (selected p (changes m)) then Some None else om_view m k) =
      (case om_get m k of None \<Rightarrow> None | Some e \<Rightarrow> if p k e then Some None else om_view m k)" for k
    by (simp add: sel split: option.split)
  from clear_where_facts [OF assms, of p x] show ?thesis
    unfolding fun_eq_iff view .
qed

text \<open>
  C38. A repeated \<open>modify\<close> of a key in the same transaction (or with none open) changes its value
  but records no extrinsic index, although \<open>extrinsics\<close> is documented as the indices of the
  extrinsics that modified the value.
\<close>

theorem modify_drops_extrinsic:
  assumes "om_get m k = Some e" "transactions e \<noteq> []" "\<not> fst (insert_dirty (dirty_keys m) k)"
  shows "\<exists>e'. om_get (om_modify k init x upd m) k = Some e' \<and> extrinsics e' = extrinsics e \<and>
    value_ref e' = map_option upd (value_ref e)"
proof -
  obtain dks' where ins: "insert_dirty (dirty_keys m) k = (False, dks')"
    using assms(3) by (cases "insert_dirty (dirty_keys m) k") auto
  obtain t ts where "transactions e = t # ts" using assms(2) by (auto simp: neq_Nil_conv)
  then show ?thesis using assms(1) ins
    by (auto simp: om_get_def om_modify_def btm_simps extrinsics_def value_ref_def)
qed

theorem modify_drops_extrinsic_witness:
  "\<exists>e'. om_get (om_modify (7::nat) ''i'' (Some 2) (\<lambda>_. Some ''c'')
        (om_modify 7 ''i'' (Some 1) (\<lambda>_. Some ''b'') om_default)) 7 = Some e' \<and>
     extrinsics e' = {1} \<and> value_ref e' = Some (Some ''c'')"
  using modify_drops_extrinsic [of "om_modify (7::nat) ''i'' (Some 1) (\<lambda>_. Some ''b'') om_default" 7
      "\<lparr>transactions = [\<lparr>iv_value = Some ''b'', iv_extrinsics = [1]\<rparr>]\<rparr>" "''i''" "Some 2" "\<lambda>_. Some ''c''"]
  by (simp add: om_modify_def om_default_def om_get_def entry_default_def entry_set_def ext_insert_def
      extrinsics_def value_ref_def)

end
