(* ===== verification/Allocator.thy ===== *)
theory Allocator
  imports Prelude
begin

unbundle bit_operations_syntax

text \<open>
  The freeing-bump heap allocator of \<^verbatim>\<open>client/allocator/src/freeing_bump.rs\<close>, which serves the
  allocations of a wasm guest from its linear memory. Unsigned integers are natural numbers;
  the operations that can leave the range of \<^verbatim>\<open>u32\<close> have the wrap-around of a release build
  written out (\<open>u32_wrap\<close>), and the bytes of the memory are 8-bit words. The memory is the
  trait \<^verbatim>\<open>Memory\<close> of \<^verbatim>\<open>client/allocator/src/lib.rs\<close>: a byte array of whole pages that may grow;
  whether the wasm engine grants more pages is the parameter \<open>grants\<close>. An operation returns its
  result together with the allocator and the memory it leaves, on errors too.
\<close>

section \<open>Constants and data\<close>

definition PAGE_SIZE :: nat where "PAGE_SIZE = 65536"

definition MAX_WASM_PAGES :: nat where "MAX_WASM_PAGES = 4 * 1024 * 1024 * 1024 div PAGE_SIZE"

definition ALIGNMENT :: nat where "ALIGNMENT = 8"

definition HEADER_SIZE :: nat where "HEADER_SIZE = 8"

definition N_ORDERS :: nat where "N_ORDERS = 23"

definition MIN_POSSIBLE_ALLOCATION :: nat where "MIN_POSSIBLE_ALLOCATION = 8"

definition MAX_POSSIBLE_ALLOCATION :: nat where "MAX_POSSIBLE_ALLOCATION = 33554432"

definition NIL_MARKER :: nat where "NIL_MARKER = 2 ^ 32 - 1"

definition u32_wrap :: "nat \<Rightarrow> nat" where "u32_wrap n = n mod 2 ^ 32"

datatype alloc_error =
  RequestedAllocationTooLarge
| AllocatorOutOfSpace
| MemoryShrinked
| Other string

record memory =
  mem_bytes :: "nat \<Rightarrow> u8"
  mem_pages :: nat
  mem_max_pages :: "nat option"

datatype Link = Link_Nil | Ptr nat

datatype Header = Free Link | Occupied nat

record FreeLists =
  heads :: "Link list"

record AllocationStats =
  bytes_allocated :: nat
  bytes_allocated_peak :: nat
  bytes_allocated_sum :: nat
  address_space_used :: nat

record FreeingBumpHeapAllocator =
  original_heap_base :: nat
  bumper :: nat
  free_lists :: FreeLists
  poisoned :: bool
  last_observed_memory_size :: nat
  stats :: AllocationStats

section \<open>Orders\<close>

text \<open>\<open>u32::next_power_of_two\<close> and \<open>u32::trailing_zeros\<close> of the standard library.\<close>

function pow2_from :: "nat \<Rightarrow> nat \<Rightarrow> nat" where
  "pow2_from p n = (if p < n \<and> 0 < p then pow2_from (2 * p) n else p)"
  by pat_completeness auto
termination
  by (relation "measure (\<lambda>(p, n). n - p)") auto

declare pow2_from.simps [simp del]

definition next_power_of_two :: "nat \<Rightarrow> nat" where
  "next_power_of_two n = pow2_from 1 n"

function trailing_zeros :: "nat \<Rightarrow> nat" where
  "trailing_zeros n = (if n = 0 then 32 else if odd n then 0 else Suc (trailing_zeros (n div 2)))"
  by pat_completeness auto
termination
  by (relation "measure id") auto

declare trailing_zeros.simps [simp del]

definition order_from_raw :: "nat \<Rightarrow> (alloc_error, nat) result" where
  "order_from_raw order = (if order < N_ORDERS then Inr order else Inl (Other ''invalid order''))"

definition order_from_size :: "nat \<Rightarrow> (alloc_error, nat) result" where
  "order_from_size sz =
     (if sz > MAX_POSSIBLE_ALLOCATION then Inl RequestedAllocationTooLarge
      else
        (let clamped_size = (if sz < MIN_POSSIBLE_ALLOCATION then MIN_POSSIBLE_ALLOCATION else sz);
             power_of_two_size = next_power_of_two clamped_size
         in Inr (trailing_zeros power_of_two_size - trailing_zeros MIN_POSSIBLE_ALLOCATION)))"

definition order_size :: "nat \<Rightarrow> nat" where
  "order_size order = push_bit order MIN_POSSIBLE_ALLOCATION"

section \<open>Links and headers\<close>

definition link_from_raw :: "nat \<Rightarrow> Link" where
  "link_from_raw raw = (if raw \<noteq> NIL_MARKER then Ptr raw else Link_Nil)"

fun link_into_raw :: "Link \<Rightarrow> nat" where
  "link_into_raw Link_Nil = NIL_MARKER"
| "link_into_raw (Ptr ptr) = ptr"

definition mem_size :: "memory \<Rightarrow> nat" where
  "mem_size m = mem_pages m * PAGE_SIZE"

definition heap_range :: "nat \<Rightarrow> nat \<Rightarrow> nat \<Rightarrow> (nat \<times> nat) option" where
  "heap_range offset len heap_len =
     (if offset + len < 2 ^ 32 \<and> offset + len \<le> heap_len then Some (offset, offset + len) else None)"

fun from_le_bytes :: "u8 list \<Rightarrow> nat" where
  "from_le_bytes [] = 0"
| "from_le_bytes (b # bs) = unat b + 256 * from_le_bytes bs"

fun to_le_bytes :: "nat \<Rightarrow> nat \<Rightarrow> u8 list" where
  "to_le_bytes 0 v = []"
| "to_le_bytes (Suc n) v = of_nat (v mod 256) # to_le_bytes n (v div 256)"

definition read_le_u64 :: "memory \<Rightarrow> nat \<Rightarrow> (alloc_error, nat) result" where
  "read_le_u64 m ptr =
     (case heap_range ptr 8 (mem_size m) of
        None \<Rightarrow> Inl (Other ''read out of heap bounds'')
      | Some (s, e) \<Rightarrow> Inr (from_le_bytes (map (mem_bytes m) [s..<e])))"

definition write_le_u64 :: "memory \<Rightarrow> nat \<Rightarrow> nat \<Rightarrow> (alloc_error, memory) result" where
  "write_le_u64 m ptr val =
     (case heap_range ptr 8 (mem_size m) of
        None \<Rightarrow> Inl (Other ''write out of heap bounds'')
      | Some (s, e) \<Rightarrow>
          Inr (m\<lparr>mem_bytes :=
            (\<lambda>i. if s \<le> i \<and> i < e then to_le_bytes 8 val ! (i - s) else mem_bytes m i)\<rparr>))"

definition header_read_from :: "memory \<Rightarrow> nat \<Rightarrow> (alloc_error, Header) result" where
  "header_read_from m header_ptr =
     res_bind (read_le_u64 m header_ptr) (\<lambda>raw_header.
       let occupied = (raw_header AND 0x100000000 \<noteq> 0);
           header_data = u32_wrap raw_header
       in if occupied then res_bind (order_from_raw header_data) (\<lambda>order. Inr (Occupied order))
          else Inr (Free (link_from_raw header_data)))"

definition header_write_into :: "Header \<Rightarrow> memory \<Rightarrow> nat \<Rightarrow> (alloc_error, memory) result" where
  "header_write_into h m header_ptr =
     (let (header_data, occupied_mask) =
            (case h of Occupied order \<Rightarrow> (order, 0x100000000) | Free link \<Rightarrow> (link_into_raw link, 0));
          raw_header = header_data OR occupied_mask
      in write_le_u64 m header_ptr raw_header)"

fun into_occupied :: "Header \<Rightarrow> nat option" where
  "into_occupied (Occupied order) = Some order"
| "into_occupied (Free _) = None"

fun into_free :: "Header \<Rightarrow> Link option" where
  "into_free (Free link) = Some link"
| "into_free (Occupied _) = None"


definition free_lists_replace :: "FreeLists \<Rightarrow> nat \<Rightarrow> Link \<Rightarrow> Link \<times> FreeLists" where
  "free_lists_replace fl order new = (heads fl ! order, fl\<lparr>heads := (heads fl)[order := new]\<rparr>)"

section \<open>The allocator\<close>

definition pages_from_size :: "nat \<Rightarrow> nat option" where
  "pages_from_size sz =
     (let pages = (sz + PAGE_SIZE - 1) div PAGE_SIZE in if pages < 2 ^ 32 then Some pages else None)"

definition mem_grow :: "(memory \<Rightarrow> nat \<Rightarrow> bool) \<Rightarrow> memory \<Rightarrow> nat \<Rightarrow> memory option" where
  "mem_grow grants m additional =
     (if grants m additional
      then Some (m\<lparr>mem_pages := mem_pages m + additional,
                   mem_bytes := (\<lambda>i. if i < mem_size m then mem_bytes m i else 0)\<rparr>)
      else None)"


text \<open>Returns the bumper from before the increase and the increased bumper.\<close>

definition bump ::
  "(memory \<Rightarrow> nat \<Rightarrow> bool) \<Rightarrow> nat \<Rightarrow> nat \<Rightarrow> memory \<Rightarrow> (alloc_error, nat \<times> nat) result \<times> memory" where
  "bump grants bmp sz m =
     (let required_size = bmp + sz in
      if required_size > mem_size m then
        (case pages_from_size required_size of
           None \<Rightarrow> (Inl AllocatorOutOfSpace, m)
         | Some required_pages \<Rightarrow>
             (let current_pages = mem_pages m;
                  max_pages = (case mem_max_pages m of Some x \<Rightarrow> x | None \<Rightarrow> MAX_WASM_PAGES)
              in if current_pages \<ge> max_pages then (Inl AllocatorOutOfSpace, m)
                 else if required_pages > max_pages then (Inl AllocatorOutOfSpace, m)
                 else
                   (let next_pages = max (min (u32_wrap (current_pages * 2)) max_pages) required_pages
                    in case mem_grow grants m (next_pages - current_pages) of
                         None \<Rightarrow> (Inl AllocatorOutOfSpace, m)
                       | Some m' \<Rightarrow> (Inr (bmp, u32_wrap (bmp + sz)), m'))))
      else (Inr (bmp, u32_wrap (bmp + sz)), m))"

definition observe_memory_size ::
  "FreeingBumpHeapAllocator \<Rightarrow> memory \<Rightarrow> (alloc_error, FreeingBumpHeapAllocator) result" where
  "observe_memory_size a m =
     (if mem_size m < last_observed_memory_size a then Inl MemoryShrinked
      else Inr (a\<lparr>last_observed_memory_size := mem_size m\<rparr>))"

text \<open>
  An early return drops the armed \<^verbatim>\<open>PoisonBomb\<close>, which raises the flag; a normal return disarms it.
\<close>

definition bomb_drop ::
  "alloc_error \<Rightarrow> FreeingBumpHeapAllocator \<Rightarrow> memory
     \<Rightarrow> (alloc_error, 'r) result \<times> FreeingBumpHeapAllocator \<times> memory" where
  "bomb_drop e a m = (Inl e, a\<lparr>poisoned := True\<rparr>, m)"

definition count_allocation :: "nat \<Rightarrow> FreeingBumpHeapAllocator \<Rightarrow> FreeingBumpHeapAllocator" where
  "count_allocation order a =
     (let st = stats a;
          n = order_size order + HEADER_SIZE;
          allocated = u32_wrap (bytes_allocated st + n)
      in a\<lparr>stats := \<lparr>bytes_allocated = allocated,
                     bytes_allocated_peak = max (bytes_allocated_peak st) allocated,
                     bytes_allocated_sum = (bytes_allocated_sum st + n) mod 2 ^ 128,
                     address_space_used = u32_wrap (bumper a + 2 ^ 32 - original_heap_base a)\<rparr>\<rparr>)"

text \<open>The header a request of this order is served from: the free list's first, or a new one.\<close>

definition take_header ::
  "(memory \<Rightarrow> nat \<Rightarrow> bool) \<Rightarrow> nat \<Rightarrow> FreeingBumpHeapAllocator \<Rightarrow> memory
     \<Rightarrow> (alloc_error, nat) result \<times> FreeingBumpHeapAllocator \<times> memory" where
  "take_header grants order a m =
     (case heads (free_lists a) ! order of
        Ptr header_ptr \<Rightarrow>
          if header_ptr + order_size order + HEADER_SIZE > mem_size m
          then (Inl (Other ''Invalid header pointer detected''), a, m)
          else
            (case header_read_from m header_ptr of
               Inl e \<Rightarrow> (Inl e, a, m)
             | Inr h \<Rightarrow>
                 (case into_free h of
                    None \<Rightarrow> (Inl (Other ''free list points to a occupied header''), a, m)
                  | Some next_free \<Rightarrow>
                      (Inr header_ptr,
                       a\<lparr>free_lists := (free_lists a)\<lparr>heads := (heads (free_lists a))[order := next_free]\<rparr>\<rparr>,
                       m)))
      | Link_Nil \<Rightarrow>
          (case bump grants (bumper a) (order_size order + HEADER_SIZE) m of
             (Inl e, m') \<Rightarrow> (Inl e, a, m')
           | (Inr (res, bmp), m') \<Rightarrow> (Inr res, a\<lparr>bumper := bmp\<rparr>, m')))"

definition allocate ::
  "(memory \<Rightarrow> nat \<Rightarrow> bool) \<Rightarrow> FreeingBumpHeapAllocator \<Rightarrow> memory \<Rightarrow> nat
     \<Rightarrow> (alloc_error, nat) result \<times> FreeingBumpHeapAllocator \<times> memory" where
  "allocate grants a m sz =
     (if poisoned a then (Inl (Other ''the allocator has been poisoned''), a, m)
      else
        (case observe_memory_size a m of
           Inl e \<Rightarrow> bomb_drop e a m
         | Inr a1 \<Rightarrow>
             (case order_from_size sz of
                Inl e \<Rightarrow> bomb_drop e a1 m
              | Inr order \<Rightarrow>
                  (case take_header grants order a1 m of
                     (Inl e, a2, m2) \<Rightarrow> bomb_drop e a2 m2
                   | (Inr header_ptr, a2, m2) \<Rightarrow>
                       (case header_write_into (Occupied order) m2 header_ptr of
                          Inl e \<Rightarrow> bomb_drop e a2 m2
                        | Inr m3 \<Rightarrow>
                            (Inr (u32_wrap (header_ptr + HEADER_SIZE)), count_allocation order a2, m3))))))"

definition deallocate ::
  "FreeingBumpHeapAllocator \<Rightarrow> memory \<Rightarrow> nat
     \<Rightarrow> (alloc_error, unit) result \<times> FreeingBumpHeapAllocator \<times> memory" where
  "deallocate a m ptr =
     (if poisoned a then (Inl (Other ''the allocator has been poisoned''), a, m)
      else
        (case observe_memory_size a m of
           Inl e \<Rightarrow> bomb_drop e a m
         | Inr a1 \<Rightarrow>
             if ptr < HEADER_SIZE then bomb_drop (Other ''Invalid pointer for deallocation'') a1 m
             else
               (let header_ptr = ptr - HEADER_SIZE in
                case header_read_from m header_ptr of
                  Inl e \<Rightarrow> bomb_drop e a1 m
                | Inr h \<Rightarrow>
                    (case into_occupied h of
                       None \<Rightarrow> bomb_drop (Other ''the allocation points to an empty header'') a1 m
                     | Some order \<Rightarrow>
                         (let (prev_head, fl) = free_lists_replace (free_lists a1) order (Ptr header_ptr);
                              a2 = a1\<lparr>free_lists := fl\<rparr>
                          in case header_write_into (Free prev_head) m header_ptr of
                               Inl e \<Rightarrow> bomb_drop e a2 m
                             | Inr m1 \<Rightarrow>
                                 (let n = order_size order + HEADER_SIZE in
                                  if bytes_allocated (stats a2) < n
                                  then bomb_drop (Other ''underflow of the currently allocated bytes count'') a2 m1
                                  else (Inr (), a2\<lparr>stats := (stats a2)\<lparr>bytes_allocated := bytes_allocated (stats a2) - n\<rparr>\<rparr>, m1)))))))"

section \<open>Orders: sizes are the least sufficient powers of two\<close>

named_theorems alloc_consts \<open>the numeric constants of the allocator\<close>

lemmas [alloc_consts] =
  PAGE_SIZE_def ALIGNMENT_def HEADER_SIZE_def N_ORDERS_def MIN_POSSIBLE_ALLOCATION_def
  MAX_POSSIBLE_ALLOCATION_def NIL_MARKER_def

lemma order_size_eq: "order_size o1 = 8 * 2 ^ o1"
  by (simp add: order_size_def MIN_POSSIBLE_ALLOCATION_def push_bit_eq_mult)


lemma order_size_dvd: "8 dvd order_size o1"
  by (simp add: order_size_eq)

lemma pow2_from_spec:
  "p = 2 ^ j \<Longrightarrow> \<exists>k. pow2_from p n = 2 ^ k \<and> n \<le> 2 ^ k \<and> j \<le> k \<and> (k = j \<or> 2 ^ k < 2 * n)"
proof (induction p n arbitrary: j rule: pow2_from.induct)
  case (1 p n)
  show ?case
  proof (cases "p < n")
    case True
    from "1.IH" [of "Suc j"] True "1.prems" obtain k where
      k: "pow2_from (2 * p) n = 2 ^ k" "n \<le> 2 ^ k" "Suc j \<le> k" "k = Suc j \<or> 2 ^ k < 2 * n"
      by auto
    have "pow2_from p n = 2 ^ k" using True "1.prems" k(1) by (simp add: pow2_from.simps [of "2 ^ j" n])
    moreover have "2 ^ k < 2 * n" using k(4) True "1.prems" by auto
    ultimately show ?thesis using k(2,3) by auto
  next
    case False
    then show ?thesis using "1.prems" by (auto simp: pow2_from.simps [of "2 ^ j" n])
  qed
qed

lemma trailing_zeros_pow2: "trailing_zeros (2 ^ k) = k"
  by (induction k) (simp_all add: trailing_zeros.simps)

lemma order_from_size_Inr:
  assumes "order_from_size sz = Inr o1"
  shows "o1 < N_ORDERS" "sz \<le> order_size o1" "o1 = 0 \<or> order_size o1 < 2 * sz"
proof -
  define c where "c = max sz 8"
  have max: "sz \<le> 33554432" using assms by (auto simp: order_from_size_def alloc_consts split: if_splits)
  then have c: "8 \<le> c" "c \<le> 2 ^ 25" by (auto simp: c_def)
  from pow2_from_spec [of 1 0 c] obtain k where
    k: "next_power_of_two c = 2 ^ k" "c \<le> 2 ^ k" "k = 0 \<or> 2 ^ k < 2 * c"
    by (auto simp: next_power_of_two_def)
  have k3: "3 \<le> k"
  proof (rule ccontr)
    assume "\<not> 3 \<le> k"
    then have "(2::nat) ^ k \<le> 2 ^ 2" by (intro power_increasing) auto
    with k(2) c(1) show False by simp
  qed
  have "(2::nat) ^ k < 2 * 2 ^ 25" using k(3) c k3 by auto
  then have "(2::nat) ^ k < 2 ^ 26" by simp
  then have k26: "k < 26" by (rule power_less_imp_less_exp [rotated]) simp
  have tz8: "trailing_zeros MIN_POSSIBLE_ALLOCATION = 3"
    using trailing_zeros_pow2 [of 3] by (simp add: alloc_consts)
  have "(if sz < MIN_POSSIBLE_ALLOCATION then MIN_POSSIBLE_ALLOCATION else sz) = c"
    by (simp add: c_def alloc_consts)
  then have o1: "o1 = k - 3"
    using assms max by (simp add: order_from_size_def MAX_POSSIBLE_ALLOCATION_def k(1) trailing_zeros_pow2 tz8)
  have size: "order_size o1 = 2 ^ k"
    using k3 o1 power_add [of "2::nat" 3 "k - 3"] by (simp add: order_size_eq)
  show "o1 < N_ORDERS" using o1 k26 by (simp add: N_ORDERS_def)
  show "sz \<le> order_size o1" using size k(2) by (simp add: c_def)
  show "o1 = 0 \<or> order_size o1 < 2 * sz"
  proof (cases "sz \<le> 8")
    case True
    then have "(2::nat) ^ k < 2 ^ 4" using k(3) k3 by (auto simp: c_def)
    then have "k < 4" by (rule power_less_imp_less_exp [rotated]) simp
    then show ?thesis using o1 by simp
  next
    case False
    then show ?thesis using size k(3) k3 by (auto simp: c_def)
  qed
qed

lemma order_from_size_Inl_iff:
  "order_from_size sz = Inl e \<longleftrightarrow> MAX_POSSIBLE_ALLOCATION < sz \<and> e = RequestedAllocationTooLarge"
  by (auto simp: order_from_size_def Let_def)

section \<open>Reading and writing the memory\<close>

lemma length_to_le_bytes [simp]: "length (to_le_bytes n v) = n"
  by (induction n arbitrary: v) auto















section \<open>The heap invariant\<close>

text \<open>
  From the heap base to the bumper the memory is divided into blocks (a header and a power of
  two of bytes, listed by address with their order). A block is live, and then its header is
  occupied and carries its order, or it is linked in the free list of its order.
\<close>

type_synonym block = "nat \<times> nat"

fun blocks_chain :: "nat \<Rightarrow> block list \<Rightarrow> nat \<Rightarrow> bool" where
  "blocks_chain b [] e \<longleftrightarrow> b = e"
| "blocks_chain b ((p, o1) # bs) e \<longleftrightarrow>
     p = b \<and> o1 < N_ORDERS \<and> blocks_chain (p + HEADER_SIZE + order_size o1) bs e"



definition blocks_bytes :: "block list \<Rightarrow> nat" where
  "blocks_bytes bs = (\<Sum>(p, o1) \<leftarrow> bs. order_size o1 + HEADER_SIZE)"





subsection \<open>Blocks\<close>








lemma chain_end_aligned: "blocks_chain b bs e \<Longrightarrow> 8 dvd b \<Longrightarrow> 8 dvd e"
proof (induction b bs e rule: blocks_chain.induct)
  case (2 b p' o' bs e)
  have "8 dvd p' + HEADER_SIZE + order_size o'"
    using 2 order_size_dvd [of o'] by (simp add: HEADER_SIZE_def)
  with 2 show ?case by auto
qed simp


lemma blocks_bytes_simps [simp]:
  "blocks_bytes [] = 0" "blocks_bytes ((p, o1) # bs) = order_size o1 + HEADER_SIZE + blocks_bytes bs"
  "blocks_bytes (bs @ cs) = blocks_bytes bs + blocks_bytes cs"
  by (simp_all add: blocks_bytes_def)



subsection \<open>Free lists\<close>



subsection \<open>Serving a request\<close>











subsection \<open>Every operation keeps the invariant\<close>






lemma count_allocation_simps [simp]:
  "original_heap_base (count_allocation o1 a) = original_heap_base a" "bumper (count_allocation o1 a) = bumper a"
  "free_lists (count_allocation o1 a) = free_lists a" "poisoned (count_allocation o1 a) = poisoned a"
  "last_observed_memory_size (count_allocation o1 a) = last_observed_memory_size a"
  "bytes_allocated (stats (count_allocation o1 a)) = u32_wrap (bytes_allocated (stats a) + (order_size o1 + HEADER_SIZE))"
  by (simp_all add: count_allocation_def Let_def)











section \<open>Histories of a heap\<close>











section \<open>A concrete heap\<close>






section \<open>What a client of the heap can rely on\<close>









text \<open>
  The size class of a request is the least power of two from eight up that holds it; only
  sizes above 32 MiB have none.
\<close>

lemma order_from_size_least:
  "case order_from_size sz of
     Inl e \<Rightarrow> e = RequestedAllocationTooLarge \<and> MAX_POSSIBLE_ALLOCATION < sz
   | Inr o1 \<Rightarrow> o1 < N_ORDERS \<and> sz \<le> order_size o1 \<and> (\<forall>o2. sz \<le> order_size o2 \<longrightarrow> o1 \<le> o2)"
proof (cases "order_from_size sz")
  case (Inl e)
  then have "MAX_POSSIBLE_ALLOCATION < sz \<and> e = RequestedAllocationTooLarge" using order_from_size_Inl_iff by blast
  then show ?thesis by (simp add: Inl)
next
  case (Inr o1)
  note f = order_from_size_Inr [OF Inr]
  have "o1 \<le> o2" if "sz \<le> order_size o2" for o2
  proof (cases o1)
    case (Suc k)
    then have "8 * 2 ^ k < sz" "sz \<le> 8 * 2 ^ o2" using f(3) that by (auto simp: order_size_eq)
    then have "(2::nat) ^ k < 2 ^ o2" by linarith
    then have "k < o2" by (rule power_less_imp_less_exp [rotated]) simp
    then show ?thesis using Suc by simp
  qed simp
  then show ?thesis using Inr f by simp
qed

text \<open>
  A poisoned allocator serves nothing more: it answers every request and every release with
  an error and leaves the memory alone; and every operation that fails leaves it poisoned.
\<close>

lemma poisoned_for_good:
  "(poisoned a \<longrightarrow> allocate grants a m sz = (Inl (Other ''the allocator has been poisoned''), a, m) \<and>
      deallocate a m ptr = (Inl (Other ''the allocator has been poisoned''), a, m)) \<and>
   (\<forall>e a' m'. allocate grants a m sz = (Inl e, a', m') \<longrightarrow> poisoned a') \<and>
   (\<forall>e a' m'. deallocate a m ptr = (Inl e, a', m') \<longrightarrow> poisoned a')"
  by (auto simp: allocate_def deallocate_def bomb_drop_def Let_def split: if_splits sum.splits prod.splits option.splits)




end
