(* ===== verification/Fork_Tree.thy ===== *)
theory Fork_Tree
  imports Prelude "HOL-Library.Multiset"
begin

text \<open>
  The fork tree of \<^verbatim>\<open>utils/fork-tree/src/lib.rs\<close>: a forest of block hashes with their numbers and
  data, which the client prunes as blocks are finalized. The ancestry of blocks comes from outside,
  as the closure \<^verbatim>\<open>is_descendent_of\<close>, which may fail; it is the argument \<open>isd\<close> of the operations.
  An operation that changes the tree returns its result with the tree it leaves, on errors too.
  Stacks (a \<^verbatim>\<open>Vec\<close> used with \<^verbatim>\<open>push\<close> and \<^verbatim>\<open>pop\<close>) are lists with the top at the head.
\<close>

section \<open>Data\<close>

datatype 'e fork_error =
  Duplicate
| UnfinalizedAncestor
| Revert
| Client 'e

datatype 'v FinalizationResult =
  Changed "'v option"
| Unchanged

datatype FilterAction =
  Remove
| KeepNode
| KeepTree

datatype ('h, 'n, 'v) node =
  Node (node_hash: 'h) (node_number: 'n) (node_data: 'v) (node_children: "('h, 'n, 'v) node list")

record ('h, 'n, 'v) ForkTree =
  roots :: "('h, 'n, 'v) node list"
  best_finalized_number :: "'n option"

type_synonym ('h, 'e) descent = "'h \<Rightarrow> 'h \<Rightarrow> ('e, bool) result"

definition fork_tree_new :: "('h, 'n, 'v) ForkTree" where
  "fork_tree_new = \<lparr>roots = [], best_finalized_number = None\<rparr>"

text \<open>The number of nodes below and including a node, for the termination of the loops.\<close>

fun node_count :: "('h, 'n, 'v) node \<Rightarrow> nat" where
  "node_count (Node h n d cs) = Suc (sum_list (map node_count cs))"

abbreviation forest_count :: "('h, 'n, 'v) node list \<Rightarrow> nat" where
  "forest_count ns \<equiv> sum_list (map node_count ns)"

lemma node_count_children: "node_count nd = Suc (forest_count (node_children nd))"
  by (cases nd) simp

lemma forest_count_children [simp]: "forest_count (node_children nd) < node_count nd"
  by (simp add: node_count_children)

lemma child_size: "c \<in> set cs \<Longrightarrow> size c < size (Node h n d cs)"
  by (auto intro!: le_imp_less_Suc intro: size_list_estimation')

lemma sum_list_rev_map [simp]: "sum_list (map f (rev xs)) = sum_list (map f xs)" for f :: "'a \<Rightarrow> nat"
  by (induction xs) auto

section \<open>Depth and balance\<close>

text \<open>\<^verbatim>\<open>Node::max_depth\<close>: the loop over the stack of nodes with their heights.\<close>

function max_depth_loop :: "(('h, 'n, 'v) node \<times> nat) list \<Rightarrow> nat \<Rightarrow> nat" where
  "max_depth_loop [] mx = mx"
| "max_depth_loop ((nd, height) # stack) mx =
     max_depth_loop (rev (map (\<lambda>c. (c, height + 1)) (node_children nd)) @ stack)
       (if height > mx then height else mx)"
  by pat_completeness auto
termination
  by (relation "measure (\<lambda>(stack, mx). sum_list (map (node_count \<circ> fst) stack))")
    (auto simp: comp_def rev_map [symmetric])

definition max_depth :: "('h, 'n, 'v) node \<Rightarrow> nat" where
  "max_depth nd = max_depth_loop [(nd, 0)] 0"

text \<open>A stable sort by decreasing depth, as \<^verbatim>\<open>sort_by_key\<close> with \<^verbatim>\<open>Reverse\<close>.\<close>

definition sort_by_depth :: "('h, 'n, 'v) node list \<Rightarrow> ('h, 'n, 'v) node list" where
  "sort_by_depth ns = sort_key (\<lambda>n. - int (max_depth n)) ns"

text \<open>
  The loop of \<^verbatim>\<open>rebalance\<close> sorts the children of every node once, through mutable references; no
  sort looks at the order of a list sorted before, so the order of the visits does not show.
\<close>

function rebalance_node :: "('h, 'n, 'v) node \<Rightarrow> ('h, 'n, 'v) node" where
  "rebalance_node (Node h n d cs) = Node h n d (map rebalance_node (sort_by_depth cs))"
  by pat_completeness auto
termination
  by (relation "measure size") (use child_size in \<open>auto simp: sort_by_depth_def\<close>)

definition rebalance :: "('h, 'n, 'v) ForkTree \<Rightarrow> ('h, 'n, 'v) ForkTree" where
  "rebalance t = t\<lparr>roots := map rebalance_node (sort_by_depth (roots t))\<rparr>"

section \<open>Search\<close>

text \<open>
  The inner loop of \<^verbatim>\<open>find_node_index_where\<close>. Each entry of the stack carries the index of the next
  child to search. Returns the flags \<^verbatim>\<open>found\<close> and \<^verbatim>\<open>is_descendent\<close> with the stack left.
\<close>

fun stack_weight :: "(('h, 'n, 'v) node \<times> nat) list \<Rightarrow> nat" where
  "stack_weight [] = 0"
| "stack_weight ((nd, i) # stack) = 1 + 2 * forest_count (drop i (node_children nd)) + stack_weight stack"

lemma stack_weight_child:
  assumes "i < length (node_children nd)"
  shows "stack_weight ((node_children nd ! i, 0) # (nd, i + 1) # stack) < stack_weight ((nd, i) # stack)"
    "stack_weight ((nd, i + 1) # stack) < stack_weight ((nd, i) # stack)"
  using assms by (simp_all add: Cons_nth_drop_Suc [symmetric] node_count_children)

function find_loop ::
  "('h, 'e) descent \<Rightarrow> 'h \<Rightarrow> 'n::linorder \<Rightarrow> ('v \<Rightarrow> bool) \<Rightarrow> (('h, 'n, 'v) node \<times> nat) list \<Rightarrow> bool
     \<Rightarrow> ('e fork_error, bool \<times> bool \<times> (('h, 'n, 'v) node \<times> nat) list) result" where
  "find_loop isd hash number predicate [] is_descendent = Inr (False, is_descendent, [])"
| "find_loop isd hash number predicate ((nd, i) # stack) is_descendent =
     (if i < length (node_children nd) \<and> \<not> is_descendent then
        (if node_number (node_children nd ! i) < number
         then find_loop isd hash number predicate ((node_children nd ! i, 0) # (nd, i + 1) # stack) is_descendent
         else find_loop isd hash number predicate ((nd, i + 1) # stack) is_descendent)
      else
        (case (if is_descendent then Inr True else isd (node_hash nd) hash) of
           Inl e \<Rightarrow> Inl (Client e)
         | Inr True \<Rightarrow>
             (if predicate (node_data nd) then Inr (True, True, stack)
              else find_loop isd hash number predicate stack True)
         | Inr False \<Rightarrow> find_loop isd hash number predicate stack is_descendent))"
  by pat_completeness auto
termination
  by (relation "measure (\<lambda>(_, _, _, _, stack, _). stack_weight stack)")
    (use stack_weight_child in \<open>auto simp del: stack_weight.simps(2)\<close>, auto)

text \<open>The outer loop; the path is read off the stack the inner loop leaves.\<close>

function find_roots ::
  "('h, 'e) descent \<Rightarrow> 'h \<Rightarrow> 'n::linorder \<Rightarrow> ('v \<Rightarrow> bool) \<Rightarrow> ('h, 'n, 'v) node list \<Rightarrow> nat
     \<Rightarrow> ('e fork_error, nat list option) result" where
  "find_roots isd hash number predicate rs root_idx =
     (if root_idx < length rs then
        (if number \<le> node_number (rs ! root_idx) then find_roots isd hash number predicate rs (root_idx + 1)
         else
           (case find_loop isd hash number predicate [(rs ! root_idx, 0)] False of
              Inl e \<Rightarrow> Inl e
            | Inr (found, is_descendent, stack) \<Rightarrow>
                if is_descendent
                then Inr (if found then Some (root_idx # map (\<lambda>(_, i). i - 1) (rev stack)) else None)
                else find_roots isd hash number predicate rs (root_idx + 1)))
      else Inr None)"
  by pat_completeness auto
termination
  by (relation "measure (\<lambda>(_, _, _, _, rs, root_idx). length rs - root_idx)") auto

declare find_roots.simps [simp del]

definition find_node_index_where ::
  "('h, 'n::linorder, 'v) ForkTree \<Rightarrow> 'h \<Rightarrow> 'n \<Rightarrow> ('h, 'e) descent \<Rightarrow> ('v \<Rightarrow> bool)
     \<Rightarrow> ('e fork_error, nat list option) result" where
  "find_node_index_where t hash number isd predicate = find_roots isd hash number predicate (roots t) 0"

text \<open>The node a path of indices leads to; \<open>None\<close> is an index out of range, a panic.\<close>

fun node_at :: "('h, 'n, 'v) node list \<Rightarrow> nat list \<Rightarrow> ('h, 'n, 'v) node option" where
  "node_at ns [] = None"
| "node_at ns [i] = nth_opt ns i"
| "node_at ns (i # j # path) = Option.bind (nth_opt ns i) (\<lambda>nd. node_at (node_children nd) (j # path))"

definition find_node_where ::
  "('h, 'n::linorder, 'v) ForkTree \<Rightarrow> 'h \<Rightarrow> 'n \<Rightarrow> ('h, 'e) descent \<Rightarrow> ('v \<Rightarrow> bool)
     \<Rightarrow> ('e fork_error, ('h, 'n, 'v) node option option) result" where
  "find_node_where t hash number isd predicate =
     res_bind (find_node_index_where t hash number isd predicate)
       (\<lambda>maybe_path. Inr (map_option (node_at (roots t)) maybe_path))"

text \<open>What a mutable reference to the children at a path reads and writes.\<close>

fun children_at :: "nat list \<Rightarrow> ('h, 'n, 'v) node list \<Rightarrow> ('h, 'n, 'v) node list" where
  "children_at [] ns = ns"
| "children_at (i # path) ns = (case nth_opt ns i of None \<Rightarrow> [] | Some nd \<Rightarrow> children_at path (node_children nd))"

fun set_children :: "('h, 'n, 'v) node \<Rightarrow> ('h, 'n, 'v) node list \<Rightarrow> ('h, 'n, 'v) node" where
  "set_children (Node h n d _) cs = Node h n d cs"

fun modify_at ::
  "nat list \<Rightarrow> (('h, 'n, 'v) node list \<Rightarrow> ('h, 'n, 'v) node list) \<Rightarrow> ('h, 'n, 'v) node list \<Rightarrow> ('h, 'n, 'v) node list" where
  "modify_at [] f ns = f ns"
| "modify_at (i # path) f ns =
     (case nth_opt ns i of
        None \<Rightarrow> ns
      | Some nd \<Rightarrow> ns[i := set_children nd (modify_at path f (node_children nd))])"

section \<open>Import\<close>

definition reverts :: "('h, 'n::linorder, 'v) ForkTree \<Rightarrow> 'n \<Rightarrow> bool" where
  "reverts t number = (case best_finalized_number t of Some b \<Rightarrow> number \<le> b | None \<Rightarrow> False)"

definition import_node ::
  "('h, 'n::linorder, 'v) ForkTree \<Rightarrow> 'h \<Rightarrow> 'n \<Rightarrow> 'v \<Rightarrow> ('h, 'e) descent
     \<Rightarrow> ('e fork_error, bool) result \<times> ('h, 'n, 'v) ForkTree" where
  "import_node t hash number data isd =
     (if reverts t number then (Inl Revert, t)
      else
        (case find_node_index_where t hash number isd (\<lambda>_. True) of
           Inl e \<Rightarrow> (Inl e, t)
         | Inr maybe_path \<Rightarrow>
             (let (path, is_root) = (case maybe_path of Some path \<Rightarrow> (path, False) | None \<Rightarrow> ([], True));
                  children = children_at path (roots t)
              in if list_ex (\<lambda>elem. node_hash elem = hash) children then (Inl Duplicate, t)
                 else
                   (let children' = children @ [Node hash number data []];
                        t' = t\<lparr>roots := modify_at path (\<lambda>_. children') (roots t)\<rparr>
                    in (Inr is_root, if length children' = 1 then rebalance t' else t')))))"

section \<open>Iterators\<close>

definition roots_iter :: "('h, 'n, 'v) ForkTree \<Rightarrow> ('h \<times> 'n \<times> 'v) list" where
  "roots_iter t = map (\<lambda>nd. (node_hash nd, node_number nd, node_data nd)) (roots t)"

fun iterator_next :: "('h, 'n, 'v) node list \<Rightarrow> (('h, 'n, 'v) node \<times> ('h, 'n, 'v) node list) option" where
  "iterator_next [] = None"
| "iterator_next (nd # stack) = Some (nd, node_children nd @ stack)"

text \<open>All the items an iterator with this stack yields.\<close>

function iterate :: "('h, 'n, 'v) node list \<Rightarrow> ('h, 'n, 'v) node list" where
  "iterate stack = (case iterator_next stack of None \<Rightarrow> [] | Some (nd, stack') \<Rightarrow> nd # iterate stack')"
  by pat_completeness auto
termination
  by (relation "measure forest_count") (auto elim!: iterator_next.elims)

declare iterate.simps [simp del]

definition node_iter :: "('h, 'n, 'v) ForkTree \<Rightarrow> ('h, 'n, 'v) node list" where
  "node_iter t = iterate (roots t)"

definition iter :: "('h, 'n, 'v) ForkTree \<Rightarrow> ('h \<times> 'n \<times> 'v) list" where
  "iter t = map (\<lambda>nd. (node_hash nd, node_number nd, node_data nd)) (node_iter t)"

text \<open>The stack of a \<^verbatim>\<open>RemovedIterator\<close> is a vector; its top is the last element.\<close>

definition removed_iter :: "('h, 'n, 'v) node list \<Rightarrow> ('h \<times> 'n \<times> 'v) list" where
  "removed_iter removed = map (\<lambda>nd. (node_hash nd, node_number nd, node_data nd)) (iterate (rev removed))"

section \<open>Map and filter\<close>

text \<open>
  Both walk the tree level by level, collect nodes with the position of their parent in the
  output (\<open>None\<close> for a root, in the code \<^verbatim>\<open>usize::MAX\<close>), and then rebuild the tree from the end of the
  output. The closure given to \<^verbatim>\<open>map\<close> is an \<^verbatim>\<open>FnMut\<close>: it threads a state.
\<close>

fun map_level ::
  "('h \<Rightarrow> 'n \<Rightarrow> 'v \<Rightarrow> 's \<Rightarrow> 'w \<times> 's) \<Rightarrow> 's \<Rightarrow> (nat option \<times> ('h, 'n, 'v) node) list
     \<Rightarrow> (nat option \<times> ('h, 'n, 'w) node) list \<Rightarrow> (nat option \<times> ('h, 'n, 'v) node) list
     \<Rightarrow> 's \<times> (nat option \<times> ('h, 'n, 'w) node) list \<times> (nat option \<times> ('h, 'n, 'v) node) list" where
  "map_level f s [] output next_queue = (s, output, next_queue)"
| "map_level f s ((parent_index, nd) # queue) output next_queue =
     (let (new_data, s') = f (node_hash nd) (node_number nd) (node_data nd) s;
          node_id = length output
      in map_level f s' queue (output @ [(parent_index, Node (node_hash nd) (node_number nd) new_data [])])
           (next_queue @ map (\<lambda>child. (Some node_id, child)) (rev (node_children nd))))"

abbreviation queue_count :: "(nat option \<times> ('h, 'n, 'v) node) list \<Rightarrow> nat" where
  "queue_count q \<equiv> forest_count (map snd q)"

lemma map_level_count:
  "map_level f s queue out next_queue = (s', out', next_queue') \<Longrightarrow>
     queue_count next_queue' + length queue = queue_count next_queue + queue_count queue"
proof (induction f s queue out next_queue rule: map_level.induct)
  case (2 f s pi nd queue out next_queue)
  then show ?case by (fastforce simp: node_count_children comp_def rev_map [symmetric] split: prod.splits)
qed simp

function map_loop ::
  "('h \<Rightarrow> 'n \<Rightarrow> 'v \<Rightarrow> 's \<Rightarrow> 'w \<times> 's) \<Rightarrow> 's \<Rightarrow> (nat option \<times> ('h, 'n, 'v) node) list
     \<Rightarrow> (nat option \<times> ('h, 'n, 'w) node) list \<Rightarrow> 's \<times> (nat option \<times> ('h, 'n, 'w) node) list" where
  "map_loop f s queue output =
     (if queue = [] then (s, output)
      else (case map_level f s queue output [] of
              (s', output', next_queue) \<Rightarrow> map_loop f s' next_queue output'))"
  by pat_completeness auto
termination
proof (relation "measure (\<lambda>(_, _, queue, _). queue_count queue)", goal_cases)
  case (2 f s queue out s' b out' next_queue)
  then have "queue_count next_queue + length queue = queue_count queue"
    using map_level_count [of f s queue out "[]" s' out' next_queue] by simp
  with 2 show ?case by (cases queue) auto
qed simp

declare map_loop.simps [simp del]

definition push_child :: "('h, 'n, 'v) node \<Rightarrow> ('h, 'n, 'v) node \<Rightarrow> ('h, 'n, 'v) node" where
  "push_child c nd = set_children nd (node_children nd @ [c])"

function rebuild ::
  "(nat option \<times> ('h, 'n, 'v) node) list \<Rightarrow> ('h, 'n, 'v) node list \<Rightarrow> ('h, 'n, 'v) node list" where
  "rebuild output rs =
     (if output = [] then rs
      else
        (let (parent_index, new_node) = last output; output' = butlast output
         in case parent_index of
              None \<Rightarrow> rebuild output' (rs @ [new_node])
            | Some p \<Rightarrow> rebuild (output'[p := (fst (output' ! p), push_child new_node (snd (output' ! p)))]) rs))"
  by pat_completeness auto
termination
  by (relation "measure (length \<circ> fst)") auto

declare rebuild.simps [simp del]

definition map_tree ::
  "('h, 'n, 'v) ForkTree \<Rightarrow> ('h \<Rightarrow> 'n \<Rightarrow> 'v \<Rightarrow> 's \<Rightarrow> 'w \<times> 's) \<Rightarrow> 's \<Rightarrow> 's \<times> ('h, 'n, 'w) ForkTree" where
  "map_tree t f s =
     (let queue = map (\<lambda>nd. (None, nd)) (rev (roots t));
          (s', output) = map_loop f s queue []
      in (s', \<lparr>roots = rebuild output [], best_finalized_number = best_finalized_number t\<rparr>))"

fun filter_level ::
  "('h \<Rightarrow> 'n \<Rightarrow> 'v \<Rightarrow> FilterAction) \<Rightarrow> (nat option \<times> ('h, 'n, 'v) node) list
     \<Rightarrow> (nat option \<times> ('h, 'n, 'v) node) list \<Rightarrow> ('h, 'n, 'v) node list \<Rightarrow> (nat option \<times> ('h, 'n, 'v) node) list
     \<Rightarrow> (nat option \<times> ('h, 'n, 'v) node) list \<times> ('h, 'n, 'v) node list \<times> (nat option \<times> ('h, 'n, 'v) node) list" where
  "filter_level flt [] retained removed next_queue = (retained, removed, next_queue)"
| "filter_level flt ((parent_idx, nd) # queue) retained removed next_queue =
     (case flt (node_hash nd) (node_number nd) (node_data nd) of
        KeepNode \<Rightarrow>
          (let node_idx = length retained in
           filter_level flt queue (retained @ [(parent_idx, set_children nd [])]) removed
             (next_queue @ map (\<lambda>child. (Some node_idx, child)) (rev (node_children nd))))
      | KeepTree \<Rightarrow> filter_level flt queue (retained @ [(parent_idx, nd)]) removed next_queue
      | Remove \<Rightarrow> filter_level flt queue retained (removed @ [nd]) next_queue)"

lemma filter_level_count:
  "filter_level flt queue retained removed next_queue = (retained', removed', next_queue') \<Longrightarrow>
     queue_count next_queue' + length queue \<le> queue_count next_queue + queue_count queue"
proof (induction flt queue retained removed next_queue rule: filter_level.induct)
  case (2 flt pi nd queue retained removed next_queue)
  then show ?case
    by (cases "flt (node_hash nd) (node_number nd) (node_data nd)")
      (fastforce simp: node_count_children comp_def rev_map [symmetric] Let_def)+
qed simp

function filter_loop ::
  "('h \<Rightarrow> 'n \<Rightarrow> 'v \<Rightarrow> FilterAction) \<Rightarrow> (nat option \<times> ('h, 'n, 'v) node) list
     \<Rightarrow> (nat option \<times> ('h, 'n, 'v) node) list \<Rightarrow> ('h, 'n, 'v) node list
     \<Rightarrow> (nat option \<times> ('h, 'n, 'v) node) list \<times> ('h, 'n, 'v) node list" where
  "filter_loop flt queue retained removed =
     (if queue = [] then (retained, removed)
      else (case filter_level flt queue retained removed [] of
              (retained', removed', next_queue) \<Rightarrow> filter_loop flt next_queue retained' removed'))"
  by pat_completeness auto
termination
proof (relation "measure (\<lambda>(_, queue, _, _). queue_count queue)", goal_cases)
  case (2 flt queue retained removed retained' b removed' next_queue)
  then have "queue_count next_queue + length queue \<le> queue_count queue"
    using filter_level_count [of flt queue retained removed "[]" retained' removed' next_queue] by simp
  with 2 show ?case by (cases queue) auto
qed simp

declare filter_loop.simps [simp del]

definition drain_filter ::
  "('h, 'n, 'v) ForkTree \<Rightarrow> ('h \<Rightarrow> 'n \<Rightarrow> 'v \<Rightarrow> FilterAction) \<Rightarrow> ('h \<times> 'n \<times> 'v) list \<times> ('h, 'n, 'v) ForkTree" where
  "drain_filter t flt =
     (let queue = map (\<lambda>nd. (None, nd)) (rev (roots t));
          (retained, removed) = filter_loop flt queue [] [];
          t' = t\<lparr>roots := rebuild retained []\<rparr>
      in (removed_iter removed, if removed \<noteq> [] then rebalance t' else t'))"

section \<open>Pruning\<close>

fun first_ancestor ::
  "('h, 'e) descent \<Rightarrow> 'h \<Rightarrow> 'n::linorder \<Rightarrow> nat \<Rightarrow> ('h, 'n, 'v) node list \<Rightarrow> ('e fork_error, nat option) result" where
  "first_ancestor isd hash number idx [] = Inr None"
| "first_ancestor isd hash number idx (child # cs) =
     (if node_number child < number then
        (case isd (node_hash child) hash of
           Inl e \<Rightarrow> Inl (Client e)
         | Inr True \<Rightarrow> Inr (Some idx)
         | Inr False \<Rightarrow> first_ancestor isd hash number (idx + 1) cs)
      else first_ancestor isd hash number (idx + 1) cs)"

lemma first_ancestor_bound:
  "first_ancestor isd hash number idx cs = Inr (Some i) \<Longrightarrow> idx \<le> i \<and> i < idx + length cs"
  by (induction isd hash number idx cs rule: first_ancestor.induct) (fastforce split: if_splits sum.splits bool.splits)+

fun prune_children ::
  "('h, 'e) descent \<Rightarrow> 'h \<Rightarrow> 'n::linorder \<Rightarrow> ('h, 'n, 'v) node list \<Rightarrow> ('h, 'n, 'v) node list \<Rightarrow> ('h, 'n, 'v) node list
     \<Rightarrow> ('e fork_error, unit) result \<times> ('h, 'n, 'v) node list \<times> ('h, 'n, 'v) node list" where
  "prune_children isd hash number [] kept removed = (Inr (), kept, removed)"
| "prune_children isd hash number (child # cs) kept removed =
     (if node_number child = number \<and> node_hash child = hash
      then prune_children isd hash number cs (kept @ [child]) removed
      else if number < node_number child then
        (case isd hash (node_hash child) of
           Inl e \<Rightarrow> (Inl (Client e), kept, removed)
         | Inr True \<Rightarrow> prune_children isd hash number cs (kept @ [child]) removed
         | Inr False \<Rightarrow> prune_children isd hash number cs kept (removed @ [child]))
      else prune_children isd hash number cs kept (removed @ [child]))"

text \<open>
  The loop down from the new root to the block above \<^verbatim>\<open>hash\<close>, then the children there. Returns the
  node with what is left below it, and the vector \<^verbatim>\<open>removed\<close>.
\<close>

function prune_walk ::
  "('h, 'e) descent \<Rightarrow> 'h \<Rightarrow> 'n::linorder \<Rightarrow> ('h, 'n, 'v) node \<Rightarrow> ('h, 'n, 'v) node list
     \<Rightarrow> ('e fork_error, unit) result \<times> ('h, 'n, 'v) node \<times> ('h, 'n, 'v) node list" where
  "prune_walk isd hash number (Node h n d cs) removed =
     (case first_ancestor isd hash number 0 cs of
        Inl e \<Rightarrow> (Inl e, Node h n d cs, removed)
      | Inr (Some ancestor_idx) \<Rightarrow>
          (case prune_walk isd hash number (cs ! ancestor_idx)
                  (removed @ take ancestor_idx cs @ drop (Suc ancestor_idx) cs) of
             (r, next', removed') \<Rightarrow> (r, Node h n d [next'], removed'))
      | Inr None \<Rightarrow>
          (case prune_children isd hash number cs [] removed of
             (r, kept, removed') \<Rightarrow> (r, Node h n d kept, removed')))"
  by pat_completeness auto
termination
proof (relation "measure (\<lambda>(_, _, _, nd, _). size nd)", goal_cases)
  case (2 isd hash number h n d cs removed opt i)
  then have "cs ! i \<in> set cs" using first_ancestor_bound [of isd hash number 0 cs i] by simp
  then show ?case using child_size by simp
qed simp

definition detach_at ::
  "nat list \<Rightarrow> ('h, 'n, 'v) node list \<Rightarrow> (('h, 'n, 'v) node \<times> ('h, 'n, 'v) node list) option" where
  "detach_at path ns =
     map_option (\<lambda>root. (root, modify_at (butlast path) (\<lambda>cs. take (last path) cs @ drop (Suc (last path)) cs) ns))
       (node_at ns path)"

text \<open>\<open>None\<close> is a panic.\<close>

definition prune ::
  "('h, 'n::linorder, 'v) ForkTree \<Rightarrow> 'h \<Rightarrow> 'n \<Rightarrow> ('h, 'e) descent \<Rightarrow> ('v \<Rightarrow> bool)
     \<Rightarrow> (('e fork_error, ('h \<times> 'n \<times> 'v) list) result \<times> ('h, 'n, 'v) ForkTree) option" where
  "prune t hash number isd predicate =
     (case find_node_index_where t hash number isd predicate of
        Inl e \<Rightarrow> Some (Inl e, t)
      | Inr None \<Rightarrow> Some (Inr (removed_iter []), t)
      | Inr (Some new_root_path) \<Rightarrow>
          map_option
            (\<lambda>(root, removed).
               case prune_walk isd hash number root removed of
                 (Inl e, root', _) \<Rightarrow> (Inl e, t\<lparr>roots := [root']\<rparr>)
               | (Inr _, root', removed') \<Rightarrow> (Inr (removed_iter removed'), rebalance (t\<lparr>roots := [root']\<rparr>)))
            (detach_at new_root_path (roots t)))"

section \<open>Finalization\<close>

text \<open>Callers pass a position below the number of roots.\<close>

definition finalize_root_at :: "('h, 'n, 'v) ForkTree \<Rightarrow> nat \<Rightarrow> 'v \<times> ('h, 'n, 'v) ForkTree" where
  "finalize_root_at t position =
     (let nd = roots t ! position
      in (node_data nd, t\<lparr>roots := node_children nd, best_finalized_number := Some (node_number nd)\<rparr>))"

fun position_of :: "('a \<Rightarrow> bool) \<Rightarrow> 'a list \<Rightarrow> nat option" where
  "position_of P [] = None"
| "position_of P (x # xs) = (if P x then Some 0 else map_option Suc (position_of P xs))"

definition finalize_root :: "('h, 'n, 'v) ForkTree \<Rightarrow> 'h \<Rightarrow> ('v \<times> ('h, 'n, 'v) ForkTree) option" where
  "finalize_root t hash = map_option (finalize_root_at t) (position_of (\<lambda>nd. node_hash nd = hash) (roots t))"

fun any_root_above ::
  "('h, 'e) descent \<Rightarrow> 'h \<Rightarrow> 'n::linorder \<Rightarrow> ('h, 'n, 'v) node list \<Rightarrow> ('e fork_error, bool) result" where
  "any_root_above isd hash number [] = Inr False"
| "any_root_above isd hash number (root # rs) =
     (if number > node_number root then
        (case isd (node_hash root) hash of
           Inl e \<Rightarrow> Inl (Client e)
         | Inr True \<Rightarrow> Inr True
         | Inr False \<Rightarrow> any_root_above isd hash number rs)
      else any_root_above isd hash number rs)"

text \<open>The loop over the roots taken out of the tree: on an error, those not yet visited are dropped.\<close>

fun retain_roots ::
  "(('h, 'n, 'v) node \<Rightarrow> ('e fork_error, bool) result) \<Rightarrow> ('h, 'n, 'v) node list \<Rightarrow> ('h, 'n, 'v) node list \<Rightarrow> bool
     \<Rightarrow> ('e fork_error, bool) result \<times> ('h, 'n, 'v) node list" where
  "retain_roots retain [] kept changed = (Inr changed, kept)"
| "retain_roots retain (root # rs) kept changed =
     (case retain root of
        Inl e \<Rightarrow> (Inl e, kept)
      | Inr True \<Rightarrow> retain_roots retain rs (kept @ [root]) changed
      | Inr False \<Rightarrow> retain_roots retain rs kept True)"

definition retain_below :: "('h, 'e) descent \<Rightarrow> 'h \<Rightarrow> 'n::linorder \<Rightarrow> ('h, 'n, 'v) node \<Rightarrow> ('e fork_error, bool) result" where
  "retain_below isd hash number root =
     (if node_number root > number
      then (case isd hash (node_hash root) of Inl e \<Rightarrow> Inl (Client e) | Inr b \<Rightarrow> Inr b)
      else Inr False)"

definition finalize ::
  "('h, 'n::linorder, 'v) ForkTree \<Rightarrow> 'h \<Rightarrow> 'n \<Rightarrow> ('h, 'e) descent
     \<Rightarrow> ('e fork_error, 'v FinalizationResult) result \<times> ('h, 'n, 'v) ForkTree" where
  "finalize t hash number isd =
     (if reverts t number then (Inl Revert, t)
      else
        (case finalize_root t hash of
           Some (root, t') \<Rightarrow> (Inr (Changed (Some root)), t')
         | None \<Rightarrow>
             (case any_root_above isd hash number (roots t) of
                Inl e \<Rightarrow> (Inl e, t)
              | Inr True \<Rightarrow> (Inl UnfinalizedAncestor, t)
              | Inr False \<Rightarrow>
                  (case retain_roots (retain_below isd hash number) (roots t) [] False of
                     (Inl e, kept) \<Rightarrow> (Inl e, t\<lparr>roots := kept\<rparr>)
                   | (Inr changed, kept) \<Rightarrow>
                       (Inr (if changed then Changed None else Unchanged),
                        t\<lparr>roots := kept, best_finalized_number := Some number\<rparr>)))))"

text \<open>\<^verbatim>\<open>Vec::swap_remove\<close>: the last element takes the place of the one removed.\<close>

definition swap_remove :: "'a list \<Rightarrow> nat \<Rightarrow> 'a list" where
  "swap_remove xs i = (butlast xs)[i := last xs]"

lemma mset_swap_remove: "i < length xs \<Longrightarrow> mset (swap_remove xs i) = mset xs - {# xs ! i #}"
proof (cases xs rule: rev_cases)
  case (snoc ys y)
  assume "i < length xs"
  then show ?thesis using snoc by (auto simp: swap_remove_def mset_update nth_append less_Suc_eq list_update_beyond)
qed simp

lemma take_swap_remove: "i < length xs \<Longrightarrow> take i (swap_remove xs i) = take i xs"
  by (cases xs rule: rev_cases) (auto simp: swap_remove_def)

lemma length_swap_remove [simp]: "length (swap_remove xs i) = length xs - 1"
  by (simp add: swap_remove_def)

text \<open>How the loop of \<^verbatim>\<open>finalize_with_ancestors\<close> ends: at the finalized root, or with the flag \<^verbatim>\<open>changed\<close>.\<close>

datatype ancestors_end = Met_finalized nat | Ran_through bool

definition root_relation ::
  "('h, 'e) descent \<Rightarrow> 'h \<Rightarrow> 'n::linorder \<Rightarrow> ('h, 'n, 'v) node \<Rightarrow> ('e fork_error, bool \<times> bool \<times> bool) result" where
  "root_relation isd hash number root =
     (let is_finalized = (node_hash root = hash) in
      res_bind
        (if \<not> is_finalized \<and> node_number root > number
         then (case isd hash (node_hash root) of Inl e \<Rightarrow> Inl (Client e) | Inr b \<Rightarrow> Inr b) else Inr False)
        (\<lambda>is_descendant.
           res_bind
             (if \<not> is_finalized \<and> \<not> is_descendant \<and> node_number root < number
              then (case isd (node_hash root) hash of Inl e \<Rightarrow> Inl (Client e) | Inr b \<Rightarrow> Inr b) else Inr False)
             (\<lambda>is_ancestor. Inr (is_finalized, is_descendant, is_ancestor))))"

lemma swap_remove_count:
  assumes "i < length xs"
  shows "forest_count (drop i (swap_remove xs i)) + node_count (xs ! i) = forest_count (drop i xs)"
proof (cases xs rule: rev_cases)
  case (snoc ys y)
  show ?thesis
  proof (cases "i < length ys")
    case True
    then have "drop i (ys[i := y]) = y # drop (Suc i) ys" "drop i ys = ys ! i # drop (Suc i) ys"
      by (simp_all add: Cons_nth_drop_Suc [symmetric])
    with True show ?thesis by (simp add: swap_remove_def snoc nth_append)
  next
    case False
    with assms show ?thesis by (simp add: swap_remove_def snoc less_Suc_eq)
  qed
qed (use assms in simp)

function ancestors_loop ::
  "('h, 'e) descent \<Rightarrow> 'h \<Rightarrow> 'n::linorder \<Rightarrow> ('h, 'n, 'v) node list \<Rightarrow> nat \<Rightarrow> bool
     \<Rightarrow> ('e fork_error, ancestors_end) result \<times> ('h, 'n, 'v) node list" where
  "ancestors_loop isd hash number rs idx changed =
     (if idx < length rs then
        (case root_relation isd hash number (rs ! idx) of
           Inl e \<Rightarrow> (Inl e, rs)
         | Inr (is_finalized, is_descendant, is_ancestor) \<Rightarrow>
             if is_finalized then (Inr (Met_finalized idx), rs)
             else if is_descendant then ancestors_loop isd hash number rs (idx + 1) changed
             else if is_ancestor
             then ancestors_loop isd hash number (swap_remove rs idx @ node_children (rs ! idx)) idx True
             else ancestors_loop isd hash number (swap_remove rs idx) idx True)
      else (Inr (Ran_through changed), rs))"
  by pat_completeness auto
termination
proof (relation "measure (\<lambda>(_, _, _, rs, idx, _). forest_count (drop idx rs))", goal_cases)
  case (2 isd hash number rs idx changed x xa y xb ya)
  then show ?case by (simp add: Cons_nth_drop_Suc [symmetric] node_count_children)
next
  case (3 isd hash number rs idx changed x xa y xb ya)
  then have "idx \<le> length (swap_remove rs idx)" by simp
  then have "forest_count (drop idx (swap_remove rs idx @ node_children (rs ! idx))) =
      forest_count (drop idx (swap_remove rs idx)) + forest_count (node_children (rs ! idx))"
    by (simp only: drop_append diff_is_0_eq' drop_0 map_append sum_list_append)
  then show ?case using 3 swap_remove_count [of idx rs] by (simp add: node_count_children [of "rs ! idx"])
next
  case (4 isd hash number rs idx changed x xa y xb ya)
  then show ?case using swap_remove_count [of idx rs] by (simp add: node_count_children [of "rs ! idx"])
qed simp

declare ancestors_loop.simps [simp del]

definition finalize_with_ancestors ::
  "('h, 'n::linorder, 'v) ForkTree \<Rightarrow> 'h \<Rightarrow> 'n \<Rightarrow> ('h, 'e) descent
     \<Rightarrow> ('e fork_error, 'v FinalizationResult) result \<times> ('h, 'n, 'v) ForkTree" where
  "finalize_with_ancestors t hash number isd =
     (if reverts t number then (Inl Revert, t)
      else
        (case finalize_root t hash of
           Some (root, t') \<Rightarrow> (Inr (Changed (Some root)), t')
         | None \<Rightarrow>
             (case ancestors_loop isd hash number (roots t) 0 False of
                (Inl e, rs) \<Rightarrow> (Inl e, t\<lparr>roots := rs\<rparr>)
              | (Inr (Met_finalized idx), rs) \<Rightarrow>
                  (let (root, t') = finalize_root_at (t\<lparr>roots := rs\<rparr>) idx in (Inr (Changed (Some root)), t'))
              | (Inr (Ran_through changed), rs) \<Rightarrow>
                  (Inr (if changed then Changed None else Unchanged),
                   t\<lparr>roots := rs, best_finalized_number := Some number\<rparr>))))"

text \<open>\<^verbatim>\<open>node.hash == *hash || is_descendent_of(&node.hash, hash)?\<close>\<close>

definition same_or_above :: "('h, 'e) descent \<Rightarrow> 'h \<Rightarrow> ('h, 'n, 'v) node \<Rightarrow> ('e fork_error, bool) result" where
  "same_or_above isd hash nd =
     (if node_hash nd = hash then Inr True
      else (case isd (node_hash nd) hash of Inl e \<Rightarrow> Inl (Client e) | Inr b \<Rightarrow> Inr b))"

fun past_child ::
  "('h, 'e) descent \<Rightarrow> 'h \<Rightarrow> 'n::linorder \<Rightarrow> ('h, 'n, 'v) node list \<Rightarrow> ('e fork_error, bool) result" where
  "past_child isd hash number [] = Inr False"
| "past_child isd hash number (child # cs) =
     (if node_number child \<le> number
      then res_bind (same_or_above isd hash child) (\<lambda>b. if b then Inr True else past_child isd hash number cs)
      else past_child isd hash number cs)"

text \<open>The first node that passes the predicate and is the block or above it, with its position.\<close>

fun first_passing ::
  "('h, 'e) descent \<Rightarrow> 'h \<Rightarrow> 'n::linorder \<Rightarrow> ('v \<Rightarrow> bool) \<Rightarrow> nat \<Rightarrow> ('h, 'n, 'v) node list
     \<Rightarrow> ('e fork_error, (nat \<times> ('h, 'n, 'v) node) option) result" where
  "first_passing isd hash number predicate i [] = Inr None"
| "first_passing isd hash number predicate i (nd # ns) =
     (if predicate (node_data nd) then
        res_bind (same_or_above isd hash nd) (\<lambda>b.
          if b then
            res_bind (past_child isd hash number (node_children nd)) (\<lambda>past.
              if past then Inl UnfinalizedAncestor else Inr (Some (i, nd)))
          else first_passing isd hash number predicate (i + 1) ns)
      else first_passing isd hash number predicate (i + 1) ns)"

definition finalizes_any_with_descendent_if ::
  "('h, 'n::linorder, 'v) ForkTree \<Rightarrow> 'h \<Rightarrow> 'n \<Rightarrow> ('h, 'e) descent \<Rightarrow> ('v \<Rightarrow> bool)
     \<Rightarrow> ('e fork_error, bool option) result" where
  "finalizes_any_with_descendent_if t hash number isd predicate =
     (if reverts t number then Inl Revert
      else res_bind (first_passing isd hash number predicate 0 (node_iter t)) (\<lambda>r.
        Inr (map_option (\<lambda>(_, nd). list_ex (\<lambda>root. node_hash root = node_hash nd) (roots t)) r)))"

definition retain_related :: "('h, 'e) descent \<Rightarrow> 'h \<Rightarrow> 'n::linorder \<Rightarrow> ('h, 'n, 'v) node \<Rightarrow> ('e fork_error, bool) result" where
  "retain_related isd hash number root =
     res_bind (retain_below isd hash number root) (\<lambda>below.
       if below then Inr True
       else if node_number root = number \<and> node_hash root = hash then Inr True
       else (case isd (node_hash root) hash of Inl e \<Rightarrow> Inl (Client e) | Inr b \<Rightarrow> Inr b))"

definition finalize_with_descendent_if ::
  "('h, 'n::linorder, 'v) ForkTree \<Rightarrow> 'h \<Rightarrow> 'n \<Rightarrow> ('h, 'e) descent \<Rightarrow> ('v \<Rightarrow> bool)
     \<Rightarrow> ('e fork_error, 'v FinalizationResult) result \<times> ('h, 'n, 'v) ForkTree" where
  "finalize_with_descendent_if t hash number isd predicate =
     (if reverts t number then (Inl Revert, t)
      else
        (case first_passing isd hash number predicate 0 (roots t) of
           Inl e \<Rightarrow> (Inl e, t)
         | Inr position \<Rightarrow>
             (let (node_data, t1) =
                    (case position of
                       Some (i, _) \<Rightarrow> (case finalize_root_at t i of (d, t') \<Rightarrow> (Some d, t'))
                     | None \<Rightarrow> (None, t))
              in case retain_roots (retain_related isd hash number) (roots t1) [] False of
                   (Inl e, kept) \<Rightarrow> (Inl e, t1\<lparr>roots := kept\<rparr>)
                 | (Inr changed, kept) \<Rightarrow>
                     (Inr (case node_data of
                             Some d \<Rightarrow> Changed (Some d)
                           | None \<Rightarrow> if changed then Changed None else Unchanged),
                      t1\<lparr>roots := kept, best_finalized_number := Some number\<rparr>))))"

end
