(* ===== verification/Fork_Tree_Shape.thy ===== *)
theory Fork_Tree_Shape
  imports Fork_Tree
begin

text \<open>
  The shape of the fork tree, independent of what its hashes mean: the loops that measure,
  iterate, balance, map and filter it agree with definitions by recursion on the tree.
\<close>

section \<open>Depth\<close>

fun depth :: "('h, 'n, 'v) node \<Rightarrow> nat" where
  "depth (Node h n d cs) = foldr max (map (\<lambda>c. Suc (depth c)) cs) 0"

lemma foldr_max_out: "foldr max xs (max a b) = max a (foldr max xs b)" for a b :: "'a::linorder"
  by (induction xs) (auto simp: max.left_commute)

lemma foldr_max_perm: "mset xs = mset ys \<Longrightarrow> foldr max xs b = foldr max ys (b::'a::linorder)"
proof (induction xs arbitrary: ys)
  case (Cons x xs)
  then obtain us vs where ys: "ys = us @ x # vs"
    by (metis list.set_intros(1) set_mset_mset split_list)
  then have "foldr max xs b = foldr max (us @ vs) b" using Cons.prems by (intro Cons.IH) simp
  then show ?case by (simp add: ys foldr_max_out)
qed simp

lemma foldr_max_shift: "foldr max (map (\<lambda>c. k + Suc (f c)) cs) k = k + foldr max (map (\<lambda>c. Suc (f c)) cs) 0" for k :: nat
  by (induction cs) auto

lemma if_greater_max: "(if (h::nat) > m then h else m) = max h m"
  by simp

lemma max_depth_loop_eq:
  "max_depth_loop stack mx = foldr max (map (\<lambda>(nd, height). height + depth nd) stack) mx"
proof (induction stack mx rule: max_depth_loop.induct)
  case (2 nd height stack mx)
  have cs: "foldr max (map (\<lambda>c. height + Suc (depth c)) (node_children nd)) height = height + depth nd"
    by (cases nd) (simp add: foldr_max_shift [simplified])
  have "max_depth_loop ((nd, height) # stack) mx =
      foldr max (rev (map (\<lambda>c. height + Suc (depth c)) (node_children nd)))
        (foldr max (map (\<lambda>(nd, height). height + depth nd) stack) (max height mx))"
    using 2 by (simp add: rev_map comp_def if_greater_max)
  also have "\<dots> = foldr max (map (\<lambda>c. height + Suc (depth c)) (node_children nd))
      (max (foldr max (map (\<lambda>(nd, height). height + depth nd) stack) mx) height)"
    by (subst foldr_max_perm [where ys = "map (\<lambda>c. height + Suc (depth c)) (node_children nd)"])
      (simp_all add: foldr_max_out max.commute)
  also have "\<dots> = max (height + depth nd) (foldr max (map (\<lambda>(nd, height). height + depth nd) stack) mx)"
    by (subst foldr_max_out) (simp only: cs max.commute)
  finally show ?case by simp
qed simp

lemma max_depth_eq: "max_depth nd = depth nd"
  by (simp add: max_depth_def max_depth_loop_eq)

section \<open>Iteration\<close>

fun preorder :: "('h, 'n, 'v) node \<Rightarrow> ('h, 'n, 'v) node list" where
  "preorder (Node h n d cs) = Node h n d cs # concat (map preorder cs)"

definition nodes :: "('h, 'n, 'v) node list \<Rightarrow> ('h, 'n, 'v) node list" where
  "nodes ns = concat (map preorder ns)"

lemma nodes_simps [simp]:
  "nodes [] = []" "nodes (nd # ns) = nd # nodes (node_children nd) @ nodes ns" "nodes (ns @ ms) = nodes ns @ nodes ms"
  by (cases nd, auto simp: nodes_def)+

lemma iterate_eq: "iterate stack = nodes stack"
proof (induction stack rule: iterate.induct)
  case (1 stack)
  then show ?case by (cases stack) (simp_all add: iterate.simps [of "[]"] iterate.simps [of "_ # _"])
qed

definition info :: "('h, 'n, 'v) node \<Rightarrow> 'h \<times> 'n \<times> 'v" where
  "info nd = (node_hash nd, node_number nd, node_data nd)"

definition items :: "('h, 'n, 'v) node list \<Rightarrow> ('h \<times> 'n \<times> 'v) list" where
  "items ns = map info (nodes ns)"

lemma items_simps [simp]:
  "items [] = []" "items (nd # ns) = info nd # items (node_children nd) @ items ns" "items (ns @ ms) = items ns @ items ms"
  by (simp_all add: items_def)

lemma removed_iter_eq: "removed_iter removed = items (rev removed)"
  by (simp add: removed_iter_def iterate_eq items_def info_def [abs_def])

lemma mset_items_perm: "mset ns = mset ms \<Longrightarrow> mset (items ns) = mset (items ms)"
proof (induction ns arbitrary: ms)
  case (Cons n ns)
  then obtain us vs where ms: "ms = us @ n # vs"
    by (metis list.set_intros(1) set_mset_mset split_list)
  then have "mset (items ns) = mset (items (us @ vs))" using Cons.prems by (intro Cons.IH) simp
  then show ?case by (simp add: ms)
qed simp

section \<open>Balance\<close>

lemma node_list_induct [case_names step]:
  assumes "\<And>h n d cs. (\<And>c. c \<in> set cs \<Longrightarrow> P c) \<Longrightarrow> P (Node h n d cs)"
  shows "P nd"
  using assms by (induction nd rule: node.induct) simp

fun balanced :: "('h, 'n, 'v) node \<Rightarrow> bool" where
  "balanced (Node h n d cs) \<longleftrightarrow> sorted_wrt (\<lambda>a b. depth b \<le> depth a) cs \<and> (\<forall>c \<in> set cs. balanced c)"

lemma mset_sort_by_depth [simp]: "mset (sort_by_depth ns) = mset ns" "set (sort_by_depth ns) = set ns"
  by (simp_all add: sort_by_depth_def)

lemma sorted_sort_by_depth: "sorted_wrt (\<lambda>a b. depth b \<le> depth a) (sort_by_depth ns)"
proof -
  have "sorted (map (\<lambda>n. - int (max_depth n)) (sort_by_depth ns))"
    by (simp add: sort_by_depth_def)
  then show ?thesis by (simp add: sorted_map max_depth_eq)
qed

lemma rebalance_node_info [simp]: "info (rebalance_node nd) = info nd"
  by (cases nd) (simp add: info_def)

lemma rebalance_node_depth [simp]: "depth (rebalance_node nd) = depth nd"
proof (induction nd rule: node_list_induct)
  case (step h n d cs)
  then have "map (\<lambda>c. Suc (depth (rebalance_node c))) (sort_by_depth cs) = map (\<lambda>c. Suc (depth c)) (sort_by_depth cs)"
    by simp
  then have "depth (rebalance_node (Node h n d cs)) = foldr max (map (\<lambda>c. Suc (depth c)) (sort_by_depth cs)) 0"
    by (simp add: comp_def del: map_eq_conv)
  also have "\<dots> = foldr max (map (\<lambda>c. Suc (depth c)) cs) 0"
    by (rule foldr_max_perm) simp
  finally show ?case by simp
qed

lemma rebalance_node_balanced: "balanced (rebalance_node nd)"
  by (induction nd rule: node_list_induct) (auto simp: sorted_wrt_map sorted_sort_by_depth)

lemma mset_items_map:
  "(\<And>c. c \<in> set ns \<Longrightarrow> mset (items [f c]) = mset (items [c])) \<Longrightarrow> mset (items (map f ns)) = mset (items ns)"
proof (induction ns)
  case (Cons n ns)
  have "mset (items [f n]) = mset (items [n])" using Cons.prems by simp
  then have "mset (items [f n] @ items (map f ns)) = mset (items [n] @ items ns)"
    using Cons by (simp del: items_simps(2))
  then show ?case by simp
qed simp

lemma rebalance_node_items: "mset (items [rebalance_node nd]) = mset (items [nd])"
proof (induction nd rule: node_list_induct)
  case (step h n d cs)
  have "mset (items (map rebalance_node (sort_by_depth cs))) = mset (items (sort_by_depth cs))"
    by (rule mset_items_map) (use step in \<open>simp add: items_def\<close>)
  also have "\<dots> = mset (items cs)" by (rule mset_items_perm) simp
  finally show ?case by (simp add: info_def)
qed

lemma rebalance_roots: "roots (rebalance t) = map rebalance_node (sort_by_depth (roots t))"
  "best_finalized_number (rebalance t) = best_finalized_number t"
  by (simp_all add: rebalance_def)

lemma rebalance_items: "mset (items (roots (rebalance t))) = mset (items (roots t))"
proof -
  have "mset (items (map rebalance_node (sort_by_depth (roots t)))) = mset (items (sort_by_depth (roots t)))"
    by (rule mset_items_map) (rule rebalance_node_items)
  also have "\<dots> = mset (items (roots t))" by (rule mset_items_perm) simp
  finally show ?thesis by (simp add: rebalance_roots)
qed

section \<open>Rebuilding a tree from its levels\<close>

text \<open>
  Popping an entry of the output pushes its node onto the children of its parent (or onto the
  roots); \<open>attach\<close> does so for a list of entries.
\<close>

fun attach ::
  "(nat option \<times> ('h, 'n, 'v) node) list \<Rightarrow> (nat option \<times> ('h, 'n, 'v) node) list \<times> ('h, 'n, 'v) node list
     \<Rightarrow> (nat option \<times> ('h, 'n, 'v) node) list \<times> ('h, 'n, 'v) node list" where
  "attach [] (out, rs) = (out, rs)"
| "attach ((None, nd) # es) (out, rs) = attach es (out, rs @ [nd])"
| "attach ((Some p, nd) # es) (out, rs) =
     attach es (out[p := (fst (out ! p), push_child nd (snd (out ! p)))], rs)"

definition below :: "nat \<Rightarrow> (nat option \<times> ('h, 'n, 'v) node) list \<Rightarrow> bool" where
  "below k es \<longleftrightarrow> (\<forall>p nd. (Some p, nd) \<in> set es \<longrightarrow> p < k)"

lemma below_simps [simp]:
  "below k []" "below k ((None, nd) # es) \<longleftrightarrow> below k es" "below k ((Some p, nd) # es) \<longleftrightarrow> p < k \<and> below k es"
  "below k (es @ es') \<longleftrightarrow> below k es \<and> below k es'"
  by (auto simp: below_def)

lemma length_attach: "length (fst (attach es s)) = length (fst s)"
  by (induction es s rule: attach.induct) auto

lemma attach_append: "attach (es @ es') s = attach es' (attach es s)"
  by (induction es s rule: attach.induct) auto

lemma rebuild_snoc:
  "rebuild (out @ [(None, nd)]) rs = rebuild out (rs @ [nd])"
  "rebuild (out @ [(Some p, nd)]) rs = rebuild (out[p := (fst (out ! p), push_child nd (snd (out ! p)))]) rs"
  by (simp_all add: rebuild.simps [of "out @ _"])

lemma rebuild_attach:
  assumes "below (length out) es"
  shows "rebuild (out @ es) rs = (case attach (rev es) (out, rs) of (out', rs') \<Rightarrow> rebuild out' rs')"
  using assms
proof (induction es arbitrary: out rs rule: rev_induct)
  case (snoc e es)
  obtain q nd where e: "e = (q, nd)" by fastforce
  show ?case
  proof (cases q)
    case None
    have "rebuild (out @ es @ [e]) rs = rebuild ((out @ es) @ [(None, nd)]) rs" by (simp add: e None)
    then show ?thesis using snoc by (simp add: rebuild_snoc e None del: append_assoc)
  next
    case (Some p)
    let ?out = "out[p := (fst (out ! p), push_child nd (snd (out ! p)))]"
    have p: "p < length out" using snoc.prems by (simp add: e Some)
    have "rebuild (out @ es @ [e]) rs = rebuild ((out @ es) @ [(Some p, nd)]) rs" by (simp add: e Some)
    also have "\<dots> = rebuild (?out @ es) rs"
      using p unfolding rebuild_snoc by (simp add: list_update_append nth_append)
    finally show ?thesis using snoc.IH [of ?out rs] snoc.prems by (simp add: e Some)
  qed
qed (simp add: rebuild.simps)

lemma rebuild_roots: "rebuild [] rs = rs"
  by (simp add: rebuild.simps)

lemma attach_children:
  assumes "k < length out" "out ! k = (p, nd)"
  shows "attach (map (Pair (Some k)) cs) (out, rs) = (out[k := (p, set_children nd (node_children nd @ cs))], rs)"
  using assms
proof (induction cs arbitrary: out nd)
  case Nil
  then have "out = out[k := (p, nd)]" by (metis list_update_id)
  then show ?case by (cases nd) simp
next
  case (Cons c cs)
  from Cons.IH [of "out[k := (p, push_child c nd)]" "push_child c nd"] Cons.prems show ?case
    by (cases nd) (simp add: push_child_def)
qed

text \<open>
  One level of the walk appends entries to the output (parent, node, children queued) and queues
  their children with the positions of the entries; \<open>T\<close> is what becomes of a queued subtree.
\<close>

type_synonym ('h, 'n, 'v, 'w) level = "(nat option \<times> ('h, 'n, 'w) node \<times> ('h, 'n, 'v) node list) list"

fun queued :: "nat \<Rightarrow> ('h, 'n, 'v, 'w) level \<Rightarrow> (nat option \<times> ('h, 'n, 'v) node) list" where
  "queued k [] = []"
| "queued k ((p, nd, cs) # L) = map (Pair (Some k)) (rev cs) @ queued (Suc k) L"

definition spread ::
  "(('h, 'n, 'v) node \<Rightarrow> ('h, 'n, 'w) node list) \<Rightarrow> (nat option \<times> ('h, 'n, 'v) node) list
     \<Rightarrow> (nat option \<times> ('h, 'n, 'w) node) list" where
  "spread T es = concat (map (\<lambda>(p, c). map (Pair p) (T c)) es)"

definition filled :: "(('h, 'n, 'v) node \<Rightarrow> ('h, 'n, 'w) node list) \<Rightarrow> ('h, 'n, 'v, 'w) level \<Rightarrow> (nat option \<times> ('h, 'n, 'w) node) list" where
  "filled T L = map (\<lambda>(p, nd, cs). (p, set_children nd (node_children nd @ concat (map T cs)))) L"

definition entries :: "('h, 'n, 'v, 'w) level \<Rightarrow> (nat option \<times> ('h, 'n, 'w) node) list" where
  "entries L = map (\<lambda>(p, nd, cs). (p, nd)) L"

lemma spread_simps [simp]:
  "spread T [] = []" "spread T ((p, c) # es) = map (Pair p) (T c) @ spread T es"
  "spread T (es @ es') = spread T es @ spread T es'"
  by (simp_all add: spread_def)

lemma below_queued: "below (k + length L) (queued k L)"
  by (induction k L rule: queued.induct) (auto simp: below_def)

lemma below_spread: "below k es \<Longrightarrow> below k (spread T es)"
  by (force simp: below_def spread_def)

lemma spread_rev_children:
  assumes "\<And>c. rev (T c) = T c"
  shows "rev (spread T (map (Pair q) (rev cs))) = map (Pair q) (concat (map T cs))"
  by (induction cs) (simp_all add: assms rev_map)

lemma attach_level:
  assumes "\<And>c. rev (T c) = T c"
  shows "attach (rev (spread T (queued (length out) L))) (out @ entries L, rs) = (out @ filled T L, rs)"
proof (induction L arbitrary: out)
  case (Cons e L)
  obtain p nd cs where e: "e = (p, nd, cs)" by (cases e)
  from Cons.IH [of "out @ [(p, nd)]"]
  have "attach (rev (spread T (queued (Suc (length out)) L))) (out @ (p, nd) # entries L, rs) =
      (out @ (p, nd) # filled T L, rs)" by simp
  then show ?case using attach_children [of "length out" "out @ (p, nd) # filled T L" p nd "concat (map T cs)" rs]
    by (simp add: e entries_def filled_def attach_append spread_rev_children assms nth_append list_update_append)
qed (simp add: entries_def filled_def)

lemma rebuild_level:
  assumes T: "\<And>c. rev (T c) = T c"
    and nxt: "rebuild out' rs =
      (case attach (rev (spread T (queued (length out) L))) (out @ entries L, rs) of (o1, r1) \<Rightarrow> rebuild o1 r1)"
    and q: "filled T L = spread T q" "below (length out) q"
  shows "rebuild out' rs = (case attach (rev (spread T q)) (out, rs) of (o1, r1) \<Rightarrow> rebuild o1 r1)"
  using nxt rebuild_attach [OF below_spread [OF q(2), of T], of rs] by (simp add: attach_level [OF T] q(1))

section \<open>Map\<close>

fun map_node :: "('h \<Rightarrow> 'n \<Rightarrow> 'v \<Rightarrow> 'w) \<Rightarrow> ('h, 'n, 'v) node \<Rightarrow> ('h, 'n, 'w) node" where
  "map_node g (Node h n d cs) = Node h n (g h n d) (map (map_node g) cs)"

definition map_entries :: "('h \<Rightarrow> 'n \<Rightarrow> 'v \<Rightarrow> 'w) \<Rightarrow> (nat option \<times> ('h, 'n, 'v) node) list \<Rightarrow> ('h, 'n, 'v, 'w) level" where
  "map_entries g q = map (\<lambda>(p, nd). (p, Node (node_hash nd) (node_number nd) (g (node_hash nd) (node_number nd) (node_data nd)) [],
     node_children nd)) q"

lemma map_level_eq:
  assumes "\<And>h n d s. fst (f h n d s) = g h n d"
  shows "\<exists>s'. map_level f s q out nq = (s', out @ entries (map_entries g q), nq @ queued (length out) (map_entries g q))"
proof (induction q arbitrary: s out nq)
  case (Cons e q)
  obtain p nd where e: "e = (p, nd)" by fastforce
  obtain s1 where "f (node_hash nd) (node_number nd) (node_data nd) s = (g (node_hash nd) (node_number nd) (node_data nd), s1)"
    using assms by (metis prod.collapse)
  moreover obtain s2 where "map_level f s1 q (out @ [(p, Node (node_hash nd) (node_number nd) (g (node_hash nd) (node_number nd) (node_data nd)) [])])
      (nq @ map (Pair (Some (length out))) (rev (node_children nd))) =
      (s2, (out @ [(p, Node (node_hash nd) (node_number nd) (g (node_hash nd) (node_number nd) (node_data nd)) [])]) @ entries (map_entries g q),
       (nq @ map (Pair (Some (length out))) (rev (node_children nd))) @ queued (Suc (length out)) (map_entries g q))"
    using Cons.IH [of s1 "out @ [(p, Node (node_hash nd) (node_number nd) (g (node_hash nd) (node_number nd) (node_data nd)) [])]"
      "nq @ map (Pair (Some (length out))) (rev (node_children nd))"] by auto
  ultimately show ?case by (simp add: e map_entries_def entries_def)
qed (simp add: map_entries_def entries_def)

lemma filled_map: "filled (\<lambda>c. [map_node g c]) (map_entries g q) = spread (\<lambda>c. [map_node g c]) q"
proof (induction q)
  case (Cons e q)
  obtain p h n d cs where "e = (p, Node h n d cs)" by (metis node.exhaust prod.collapse)
  with Cons show ?case by (simp add: filled_def map_entries_def spread_def concat_map_singleton)
qed (simp add: filled_def map_entries_def)

lemma map_loop_rebuild:
  assumes g: "\<And>h n d s. fst (f h n d s) = g h n d"
    and "map_loop f s q out = (s', out')" "below (length out) q"
  shows "rebuild out' rs = (case attach (rev (spread (\<lambda>c. [map_node g c]) q)) (out, rs) of (o1, r1) \<Rightarrow> rebuild o1 r1)"
  using assms
proof (induction f s q out rule: map_loop.induct)
  case (1 f s q out)
  show ?case
  proof (cases "q = []")
    case True
    with 1 show ?thesis by (simp add: map_loop.simps [of f s "[]" out])
  next
    case False
    let ?L = "map_entries g q"
    obtain s1 where lv: "map_level f s q out [] = (s1, out @ entries ?L, queued (length out) ?L)"
      using map_level_eq [of f g s q out "[]", OF "1.prems"(1)] by auto
    have "map_loop f s1 (queued (length out) ?L) (out @ entries ?L) = (s', out')"
      using "1.prems"(2) False lv by (simp add: map_loop.simps [of f s q out])
    moreover have "below (length (out @ entries ?L)) (queued (length out) ?L)"
      using below_queued [of "length out" ?L] by (simp add: entries_def)
    ultimately have "rebuild out' rs = (case attach (rev (spread (\<lambda>c. [map_node g c]) (queued (length out) ?L)))
        (out @ entries ?L, rs) of (o1, r1) \<Rightarrow> rebuild o1 r1)"
      using "1.IH" [OF False lv [symmetric] refl "1.prems"(1)] by blast
    then show ?thesis by (rule rebuild_level [rotated]) (use "1.prems"(3) in \<open>simp_all add: filled_map\<close>)
  qed
qed

lemma map_tree_roots:
  assumes "\<And>h n d s. fst (f h n d s) = g h n d" "map_tree t f s = (s', t')"
  shows "roots t' = map (map_node g) (roots t)" "best_finalized_number t' = best_finalized_number t"
proof -
  let ?q = "map (\<lambda>nd. (None, nd)) (rev (roots t))"
  obtain out where l: "map_loop f s ?q [] = (s', out)" and t': "t' = \<lparr>roots = rebuild out [], best_finalized_number = best_finalized_number t\<rparr>"
    using assms(2) by (auto simp: map_tree_def split: prod.splits)
  have "rev (spread (\<lambda>c. [map_node g c]) ?q) = map (\<lambda>nd. (None, map_node g nd)) (roots t)"
    by (simp add: spread_def comp_def concat_map_singleton rev_map)
  moreover have "attach (map (\<lambda>nd. (None, map_node g nd)) ns) ([], rs) = ([], rs @ map (map_node g) ns)" for ns rs
    by (induction ns arbitrary: rs) simp_all
  ultimately have "rebuild out [] = map (map_node g) (roots t)"
    using map_loop_rebuild [OF assms(1) l, where rs = "[]"] by (simp add: below_def rebuild_roots image_iff)
  then show "roots t' = map (map_node g) (roots t)" "best_finalized_number t' = best_finalized_number t"
    by (simp_all add: t')
qed

section \<open>Filter\<close>

fun filter_node :: "('h \<Rightarrow> 'n \<Rightarrow> 'v \<Rightarrow> FilterAction) \<Rightarrow> ('h, 'n, 'v) node \<Rightarrow> ('h, 'n, 'v) node list" where
  "filter_node flt (Node h n d cs) =
     (case flt h n d of
        Remove \<Rightarrow> []
      | KeepTree \<Rightarrow> [Node h n d cs]
      | KeepNode \<Rightarrow> [Node h n d (concat (map (filter_node flt) cs))])"

fun removed_nodes :: "('h \<Rightarrow> 'n \<Rightarrow> 'v \<Rightarrow> FilterAction) \<Rightarrow> ('h, 'n, 'v) node \<Rightarrow> ('h, 'n, 'v) node list" where
  "removed_nodes flt (Node h n d cs) =
     (case flt h n d of
        Remove \<Rightarrow> [Node h n d cs]
      | KeepTree \<Rightarrow> []
      | KeepNode \<Rightarrow> concat (map (removed_nodes flt) cs))"

fun filter_entries :: "('h \<Rightarrow> 'n \<Rightarrow> 'v \<Rightarrow> FilterAction) \<Rightarrow> (nat option \<times> ('h, 'n, 'v) node) list \<Rightarrow> ('h, 'n, 'v, 'v) level" where
  "filter_entries flt [] = []"
| "filter_entries flt ((p, Node h n d cs) # q) =
     (case flt h n d of
        KeepNode \<Rightarrow> (p, Node h n d [], cs) # filter_entries flt q
      | KeepTree \<Rightarrow> (p, Node h n d cs, []) # filter_entries flt q
      | Remove \<Rightarrow> filter_entries flt q)"

lemma rev_filter_node [simp]: "rev (filter_node flt c) = filter_node flt c"
  by (cases c) (simp split: FilterAction.splits)

lemma filter_level_eq:
  "\<exists>removed'. filter_level flt q out removed nq = (out @ entries (filter_entries flt q), removed', nq @ queued (length out) (filter_entries flt q)) \<and>
     mset removed' + mset (concat (map (removed_nodes flt \<circ> snd) (queued (length out) (filter_entries flt q)))) =
       mset removed + mset (concat (map (removed_nodes flt \<circ> snd) q))"
proof (induction flt q arbitrary: out removed nq rule: filter_entries.induct)
  case (2 flt p h n d cs q)
  show ?case
  proof (cases "flt h n d")
    case Remove
    with "2.IH"(1) [of out "removed @ [Node h n d cs]" nq] show ?thesis by auto
  next
    case KeepNode
    have "mset (concat (map (removed_nodes flt \<circ> snd) (map (Pair (Some (length out))) (rev cs)))) =
        mset (concat (map (removed_nodes flt) cs))"
      by (induction cs) (simp_all add: comp_def)
    with KeepNode "2.IH"(2) [of "out @ [(p, Node h n d [])]" removed "nq @ map (Pair (Some (length out))) (rev cs)"]
    show ?thesis by (auto simp: entries_def comp_def)
  next
    case KeepTree
    with "2.IH"(3) [of "out @ [(p, Node h n d cs)]" removed nq] show ?thesis by (auto simp: entries_def)
  qed
qed (simp add: entries_def)

lemma filled_filter: "filled (filter_node flt) (filter_entries flt q) = spread (filter_node flt) q"
  by (induction flt q rule: filter_entries.induct) (auto simp: filled_def split: FilterAction.splits)

lemma filter_loop_rebuild:
  assumes "filter_loop flt q out removed = (out', removed')" "below (length out) q"
  shows "rebuild out' rs = (case attach (rev (spread (filter_node flt) q)) (out, rs) of (o1, r1) \<Rightarrow> rebuild o1 r1)"
    "mset removed' = mset removed + mset (concat (map (removed_nodes flt \<circ> snd) q))"
proof -
  have "rebuild out' rs = (case attach (rev (spread (filter_node flt) q)) (out, rs) of (o1, r1) \<Rightarrow> rebuild o1 r1) \<and>
      mset removed' = mset removed + mset (concat (map (removed_nodes flt \<circ> snd) q))"
    using assms
  proof (induction flt q out removed rule: filter_loop.induct)
    case (1 flt q out removed)
    show ?case
    proof (cases "q = []")
      case True
      with 1 show ?thesis by (simp add: filter_loop.simps [of flt "[]" out removed])
    next
      case False
      let ?L = "filter_entries flt q"
      obtain r1 where lv: "filter_level flt q out removed [] = (out @ entries ?L, r1, queued (length out) ?L)"
        and rm: "mset r1 + mset (concat (map (removed_nodes flt \<circ> snd) (queued (length out) ?L))) =
          mset removed + mset (concat (map (removed_nodes flt \<circ> snd) q))"
        using filter_level_eq [of flt q out removed "[]"] by auto
      have "filter_loop flt (queued (length out) ?L) (out @ entries ?L) r1 = (out', removed')"
        using "1.prems"(1) False lv by (simp add: filter_loop.simps [of flt q out removed])
      moreover have "below (length (out @ entries ?L)) (queued (length out) ?L)"
        using below_queued [of "length out" ?L] by (simp add: entries_def)
      ultimately have ih: "rebuild out' rs = (case attach (rev (spread (filter_node flt) (queued (length out) ?L)))
          (out @ entries ?L, rs) of (o1, r1) \<Rightarrow> rebuild o1 r1)"
        "mset removed' = mset r1 + mset (concat (map (removed_nodes flt \<circ> snd) (queued (length out) ?L)))"
        using "1.IH" [OF False lv [symmetric] refl] by blast+
      have "rebuild out' rs = (case attach (rev (spread (filter_node flt) q)) (out, rs) of (o1, r1) \<Rightarrow> rebuild o1 r1)"
        using ih(1) by (rule rebuild_level [rotated]) (use "1.prems"(2) in \<open>simp_all add: filled_filter\<close>)
      then show ?thesis unfolding ih(2) rm by blast
    qed
  qed
  then show "rebuild out' rs = (case attach (rev (spread (filter_node flt) q)) (out, rs) of (o1, r1) \<Rightarrow> rebuild o1 r1)"
    "mset removed' = mset removed + mset (concat (map (removed_nodes flt \<circ> snd) q))" by blast+
qed

lemma filter_node_items:
  "mset (items (filter_node flt nd)) + mset (items (removed_nodes flt nd)) = mset (items [nd])"
proof (induction nd rule: node_list_induct)
  case (step h n d cs)
  have "mset (items (concat (map (filter_node flt) cs))) + mset (items (concat (map (removed_nodes flt) cs))) = mset (items cs)"
    using step by (induction cs) (auto simp: ac_simps)
  then show ?case by (cases "flt h n d") (simp_all add: info_def)
qed

lemma filter_forest_items:
  "mset (items (concat (map (filter_node flt) ns))) + mset (items (concat (map (removed_nodes flt) ns))) = mset (items ns)"
proof (induction ns)
  case (Cons nd ns)
  with filter_node_items [of flt nd] show ?case by (simp add: ac_simps)
qed simp

lemma drain_filter_loop:
  assumes "filter_loop flt (map (\<lambda>nd. (None, nd)) (rev rs)) [] [] = (retained, removed)"
  shows "rebuild retained [] = concat (map (filter_node flt) rs)"
    "mset removed = mset (concat (map (removed_nodes flt) rs))"
proof -
  let ?q = "map (\<lambda>nd. (None, nd)) (rev rs)"
  have b: "below (length []) ?q" by (auto simp: below_def)
  note l = filter_loop_rebuild [OF assms b]
  have sp: "rev (spread (filter_node flt) ?q) = map (Pair None) (concat (map (filter_node flt) rs))"
    by (induction rs) (simp_all add: rev_map)
  have at: "attach (map (Pair None) ns) ([], ms) = ([], ms @ ns)" for ns ms :: "('a, 'b, 'c) node list"
    by (induction ns arbitrary: ms) simp_all
  show "rebuild retained [] = concat (map (filter_node flt) rs)"
    using l(1) [of "[]"] unfolding sp at by (simp add: rebuild_roots)
  have "mset (concat (map (removed_nodes flt \<circ> snd) ?q)) = mset (concat (map (removed_nodes flt) rs))"
    by (induction rs) (simp_all add: comp_def)
  then show "mset removed = mset (concat (map (removed_nodes flt) rs))" using l(2) by simp
qed

end
