(* ===== verification/Fork_Tree_Search.thy ===== *)
theory Fork_Tree_Search
  imports Fork_Tree_Shape
begin

text \<open>
  The search of the fork tree: the two nested loops over an explicit stack agree with a recursive
  post-order search, and, with a sound ancestry of blocks (the locale \<open>ancestry\<close>), they find the
  deepest ancestor of a block that passes the predicate.
\<close>

section \<open>The search as a recursion\<close>

datatype search = NotDesc | Desc "nat list option"

definition conclude ::
  "('h, 'e) descent \<Rightarrow> 'h \<Rightarrow> ('v \<Rightarrow> bool) \<Rightarrow> ('h, 'n, 'v) node \<Rightarrow> search \<Rightarrow> ('e fork_error, search) result" where
  "conclude isd h P nd r =
     (case r of
        Desc (Some p) \<Rightarrow> Inr (Desc (Some p))
      | Desc None \<Rightarrow> Inr (Desc (if P (node_data nd) then Some [] else None))
      | NotDesc \<Rightarrow>
          (case isd (node_hash nd) h of
             Inl e \<Rightarrow> Inl (Client e)
           | Inr b \<Rightarrow> Inr (if b then Desc (if P (node_data nd) then Some [] else None) else NotDesc)))"

fun find_node :: "('h, 'e) descent \<Rightarrow> 'h \<Rightarrow> 'n::linorder \<Rightarrow> ('v \<Rightarrow> bool) \<Rightarrow> ('h, 'n, 'v) node \<Rightarrow> ('e fork_error, search) result"
  and find_list :: "('h, 'e) descent \<Rightarrow> 'h \<Rightarrow> 'n \<Rightarrow> ('v \<Rightarrow> bool) \<Rightarrow> nat \<Rightarrow> ('h, 'n, 'v) node list \<Rightarrow> ('e fork_error, search) result"
where
  "find_node isd h m P (Node h' n d cs) = res_bind (find_list isd h m P 0 cs) (conclude isd h P (Node h' n d cs))"
| "find_list isd h m P i [] = Inr NotDesc"
| "find_list isd h m P i (c # cs) =
     (if node_number c < m then
        res_bind (find_node isd h m P c) (\<lambda>r.
          case r of
            NotDesc \<Rightarrow> find_list isd h m P (Suc i) cs
          | Desc (Some p) \<Rightarrow> Inr (Desc (Some (i # p)))
          | Desc None \<Rightarrow> Inr (Desc None))
      else find_list isd h m P (Suc i) cs)"

lemma find_node_eq: "find_node isd h m P nd = res_bind (find_list isd h m P 0 (node_children nd)) (conclude isd h P nd)"
  by (cases nd) simp

definition stack_path :: "(('h, 'n, 'v) node \<times> nat) list \<Rightarrow> nat list" where
  "stack_path stack = map (\<lambda>(_, i). i - 1) (rev stack)"

fun loop_view :: "('e, bool \<times> bool \<times> (('h, 'n, 'v) node \<times> nat) list) result \<Rightarrow> ('e, bool \<times> bool \<times> nat list) result" where
  "loop_view (Inl e) = Inl e"
| "loop_view (Inr (found, desc, stack)) = Inr (found, desc, stack_path stack)"

lemma find_loop_eq:
  "loop_view (find_loop isd h m P ((nd, i) # stack) False) =
     (case res_bind (find_list isd h m P i (drop i (node_children nd))) (conclude isd h P nd) of
        Inl e \<Rightarrow> Inl e
      | Inr NotDesc \<Rightarrow> loop_view (find_loop isd h m P stack False)
      | Inr (Desc None) \<Rightarrow> loop_view (find_loop isd h m P stack True)
      | Inr (Desc (Some p)) \<Rightarrow> Inr (True, True, stack_path stack @ p))"
proof (induction "stack_weight ((nd, i) # stack)" arbitrary: nd i stack rule: less_induct)
  case less
  note IH = less [OF stack_weight_child(2)] and IHc = less [OF stack_weight_child(1)]
  show ?case
  proof (cases "i < length (node_children nd)")
    case True
    let ?c = "node_children nd ! i"
    have dr: "drop i (node_children nd) = ?c # drop (Suc i) (node_children nd)"
      using True by (simp add: Cons_nth_drop_Suc)
    show ?thesis
    proof (cases "node_number ?c < m")
      case True': True
      have *: "find_loop isd h m P ((nd, i) # stack) False = find_loop isd h m P ((?c, 0) # (nd, i + 1) # stack) False"
        using True True' by simp
      have c: "loop_view (find_loop isd h m P ((nd, i) # stack) False) =
        (case find_node isd h m P ?c of
           Inl e \<Rightarrow> Inl e
         | Inr NotDesc \<Rightarrow> loop_view (find_loop isd h m P ((nd, i + 1) # stack) False)
         | Inr (Desc None) \<Rightarrow> loop_view (find_loop isd h m P ((nd, i + 1) # stack) True)
         | Inr (Desc (Some p)) \<Rightarrow> Inr (True, True, stack_path ((nd, i + 1) # stack) @ p))"
        unfolding * IHc [OF True] by (simp add: find_node_eq)
      show ?thesis
      proof (cases "find_node isd h m P ?c")
        case (Inl e)
        then show ?thesis unfolding c using True' by (simp add: dr)
      next
        case (Inr r)
        show ?thesis
        proof (cases r)
          case NotDesc
          then show ?thesis unfolding c using IH [OF True] True' Inr by (simp add: dr)
        next
          case (Desc q)
          then show ?thesis unfolding c using True' Inr
            by (cases q) (simp_all add: dr conclude_def stack_path_def)
        qed
      qed
    next
      case False
      then show ?thesis using True IH [OF True] by (simp add: dr)
    qed
  next
    case False
    then show ?thesis by (auto simp: conclude_def split: sum.splits bool.splits)
  qed
qed

lemma find_loop_done: "loop_view (find_loop isd h m P [] b) = Inr (False, b, [])"
  by (simp add: stack_path_def)

lemma stack_path_Nil: "stack_path [] = []"
  by (simp add: stack_path_def)

lemma find_roots_eq:
  "find_roots isd h m P rs k =
     res_bind (find_list isd h m P k (drop k rs)) (\<lambda>r. Inr (case r of Desc q \<Rightarrow> q | NotDesc \<Rightarrow> None))"
proof (induction isd h m P rs k rule: find_roots.induct)
  case (1 isd h m P rs k)
  show ?case
  proof (cases "k < length rs")
    case True
    have dr: "drop k rs = rs ! k # drop (Suc k) rs" using True by (simp add: Cons_nth_drop_Suc)
    show ?thesis
    proof (cases "m \<le> node_number (rs ! k)")
      case True': True
      then have "find_list isd h m P k (drop k rs) = find_list isd h m P (Suc k) (drop (Suc k) rs)" by (auto simp: dr)
      then show ?thesis using 1(1) True True' by (simp add: find_roots.simps [of isd h m P rs k])
    next
      case False
      have view: "loop_view (find_loop isd h m P [(rs ! k, 0)] False) =
        (case find_node isd h m P (rs ! k) of
           Inl e \<Rightarrow> Inl e
         | Inr NotDesc \<Rightarrow> Inr (False, False, [])
         | Inr (Desc None) \<Rightarrow> Inr (False, True, [])
         | Inr (Desc (Some p)) \<Rightarrow> Inr (True, True, p))"
        unfolding find_loop_eq find_loop_done stack_path_Nil append_Nil drop_0 find_node_eq ..
      show ?thesis
      proof (cases "find_loop isd h m P [(rs ! k, 0)] False")
        case (Inl e)
        then show ?thesis using True False view
          by (auto simp: find_roots.simps [of isd h m P rs k] dr split: sum.splits search.splits option.splits)
      next
        case (Inr r)
        obtain found desc stack where r: "r = (found, desc, stack)" by (metis prod_cases3)
        then show ?thesis using 1(2) [OF True False Inr r [symmetric] refl] True False view Inr
          by (auto simp: find_roots.simps [of isd h m P rs k] dr stack_path_def split: sum.splits search.splits option.splits)
      qed
    qed
  next
    case False
    then show ?thesis by (simp add: find_roots.simps [of isd h m P rs k])
  qed
qed

section \<open>Sound ancestry\<close>

text \<open>
  What the fork tree relies on: on the known blocks the closure answers with a strict order that
  respects the block numbers and in which the ancestors of a block are linearly ordered.
\<close>

locale ancestry =
  fixes isd :: "'h \<Rightarrow> 'h \<Rightarrow> ('e, bool) result"
    and anc :: "'h \<Rightarrow> 'h \<Rightarrow> bool" and num :: "'h \<Rightarrow> 'n::linorder" and K :: "'h set"
  assumes isd_anc: "a \<in> K \<Longrightarrow> b \<in> K \<Longrightarrow> isd a b = Inr (anc a b)"
    and anc_trans: "anc a b \<Longrightarrow> anc b c \<Longrightarrow> anc a c"
    and anc_num: "anc a b \<Longrightarrow> num a < num b"
    and anc_linear: "anc a c \<Longrightarrow> anc b c \<Longrightarrow> a = b \<or> anc a b \<or> anc b a"
begin

lemma anc_irrefl [simp]: "\<not> anc a a"
  using anc_num by blast

lemma anc_asym: "anc a b \<Longrightarrow> \<not> anc b a"
  using anc_trans anc_irrefl by blast

end

text \<open>
  A tree that is consistent with the ancestry: children descend from their parent, siblings are
  unrelated, hashes are known and carry their numbers.
\<close>

definition siblings_ok :: "('h \<Rightarrow> 'h \<Rightarrow> bool) \<Rightarrow> ('h, 'n, 'v) node list \<Rightarrow> bool" where
  "siblings_ok anc ns \<longleftrightarrow> distinct (map node_hash ns) \<and>
     (\<forall>a \<in> set ns. \<forall>b \<in> set ns. \<not> anc (node_hash a) (node_hash b))"

fun node_ok :: "('h \<Rightarrow> 'h \<Rightarrow> bool) \<Rightarrow> ('h \<Rightarrow> 'n) \<Rightarrow> 'h set \<Rightarrow> ('h, 'n, 'v) node \<Rightarrow> bool" where
  "node_ok anc num K (Node h n d cs) \<longleftrightarrow> h \<in> K \<and> n = num h \<and> siblings_ok anc cs \<and>
     (\<forall>c \<in> set cs. anc h (node_hash c) \<and> node_ok anc num K c)"

definition forest_ok :: "('h \<Rightarrow> 'h \<Rightarrow> bool) \<Rightarrow> ('h \<Rightarrow> 'n) \<Rightarrow> 'h set \<Rightarrow> ('h, 'n, 'v) node list \<Rightarrow> bool" where
  "forest_ok anc num K ns \<longleftrightarrow> siblings_ok anc ns \<and> (\<forall>nd \<in> set ns. node_ok anc num K nd)"

lemma node_ok_iff:
  "node_ok anc num K nd \<longleftrightarrow> node_hash nd \<in> K \<and> node_number nd = num (node_hash nd) \<and>
     forest_ok anc num K (node_children nd) \<and> (\<forall>c \<in> set (node_children nd). anc (node_hash nd) (node_hash c))"
  by (cases nd) (auto simp: forest_ok_def)

lemma forest_ok_Cons:
  "forest_ok anc num K (nd # ns) \<Longrightarrow> node_ok anc num K nd" "forest_ok anc num K (nd # ns) \<Longrightarrow> forest_ok anc num K ns"
  by (auto simp: forest_ok_def siblings_ok_def)

text \<open>The ancestors of a block in the tree, from a root down.\<close>

fun lineage_node :: "('h \<Rightarrow> 'h \<Rightarrow> bool) \<Rightarrow> 'h \<Rightarrow> ('h, 'n, 'v) node \<Rightarrow> ('h, 'n, 'v) node list" where
  "lineage_node anc h (Node h' n d cs) =
     (if anc h' h then Node h' n d cs # concat (map (lineage_node anc h) cs) else [])"

definition lineage :: "('h \<Rightarrow> 'h \<Rightarrow> bool) \<Rightarrow> 'h \<Rightarrow> ('h, 'n, 'v) node list \<Rightarrow> ('h, 'n, 'v) node list" where
  "lineage anc h ns = concat (map (lineage_node anc h) ns)"

lemma lineage_simps [simp]:
  "lineage anc h [] = []"
  "lineage anc h (nd # ns) = (if anc (node_hash nd) h then nd # lineage anc h (node_children nd) else []) @ lineage anc h ns"
  "lineage anc h (ns @ ms) = lineage anc h ns @ lineage anc h ms"
  by (cases nd, auto simp: lineage_def)+

lemma lineage_empty_iff: "lineage anc h ns = [] \<longleftrightarrow> (\<forall>nd \<in> set ns. \<not> anc (node_hash nd) h)"
  by (induction ns) auto

context ancestry
begin

lemma descendants:
  assumes "node_ok anc num K nd" "x \<in> set (nodes [nd])"
  shows "(x = nd \<or> anc (node_hash nd) (node_hash x)) \<and> node_ok anc num K x"
  using assms
proof (induction nd rule: node_list_induct)
  case (step h n d cs)
  show ?case
  proof (cases "x = Node h n d cs")
    case False
    then obtain c where c: "c \<in> set cs" "x \<in> set (nodes [c])"
      using step.prems(2) by (auto simp: nodes_def)
    have ok: "node_ok anc num K c" "anc h (node_hash c)" using step.prems(1) c(1) by auto
    from step.IH [OF c(1) ok(1) c(2)] ok(2) show ?thesis using anc_trans by auto
  qed (use step in simp)
qed

lemma forest_descendants:
  assumes "forest_ok anc num K ns" "x \<in> set (nodes ns)"
  obtains nd where "nd \<in> set ns" "x \<in> set (nodes [nd])" "x = nd \<or> anc (node_hash nd) (node_hash x)" "node_ok anc num K x"
proof -
  from assms(2) obtain nd where nd: "nd \<in> set ns" "x \<in> set (nodes [nd])" by (auto simp: nodes_def)
  then have "node_ok anc num K nd" using assms(1) by (auto simp: forest_ok_def)
  from descendants [OF this nd(2)] nd that show ?thesis by blast
qed

lemma one_ancestor:
  assumes "siblings_ok anc ns" "a \<in> set ns" "b \<in> set ns" "anc (node_hash a) h" "anc (node_hash b) h"
  shows "a = b"
proof -
  from anc_linear [OF assms(4,5)] assms(1-3) have "node_hash a = node_hash b" by (auto simp: siblings_ok_def)
  then show ?thesis using assms(1-3) by (auto simp: siblings_ok_def distinct_map inj_on_def)
qed

lemma lineage_Cons_anc:
  assumes "siblings_ok anc (c # cs)" "anc (node_hash c) h"
  shows "lineage anc h cs = []"
  unfolding lineage_empty_iff
proof
  fix b assume b: "b \<in> set cs"
  show "\<not> anc (node_hash b) h"
  proof
    assume "anc (node_hash b) h"
    then have "c = b" using one_ancestor [OF assms(1), of c b] assms(2) b by simp
    then show False using assms(1) b by (auto simp: siblings_ok_def)
  qed
qed

lemma lineage_set_list:
  "(\<And>c. c \<in> set cs \<Longrightarrow> set (lineage_node anc h c) = {x \<in> set (preorder c). anc (node_hash x) h}) \<Longrightarrow>
     set (lineage anc h cs) = {x \<in> set (nodes cs). anc (node_hash x) h}"
  unfolding lineage_def nodes_def by auto

lemma lineage_set_node:
  "node_ok anc num K nd \<Longrightarrow> set (lineage_node anc h nd) = {x \<in> set (preorder nd). anc (node_hash x) h}"
proof (induction nd rule: node_list_induct)
  case (step h' n d cs)
  show ?case
  proof (cases "anc h' h")
    case True
    have "set (lineage anc h cs) = {x \<in> set (nodes cs). anc (node_hash x) h}"
      by (rule lineage_set_list) (use step in auto)
    then show ?thesis using True by (auto simp: lineage_def nodes_def)
  next
    case False
    have "\<not> anc (node_hash x) h" if "x \<in> set (nodes [Node h' n d cs])" for x
      using descendants [OF step.prems that] False anc_trans by auto
    then show ?thesis using False by (auto simp: nodes_def)
  qed
qed

lemma lineage_set:
  "forest_ok anc num K ns \<Longrightarrow> set (lineage anc h ns) = {x \<in> set (nodes ns). anc (node_hash x) h}"
  by (rule lineage_set_list) (auto simp: forest_ok_def lineage_set_node)

end

section \<open>The search finds the deepest ancestor\<close>

text \<open>The nodes along a path of indices.\<close>

fun path_nodes :: "('h, 'n, 'v) node list \<Rightarrow> nat list \<Rightarrow> ('h, 'n, 'v) node list option" where
  "path_nodes ns [] = Some []"
| "path_nodes ns (i # p) =
     Option.bind (nth_opt ns i) (\<lambda>nd. map_option (Cons nd) (path_nodes (node_children nd) p))"

lemma node_at_path_nodes: "path_nodes ns p = Some l \<Longrightarrow> p \<noteq> [] \<Longrightarrow> l \<noteq> [] \<and> node_at ns p = Some (last l)"
  by (induction ns p arbitrary: l rule: node_at.induct) (fastforce split: bind_splits)+

definition best_on :: "('v \<Rightarrow> bool) \<Rightarrow> ('h, 'n, 'v) node list \<Rightarrow> ('h, 'n, 'v) node list option \<Rightarrow> bool" where
  "best_on P l found \<longleftrightarrow> (case found of
     None \<Rightarrow> \<forall>x \<in> set l. \<not> P (node_data x)
   | Some l1 \<Rightarrow> l1 \<noteq> [] \<and> P (node_data (last l1)) \<and> (\<exists>l2. l = l1 @ l2 \<and> (\<forall>x \<in> set l2. \<not> P (node_data x))))"

lemma best_on_Cons:
  "best_on P l (Some l1) \<Longrightarrow> best_on P (nd # l) (Some (nd # l1))"
  "best_on P l None \<Longrightarrow> best_on P (nd # l) (if P (node_data nd) then Some [nd] else None)"
  by (auto simp: best_on_def)

definition list_spec :: "('h \<Rightarrow> 'h \<Rightarrow> bool) \<Rightarrow> 'h \<Rightarrow> ('v \<Rightarrow> bool) \<Rightarrow> nat \<Rightarrow> ('h, 'n, 'v) node list \<Rightarrow> search \<Rightarrow> bool" where
  "list_spec anc h P i ns r \<longleftrightarrow> (case r of
     NotDesc \<Rightarrow> lineage anc h ns = []
   | Desc None \<Rightarrow> lineage anc h ns \<noteq> [] \<and> best_on P (lineage anc h ns) None
   | Desc (Some p) \<Rightarrow> (\<exists>j q l1. p = (i + j) # q \<and> path_nodes ns (j # q) = Some l1 \<and> best_on P (lineage anc h ns) (Some l1)))"

definition node_spec :: "('h \<Rightarrow> 'h \<Rightarrow> bool) \<Rightarrow> 'h \<Rightarrow> ('v \<Rightarrow> bool) \<Rightarrow> ('h, 'n, 'v) node \<Rightarrow> search \<Rightarrow> bool" where
  "node_spec anc h P nd r \<longleftrightarrow> (case r of
     NotDesc \<Rightarrow> \<not> anc (node_hash nd) h
   | Desc None \<Rightarrow> anc (node_hash nd) h \<and> best_on P (nd # lineage anc h (node_children nd)) None
   | Desc (Some p) \<Rightarrow> anc (node_hash nd) h \<and> (\<exists>l1. path_nodes (node_children nd) p = Some l1 \<and>
       best_on P (nd # lineage anc h (node_children nd)) (Some (nd # l1))))"

context ancestry
begin

lemma find_node_spec:
  assumes ok: "node_ok anc num K nd" and h: "h \<in> K"
    and r: "find_list isd h (num h) P 0 (node_children nd) = Inr r" and spec: "list_spec anc h P 0 (node_children nd) r"
  shows "\<exists>r. find_node isd h (num h) P nd = Inr r \<and> node_spec anc h P nd r"
proof -
  let ?cs = "node_children nd"
  have isd: "isd (node_hash nd) h = Inr (anc (node_hash nd) h)"
    using ok h by (intro isd_anc) (auto simp: node_ok_iff)
  show ?thesis
  proof (cases r)
    case NotDesc
    then show ?thesis using r spec isd
      by (auto simp: find_node_eq conclude_def best_on_def node_spec_def list_spec_def)
  next
    case (Desc q)
    then have "lineage anc h ?cs \<noteq> []" using spec by (cases q) (auto simp: list_spec_def best_on_def)
    then obtain c where "c \<in> set ?cs" "anc (node_hash c) h" by (auto simp: lineage_empty_iff)
    then have a: "anc (node_hash nd) h" using ok anc_trans by (auto simp: node_ok_iff)
    show ?thesis
    proof (cases q)
      case None
      then show ?thesis using r spec Desc a best_on_Cons(2) [of P "lineage anc h ?cs" nd]
        by (auto simp: find_node_eq conclude_def node_spec_def list_spec_def)
    next
      case (Some p)
      then show ?thesis using r spec Desc a best_on_Cons(1) [of P "lineage anc h ?cs" _ nd]
        by (auto simp: find_node_eq conclude_def node_spec_def list_spec_def)
    qed
  qed
qed

lemma find_list_step:
  assumes ok: "forest_ok anc num K (c # cs)" and c: "find_node isd h (num h) P c = Inr r" "node_spec anc h P c r"
    and cs: "find_list isd h (num h) P (Suc i) cs = Inr r'" "list_spec anc h P (Suc i) cs r'"
  shows "\<exists>r. find_list isd h (num h) P i (c # cs) = Inr r \<and> list_spec anc h P i (c # cs) r"
proof (cases "anc (node_hash c) h")
  case False
  then have "r = NotDesc" using c(2) by (cases r) (auto simp: node_spec_def split: option.splits)
  moreover have "list_spec anc h P i (c # cs) r'"
  proof (cases "\<exists>p. r' = Desc (Some p)")
    case True
    then obtain j q l1 where "r' = Desc (Some ((Suc i + j) # q))" "path_nodes cs (j # q) = Some l1"
      "best_on P (lineage anc h cs) (Some l1)" using cs(2) by (auto simp: list_spec_def)
    then show ?thesis using False
      by (auto simp: list_spec_def nth_opt_def split: if_splits intro!: exI [of _ "Suc j"])
  qed (use cs(2) False in \<open>auto simp: list_spec_def split: search.splits option.splits\<close>)
  ultimately show ?thesis using c(1) cs(1) by simp
next
  case True
  have n: "node_number c < num h" using anc_num [OF True] forest_ok_Cons(1) [OF ok] by (auto simp: node_ok_iff)
  have nil: "lineage anc h cs = []" using lineage_Cons_anc [OF _ True] ok by (auto simp: forest_ok_def)
  obtain q where q: "r = Desc q" using c(2) True by (cases r) (auto simp: node_spec_def)
  show ?thesis
  proof (cases q)
    case None
    then show ?thesis using n c nil True q by (auto simp: list_spec_def node_spec_def)
  next
    case (Some p)
    with c(2) q obtain l1 where "path_nodes (node_children c) p = Some l1"
      "best_on P (c # lineage anc h (node_children c)) (Some (c # l1))" by (auto simp: node_spec_def)
    then show ?thesis using n c(1) nil True q Some
      by (auto simp: list_spec_def nth_opt_def intro!: exI [of _ "0::nat"])
  qed
qed

lemma find_list_spec:
  assumes nodes: "\<And>c. c \<in> set cs \<Longrightarrow> node_ok anc num K c \<Longrightarrow> \<exists>r. find_node isd h (num h) P c = Inr r \<and> node_spec anc h P c r"
    and "forest_ok anc num K cs"
  shows "\<exists>r. find_list isd h (num h) P i cs = Inr r \<and> list_spec anc h P i cs r"
  using assms
proof (induction cs arbitrary: i)
  case (Cons c cs)
  obtain r where "find_node isd h (num h) P c = Inr r" "node_spec anc h P c r"
    using Cons.prems(1) [of c] forest_ok_Cons(1) [OF Cons.prems(2)] by auto
  moreover obtain r' where "find_list isd h (num h) P (Suc i) cs = Inr r'" "list_spec anc h P (Suc i) cs r'"
    using Cons.IH [of "Suc i"] Cons.prems forest_ok_Cons(2) [OF Cons.prems(2)] by auto
  ultimately show ?case using find_list_step [OF Cons.prems(2)] by blast
qed (simp add: list_spec_def)

lemma find_node_spec_all:
  assumes "h \<in> K"
  shows "node_ok anc num K nd \<Longrightarrow> \<exists>r. find_node isd h (num h) P nd = Inr r \<and> node_spec anc h P nd r"
proof (induction nd rule: node_list_induct)
  case (step h' n d cs)
  have "forest_ok anc num K cs" using step.prems by (simp add: forest_ok_def)
  then obtain r where "find_list isd h (num h) P 0 cs = Inr r" "list_spec anc h P 0 cs r"
    using find_list_spec [of cs h P 0] step.IH by blast
  then show ?case using find_node_spec [OF step.prems assms, of P r] by simp
qed

lemma find_index_spec:
  assumes "forest_ok anc num K (roots t)" "h \<in> K"
  shows "\<exists>mp. find_node_index_where t h (num h) isd P = Inr mp \<and>
    (case mp of
       None \<Rightarrow> best_on P (lineage anc h (roots t)) None
     | Some p \<Rightarrow> p \<noteq> [] \<and> (\<exists>l1. path_nodes (roots t) p = Some l1 \<and> best_on P (lineage anc h (roots t)) (Some l1)))"
proof -
  from find_list_spec [of "roots t" h P 0] find_node_spec_all [OF assms(2)] assms(1)
  obtain r where r: "find_list isd h (num h) P 0 (roots t) = Inr r" "list_spec anc h P 0 (roots t) r" by blast
  then show ?thesis
    by (cases r) (auto simp: find_node_index_where_def find_roots_eq list_spec_def best_on_def split: option.splits)
qed

end

end
