(* ===== verification/Fork_Tree_Ops.thy ===== *)
theory Fork_Tree_Ops
  imports Fork_Tree_Search
begin

text \<open>
  The operations that change the fork tree, with a sound ancestry of blocks: import keeps the tree
  consistent, finalization leaves exactly the descendants of the finalized block, and pruning
  exactly the branch of the given block below its new root.
\<close>

section \<open>Consistent forests\<close>

lemma forest_okD: "forest_ok anc num K ns \<Longrightarrow> nd \<in> set ns \<Longrightarrow> node_ok anc num K nd"
  "forest_ok anc num K ns \<Longrightarrow> siblings_ok anc ns"
  by (simp_all add: forest_ok_def)

lemma node_okD: "node_ok anc num K nd \<Longrightarrow> forest_ok anc num K (node_children nd)"
  "node_ok anc num K nd \<Longrightarrow> c \<in> set (node_children nd) \<Longrightarrow> anc (node_hash nd) (node_hash c)"
  "node_ok anc num K nd \<Longrightarrow> node_hash nd \<in> K" "node_ok anc num K nd \<Longrightarrow> node_number nd = num (node_hash nd)"
  by (simp_all add: node_ok_iff [of anc num K nd])

lemma root_in_nodes: "x \<in> set ns \<Longrightarrow> x \<in> set (nodes ns)"
  by (induction ns) auto

lemma subtree_subset: "x \<in> set (nodes ns) \<Longrightarrow> set (nodes [x]) \<subseteq> set (nodes ns)"
proof (induction "forest_count ns" arbitrary: ns rule: less_induct)
  case less
  then obtain a where a: "a \<in> set ns" "x \<in> set (nodes [a])" by (auto simp: nodes_def)
  have sub: "set (nodes [a]) \<subseteq> set (nodes ns)" using a(1) by (auto simp: nodes_def)
  have "set (nodes [x]) \<subseteq> set (nodes [a])"
  proof (cases "x = a")
    case False
    then have "x \<in> set (nodes (node_children a))" using a(2) by simp
    moreover have "forest_count (node_children a) < forest_count ns"
      using order.strict_trans2 [OF forest_count_children member_le_sum_list [of "node_count a" "map node_count ns"]] a(1) by simp
    ultimately have "set (nodes [x]) \<subseteq> set (nodes (node_children a))" using less.hyps by blast
    then show ?thesis by auto
  qed simp
  with sub show ?case by blast
qed

lemma siblings_ok_perm: "mset ns = mset ms \<Longrightarrow> siblings_ok anc ns = siblings_ok anc ms"
proof -
  assume eq: "mset ns = mset ms"
  then have "mset (map node_hash ns) = mset (map node_hash ms)" by simp
  then have "distinct (map node_hash ns) = distinct (map node_hash ms)" by (rule mset_eq_imp_distinct_iff)
  moreover have "set ns = set ms" using eq by (rule mset_eq_setD)
  ultimately show ?thesis by (simp add: siblings_ok_def)
qed

lemma forest_ok_perm: "mset ns = mset ms \<Longrightarrow> forest_ok anc num K ns = forest_ok anc num K ms"
  using siblings_ok_perm [of ns ms anc] mset_eq_setD [of ns ms] by (simp add: forest_ok_def)

lemma nodes_perm: "mset ns = mset ms \<Longrightarrow> mset (nodes ns) = mset (nodes ms)"
proof (induction ns arbitrary: ms)
  case (Cons n ns)
  then obtain us vs where ms: "ms = us @ n # vs"
    by (metis list.set_intros(1) set_mset_mset split_list)
  then have "mset (nodes ns) = mset (nodes (us @ vs))" using Cons.prems by (intro Cons.IH) simp
  then show ?case by (simp add: ms)
qed simp

lemma rebalance_node_hash [simp]: "node_hash (rebalance_node nd) = node_hash nd"
  by (cases nd) simp

lemma rebalance_node_number [simp]: "node_number (rebalance_node nd) = node_number nd"
  by (cases nd) simp

lemma siblings_ok_alt:
  "siblings_ok anc ns \<longleftrightarrow> distinct (map node_hash ns) \<and>
     (\<forall>x \<in> set (map node_hash ns). \<forall>y \<in> set (map node_hash ns). \<not> anc x y)"
  by (auto simp: siblings_ok_def)

lemma siblings_ok_hashes: "map node_hash ns = map node_hash ms \<Longrightarrow> siblings_ok anc ns = siblings_ok anc ms"
  by (simp only: siblings_ok_alt)

lemma siblings_ok_rebalance: "siblings_ok anc (map rebalance_node (sort_by_depth ns)) = siblings_ok anc ns"
proof -
  have "siblings_ok anc (map rebalance_node (sort_by_depth ns)) = siblings_ok anc (sort_by_depth ns)"
    by (rule siblings_ok_hashes) simp
  also have "\<dots> = siblings_ok anc ns" by (rule siblings_ok_perm) simp
  finally show ?thesis .
qed

lemma node_ok_rebalance: "node_ok anc num K (rebalance_node nd) = node_ok anc num K nd"
proof (induction nd rule: node_list_induct)
  case (step h n d cs)
  then show ?case using siblings_ok_rebalance [of anc cs] by auto
qed

lemma forest_ok_rebalance: "forest_ok anc num K (roots (rebalance t)) = forest_ok anc num K (roots t)"
  by (simp add: forest_ok_def rebalance_roots siblings_ok_rebalance node_ok_rebalance)

context ancestry
begin

lemma subtrees_unrelated:
  assumes "siblings_ok anc ns" "a \<in> set ns" "b \<in> set ns" "a \<noteq> b"
    and "x = node_hash a \<or> anc (node_hash a) x" "y = node_hash b \<or> anc (node_hash b) y"
  shows "x \<noteq> y \<and> \<not> anc x y"
proof -
  have ne: "node_hash a \<noteq> node_hash b" using assms(1-4) by (auto simp: siblings_ok_def distinct_map inj_on_def)
  have no: "\<not> anc (node_hash a) (node_hash b)" "\<not> anc (node_hash b) (node_hash a)"
    using assms(1-3) by (auto simp: siblings_ok_def)
  have False if "x = y \<or> anc x y"
  proof -
    have "node_hash a = y \<or> anc (node_hash a) y" using that assms(5) anc_trans by blast
    then show False using assms(6) anc_linear [of "node_hash a" y "node_hash b"] ne no by blast
  qed
  then show ?thesis by blast
qed

lemma forest_hash_inj:
  assumes "forest_ok anc num K ns" "x \<in> set (nodes ns)" "y \<in> set (nodes ns)" "node_hash x = node_hash y"
  shows "x = y"
proof -
  have node: "node_ok anc num K nd \<Longrightarrow> x \<in> set (nodes [nd]) \<Longrightarrow> y \<in> set (nodes [nd]) \<Longrightarrow> node_hash x = node_hash y \<Longrightarrow> x = y"
    for nd x y :: "('h, 'n, 'v) node"
  proof (induction nd rule: node_list_induct)
    case (step h n d cs)
    show ?case
    proof (cases "node_hash x = h")
      case True
      then show ?thesis using descendants [OF step.prems(1) step.prems(2)] descendants [OF step.prems(1) step.prems(3)] step.prems(4)
        by auto
    next
      case False
      then have "x \<in> set (nodes cs)" "y \<in> set (nodes cs)" using step.prems by auto
      then obtain a b where ab: "a \<in> set cs" "x \<in> set (nodes [a])" "b \<in> set cs" "y \<in> set (nodes [b])"
        by (auto simp: nodes_def)
      have ok: "node_ok anc num K a" "node_ok anc num K b" "siblings_ok anc cs" using step.prems(1) ab by auto
      have "a = b"
      proof (rule ccontr)
        assume "a \<noteq> b"
        with subtrees_unrelated [OF ok(3) ab(1,3) this, of "node_hash x" "node_hash y"] step.prems(4)
          descendants [OF ok(1) ab(2)] descendants [OF ok(2) ab(4)] show False by auto
      qed
      then show ?thesis using step.IH [OF ab(1) ok(1) ab(2)] ab(4) step.prems(4) by simp
    qed
  qed
  from assms(1,2) obtain a where a: "a \<in> set ns" "x \<in> set (nodes [a])" "x = a \<or> anc (node_hash a) (node_hash x)"
    by (rule forest_descendants)
  from assms(1,3) obtain b where b: "b \<in> set ns" "y \<in> set (nodes [b])" "y = b \<or> anc (node_hash b) (node_hash y)"
    by (rule forest_descendants)
  have ok: "node_ok anc num K a" "siblings_ok anc ns" using assms(1) a(1) by (auto simp: forest_ok_def)
  have "a = b"
  proof (rule ccontr)
    assume "a \<noteq> b"
    with subtrees_unrelated [OF ok(2) a(1) b(1) this, of "node_hash x" "node_hash y"] a(3) b(3) assms(4) show False by auto
  qed
  then show ?thesis using node [OF ok(1) a(2)] b(2) assms(4) by blast
qed

text \<open>Opening a root: its children take its place.\<close>

lemma forest_ok_open:
  assumes "forest_ok anc num K (a # ns)"
  shows "forest_ok anc num K (ns @ node_children a)"
proof -
  let ?cs = "node_children a"
  have a: "node_ok anc num K a" "forest_ok anc num K ns" "siblings_ok anc (a # ns)"
    using assms by (auto simp: forest_ok_def siblings_ok_def)
  have cs: "forest_ok anc num K ?cs" "\<And>c. c \<in> set ?cs \<Longrightarrow> anc (node_hash a) (node_hash c)"
    using a(1) by (auto simp: node_ok_iff)
  have un: "node_hash c \<noteq> node_hash b \<and> \<not> anc (node_hash c) (node_hash b)"
    "node_hash c \<noteq> node_hash b \<and> \<not> anc (node_hash b) (node_hash c)" if "c \<in> set ?cs" "b \<in> set ns" for b c
  proof -
    have ne: "a \<noteq> b" "b \<noteq> a" using a(3) that(2) by (auto simp: siblings_ok_def)
    have c: "node_hash c = node_hash a \<or> anc (node_hash a) (node_hash c)" using cs(2) [OF that(1)] by blast
    have m: "a \<in> set (a # ns)" "b \<in> set (a # ns)" using that(2) by simp_all
    show "node_hash c \<noteq> node_hash b \<and> \<not> anc (node_hash c) (node_hash b)"
      using subtrees_unrelated [OF a(3) m ne(1) c] by blast
    show "node_hash c \<noteq> node_hash b \<and> \<not> anc (node_hash b) (node_hash c)"
      using subtrees_unrelated [OF a(3) m(2,1) ne(2) _ c] by metis
  qed
  have "siblings_ok anc (ns @ ?cs)"
    unfolding siblings_ok_def
  proof (intro conjI ballI)
    have "node_hash ` set ns \<inter> node_hash ` set ?cs = {}" using un by force
    then show "distinct (map node_hash (ns @ ?cs))"
      using a(2) cs(1) by (simp add: forest_ok_def siblings_ok_def)
    show "\<not> anc (node_hash x) (node_hash y)" if "x \<in> set (ns @ ?cs)" "y \<in> set (ns @ ?cs)" for x y
    proof -
      have "\<not> anc (node_hash x) (node_hash y)" if "x \<in> set ns" "y \<in> set ns"
        using a(2) that by (simp add: forest_ok_def siblings_ok_def)
      moreover have "\<not> anc (node_hash x) (node_hash y)" if "x \<in> set ?cs" "y \<in> set ?cs"
        using cs(1) that by (simp add: forest_ok_def siblings_ok_def)
      ultimately show ?thesis using un that unfolding set_append by blast
    qed
  qed
  then show ?thesis using a(2) cs(1) unfolding forest_ok_def set_append by blast
qed

end

section \<open>Import\<close>

text \<open>The insertion that import performs, by recursion: below the ancestor among the siblings, if any.\<close>

fun ins_node :: "('h \<Rightarrow> 'h \<Rightarrow> bool) \<Rightarrow> ('h, 'n, 'v) node \<Rightarrow> ('h, 'n, 'v) node \<Rightarrow> ('h, 'n, 'v) node" where
  "ins_node anc new (Node h n d cs) =
     Node h n d
       (if \<exists>c \<in> set cs. anc (node_hash c) (node_hash new)
        then map (\<lambda>c. if anc (node_hash c) (node_hash new) then ins_node anc new c else c) cs
        else cs @ [new])"

definition ins_forest :: "('h \<Rightarrow> 'h \<Rightarrow> bool) \<Rightarrow> ('h, 'n, 'v) node \<Rightarrow> ('h, 'n, 'v) node list \<Rightarrow> ('h, 'n, 'v) node list" where
  "ins_forest anc new cs =
     (if \<exists>c \<in> set cs. anc (node_hash c) (node_hash new)
      then map (\<lambda>c. if anc (node_hash c) (node_hash new) then ins_node anc new c else c) cs
      else cs @ [new])"

lemma ins_node_eq: "ins_node anc new nd = set_children nd (ins_forest anc new (node_children nd))"
  by (cases nd) (simp add: ins_forest_def)

lemma ins_node_hash [simp]: "node_hash (ins_node anc new nd) = node_hash nd"
  by (cases nd) simp

lemma set_children_simps [simp]:
  "node_hash (set_children nd cs) = node_hash nd" "node_number (set_children nd cs) = node_number nd"
  "node_data (set_children nd cs) = node_data nd" "node_children (set_children nd cs) = cs"
  by (cases nd, simp)+

lemma modify_at_const: "modify_at p (\<lambda>_. f (children_at p ns)) ns = modify_at p f ns"
  by (induction p ns rule: children_at.induct) (auto split: option.splits)

context ancestry
begin

lemma lineage_split:
  assumes "siblings_ok anc ns" "nd \<in> set ns" "anc (node_hash nd) h"
  shows "lineage anc h ns = nd # lineage anc h (node_children nd)"
proof -
  from assms(2) obtain us vs where ns: "ns = us @ nd # vs" by (auto dest: split_list)
  have "\<not> anc (node_hash b) h" if "b \<in> set (us @ vs)" for b
  proof
    assume "anc (node_hash b) h"
    then have "b = nd" using one_ancestor [OF assms(1) _ assms(2) _ assms(3), of b] that ns by auto
    then show False using assms(1) that ns by (auto simp: siblings_ok_def)
  qed
  then have "lineage anc h us = []" "lineage anc h vs = []" by (auto simp: lineage_empty_iff)
  then show ?thesis using assms(3) by (simp add: ns)
qed

lemma lineage_head: "lineage anc h ns = nd # l \<Longrightarrow> nd \<in> set ns \<and> anc (node_hash nd) h"
  by (induction ns) (auto split: if_splits)

lemma ins_at_index:
  assumes "siblings_ok anc ns" "i < length ns" "anc (node_hash (ns ! i)) (node_hash new)"
  shows "ins_forest anc new ns = ns[i := ins_node anc new (ns ! i)]"
proof -
  have "ns ! j = ns ! i \<longleftrightarrow> j = i" if "j < length ns" for j
    using assms(1,2) that by (simp add: siblings_ok_def distinct_map nth_eq_iff_index_eq)
  then have "anc (node_hash (ns ! j)) (node_hash new) \<longleftrightarrow> j = i" if "j < length ns" for j
    using one_ancestor [OF assms(1), of "ns ! j" "ns ! i"] assms(2,3) that by auto
  moreover have "\<exists>c \<in> set ns. anc (node_hash c) (node_hash new)" using assms(2,3) nth_mem by blast
  ultimately show ?thesis by (intro nth_equalityI) (simp_all add: ins_forest_def nth_list_update)
qed

lemma modify_at_ins:
  "forest_ok anc num K ns \<Longrightarrow> path_nodes ns p = Some (lineage anc (node_hash new) ns) \<Longrightarrow>
     modify_at p (\<lambda>cs. cs @ [new]) ns = ins_forest anc new ns \<and>
     children_at p ns = (if lineage anc (node_hash new) ns = [] then ns else node_children (last (lineage anc (node_hash new) ns)))"
proof (induction p arbitrary: ns)
  case Nil
  then have "lineage anc (node_hash new) ns = []" by simp
  then show ?case by (auto simp: ins_forest_def lineage_empty_iff)
next
  case (Cons i p)
  from Cons.prems(2) obtain nd l where nd: "i < length ns" "ns ! i = nd"
    "path_nodes (node_children nd) p = Some l" "lineage anc (node_hash new) ns = nd # l"
    by (auto simp: nth_opt_Some_iff split: bind_splits)
  have sib: "siblings_ok anc ns" using Cons.prems(1) by (simp add: forest_ok_def)
  have a: "anc (node_hash nd) (node_hash new)" using lineage_head [OF nd(4)] by simp
  have l: "l = lineage anc (node_hash new) (node_children nd)"
    using lineage_split [OF sib _ a] nd(1,2,4) nth_mem [of i ns] by simp
  have ok: "forest_ok anc num K (node_children nd)"
    using forest_okD(1) [OF Cons.prems(1), of nd] nd(1,2) nth_mem [of i ns] by (intro node_okD(1)) simp
  note IH = Cons.IH [OF ok nd(3) [unfolded l]]
  have "ins_forest anc new ns = ns[i := ins_node anc new nd]"
    using ins_at_index [OF sib nd(1), of new] a nd(2) by simp
  then have "modify_at (i # p) (\<lambda>cs. cs @ [new]) ns = ins_forest anc new ns"
    using IH nd(1,2) by (simp add: nth_opt_def ins_node_eq)
  moreover have "children_at (i # p) ns = node_children (last (nd # l))"
    using IH nd(1,2) l by (simp add: nth_opt_def)
  ultimately show ?case by (simp add: nd(4))
qed

text \<open>The duplicate check looks at the right siblings.\<close>

lemma duplicate_iff:
  "forest_ok anc num K ns \<Longrightarrow>
     (\<exists>c \<in> set (if lineage anc h ns = [] then ns else node_children (last (lineage anc h ns))). node_hash c = h) \<longleftrightarrow>
     (\<exists>x \<in> set (nodes ns). node_hash x = h)"
proof (induction "forest_count ns" arbitrary: ns rule: less_induct)
  case less
  have sib: "siblings_ok anc ns" using less.prems by (simp add: forest_ok_def)
  show ?case
  proof (cases "lineage anc h ns")
    case Nil
    have "x \<in> set ns" if x: "x \<in> set (nodes ns)" "node_hash x = h" for x
    proof -
      from less.prems x(1) obtain nd where "nd \<in> set ns" "x = nd \<or> anc (node_hash nd) (node_hash x)"
        by (rule forest_descendants)
      then show ?thesis using Nil x(2) by (auto simp: lineage_empty_iff)
    qed
    moreover have "set ns \<subseteq> set (nodes ns)" by (induction ns) auto
    ultimately show ?thesis using Nil by auto
  next
    case (Cons nd l)
    then have nd: "nd \<in> set ns" "anc (node_hash nd) h" using lineage_head by auto
    have l: "l = lineage anc h (node_children nd)" using lineage_split [OF sib nd] Cons by simp
    note ok1 = forest_okD(1) [OF less.prems nd(1)]
    note ok = ok1 node_okD(1) [OF ok1]
    have "forest_count (node_children nd) < node_count nd" "node_count nd \<le> forest_count ns"
      using nd(1) by (simp_all add: member_le_sum_list)
    then have "forest_count (node_children nd) < forest_count ns" by (rule order.strict_trans2)
    note IH = less.hyps [OF this ok(2)]
    have "(\<exists>x \<in> set (nodes ns). node_hash x = h) \<longleftrightarrow> (\<exists>x \<in> set (nodes (node_children nd)). node_hash x = h)"
    proof
      assume "\<exists>x \<in> set (nodes ns). node_hash x = h"
      then obtain x where x: "x \<in> set (nodes ns)" "node_hash x = h" by blast
      from less.prems x(1) obtain b where b: "b \<in> set ns" "x \<in> set (nodes [b])" "x = b \<or> anc (node_hash b) (node_hash x)"
        by (rule forest_descendants)
      have "b = nd" using subtrees_unrelated [OF sib b(1) nd(1), of h h] b(3) x(2) nd(2) by auto
      moreover have "x \<noteq> nd" using x(2) nd(2) by auto
      ultimately show "\<exists>x \<in> set (nodes (node_children nd)). node_hash x = h" using b(2) x(2) by auto
    next
      assume "\<exists>x \<in> set (nodes (node_children nd)). node_hash x = h"
      moreover have "set (nodes (node_children nd)) \<subseteq> set (nodes ns)"
        using nd(1) by (auto dest!: split_list)
      ultimately show "\<exists>x \<in> set (nodes ns). node_hash x = h" by blast
    qed
    then show ?thesis using IH Cons l by (cases "l = []") simp_all
  qed
qed

lemma ins_siblings:
  assumes "siblings_ok anc cs" "\<forall>c \<in> set cs. \<not> anc (node_hash c) h" "\<forall>c \<in> set cs. \<not> anc h (node_hash c) \<and> node_hash c \<noteq> h"
  shows "siblings_ok anc (cs @ [Node h n d []])"
  using assms by (auto simp: siblings_ok_def)

lemma map_ins_siblings:
  "siblings_ok anc (map (\<lambda>c. if P c then ins_node anc new c else c) cs) = siblings_ok anc cs"
  by (rule siblings_ok_hashes) simp

lemma ins_forest_ok_step:
  assumes ok: "forest_ok anc num K cs" and h: "h \<in> K"
    and fresh: "\<forall>x \<in> set (nodes cs). \<not> anc h (node_hash x) \<and> node_hash x \<noteq> h"
    and IH: "\<And>c. c \<in> set cs \<Longrightarrow> anc (node_hash c) h \<Longrightarrow> node_ok anc num K (ins_node anc (Node h (num h) d []) c)"
  shows "forest_ok anc num K (ins_forest anc (Node h (num h) d []) cs)"
proof (cases "\<exists>c \<in> set cs. anc (node_hash c) h")
  case True
  then show ?thesis using ok IH by (auto simp: ins_forest_def forest_ok_def map_ins_siblings)
next
  case False
  have "set cs \<subseteq> set (nodes cs)" by (induction cs) auto
  then have "siblings_ok anc (cs @ [Node h (num h) d []])"
    using forest_okD(2) [OF ok] False fresh by (intro ins_siblings) blast+
  moreover have "node_ok anc num K (Node h (num h) d [])" using h by (simp add: siblings_ok_def)
  ultimately show ?thesis using False ok by (auto simp: ins_forest_def forest_ok_def)
qed

lemma ins_node_ok:
  assumes "h \<in> K"
  shows "node_ok anc num K nd \<Longrightarrow> anc (node_hash nd) h \<Longrightarrow>
    \<forall>x \<in> set (nodes (node_children nd)). \<not> anc h (node_hash x) \<and> node_hash x \<noteq> h \<Longrightarrow>
    node_ok anc num K (ins_node anc (Node h (num h) d []) nd)"
proof (induction nd rule: node_list_induct)
  case (step h' n d' cs)
  let ?new = "Node h (num h) d []"
  have ok: "forest_ok anc num K cs" "\<And>c. c \<in> set cs \<Longrightarrow> anc h' (node_hash c)"
    using step.prems(1) by (auto simp: forest_ok_def)
  have "forest_ok anc num K (ins_forest anc ?new cs)"
  proof (rule ins_forest_ok_step [OF ok(1) assms])
    show "\<forall>x \<in> set (nodes cs). \<not> anc h (node_hash x) \<and> node_hash x \<noteq> h" using step.prems(3) by simp
    show "node_ok anc num K (ins_node anc ?new c)" if "c \<in> set cs" "anc (node_hash c) h" for c
    proof (rule step.IH [OF that(1) forest_okD(1) [OF ok(1) that(1)] that(2)])
      have "set (nodes (node_children c)) \<subseteq> set (nodes cs)" using that(1) by (auto dest!: split_list)
      then show "\<forall>x \<in> set (nodes (node_children c)). \<not> anc h (node_hash x) \<and> node_hash x \<noteq> h"
        using step.prems(3) by auto
    qed
  qed
  moreover have "anc h' (node_hash c)" if "c \<in> set (ins_forest anc ?new cs)" for c
    using that ok(2) step.prems(2) by (auto simp: ins_forest_def split: if_splits)
  ultimately show ?case using step.prems(1) by (auto simp: ins_node_eq forest_ok_def)
qed

lemma ins_forest_ok:
  assumes "forest_ok anc num K ns" "h \<in> K" "\<forall>x \<in> set (nodes ns). \<not> anc h (node_hash x) \<and> node_hash x \<noteq> h"
  shows "forest_ok anc num K (ins_forest anc (Node h (num h) d []) ns)"
proof (rule ins_forest_ok_step [OF assms])
  fix c assume c: "c \<in> set ns" "anc (node_hash c) h"
  have "set (nodes (node_children c)) \<subseteq> set (nodes ns)" using c(1) by (auto dest!: split_list)
  then show "node_ok anc num K (ins_node anc (Node h (num h) d []) c)"
    using ins_node_ok [OF assms(2) forest_okD(1) [OF assms(1) c(1)] c(2)] assms(3) by blast
qed

lemma ins_forest_items:
  assumes "forest_ok anc num K ns"
  shows "mset (items (ins_forest anc new ns)) = mset (items ns) + mset (items [new])"
  using assms
proof (induction "forest_count ns" arbitrary: ns rule: less_induct)
  case less
  show ?case
  proof (cases "\<exists>c \<in> set ns. anc (node_hash c) (node_hash new)")
    case True
    then obtain i where i: "i < length ns" "anc (node_hash (ns ! i)) (node_hash new)" by (metis in_set_conv_nth)
    let ?c = "ns ! i"
    have ns: "ns = take i ns @ ?c # drop (Suc i) ns" using i(1) by (simp add: id_take_nth_drop)
    have "forest_count (node_children ?c) < node_count ?c" by simp
    also have "node_count ?c \<le> forest_count ns" using nth_mem [OF i(1)] by (simp add: member_le_sum_list)
    finally have IH: "mset (items (ins_forest anc new (node_children ?c))) = mset (items (node_children ?c)) + mset (items [new])"
      using less.hyps node_okD(1) [OF forest_okD(1) [OF less.prems nth_mem [OF i(1)]]] by blast
    have "ins_forest anc new ns = take i ns @ ins_node anc new ?c # drop (Suc i) ns"
      using ins_at_index [OF forest_okD(2) [OF less.prems] i] i(1) by (simp add: upd_conv_take_nth_drop)
    then have "mset (items (ins_forest anc new ns)) =
        mset (items (take i ns @ ?c # drop (Suc i) ns)) + mset (items [new])"
      using IH by (simp add: ins_node_eq info_def)
    then show ?thesis using ns by simp
  qed (simp add: ins_forest_def)
qed

lemma find_deepest:
  assumes "forest_ok anc num K (roots t)" "h \<in> K"
  obtains mp where "find_node_index_where t h (num h) isd (\<lambda>_. True) = Inr mp"
    "path_nodes (roots t) (case mp of Some p \<Rightarrow> p | None \<Rightarrow> []) = Some (lineage anc h (roots t))"
    "mp = None \<longleftrightarrow> lineage anc h (roots t) = []"
proof -
  from find_index_spec [OF assms, of "\<lambda>_. True"] obtain mp where
    mp: "find_node_index_where t h (num h) isd (\<lambda>_. True) = Inr mp"
    and spec: "case mp of
       None \<Rightarrow> best_on (\<lambda>_. True) (lineage anc h (roots t)) None
     | Some p \<Rightarrow> p \<noteq> [] \<and> (\<exists>l1. path_nodes (roots t) p = Some l1 \<and> best_on (\<lambda>_. True) (lineage anc h (roots t)) (Some l1))"
    by blast
  show ?thesis
    by (rule that [OF mp]) (use spec in \<open>auto simp: best_on_def split: option.splits\<close>)
qed

lemma import_spec:
  assumes ok: "forest_ok anc num K (roots t)" and h: "h \<in> K"
    and order: "\<forall>x \<in> set (nodes (roots t)). \<not> anc h (node_hash x)"
    and im: "import_node t h (num h) d isd = (r, t')"
  shows "if reverts t (num h) then r = Inl Revert \<and> t' = t
    else if h \<in> node_hash ` set (nodes (roots t)) then r = Inl Duplicate \<and> t' = t
    else r = Inr (\<forall>x \<in> set (nodes (roots t)). \<not> anc (node_hash x) h) \<and> forest_ok anc num K (roots t') \<and>
      mset (items (roots t')) = add_mset (h, num h, d) (mset (items (roots t))) \<and>
      best_finalized_number t' = best_finalized_number t"
proof (cases "reverts t (num h)")
  case True
  then show ?thesis using im by (auto simp: import_node_def)
next
  case False
  let ?new = "Node h (num h) d []"
  let ?l = "lineage anc h (roots t)"
  obtain mp where mp: "find_node_index_where t h (num h) isd (\<lambda>_. True) = Inr mp"
    and path: "path_nodes (roots t) (case mp of Some p \<Rightarrow> p | None \<Rightarrow> []) = Some ?l" and root: "mp = None \<longleftrightarrow> ?l = []"
    using find_deepest [OF ok h] .
  define p where "p = (case mp of Some p \<Rightarrow> p | None \<Rightarrow> [])"
  have ins: "modify_at p (\<lambda>cs. cs @ [?new]) (roots t) = ins_forest anc ?new (roots t)"
    and ch: "children_at p (roots t) = (if ?l = [] then roots t else node_children (last ?l))"
    using modify_at_ins [OF ok, of p ?new] path by (auto simp: p_def)
  have split: "(case mp of Some path \<Rightarrow> (path, False) | None \<Rightarrow> ([], True)) = (p, ?l = [])"
    using root by (auto simp: p_def split: option.splits)
  have dup: "list_ex (\<lambda>elem. node_hash elem = h) (children_at p (roots t)) \<longleftrightarrow> h \<in> node_hash ` set (nodes (roots t))"
    using duplicate_iff [OF ok, of h] unfolding ch list_ex_iff image_iff by metis
  show ?thesis
  proof (cases "h \<in> node_hash ` set (nodes (roots t))")
    case True
    then show ?thesis using im False dup by (simp add: import_node_def mp split)
  next
    case new: False
    let ?t = "t\<lparr>roots := ins_forest anc ?new (roots t)\<rparr>"
    have eq: "r = Inr (?l = [])" "t' = ?t \<or> t' = rebalance ?t"
      using im False dup new modify_at_const [of p "\<lambda>cs. cs @ [?new]" "roots t"]
      by (auto simp: import_node_def mp split ins Let_def)
    have fok: "forest_ok anc num K (ins_forest anc ?new (roots t))"
      using ins_forest_ok [OF ok h] order new by auto
    have it: "mset (items (ins_forest anc ?new (roots t))) = add_mset (h, num h, d) (mset (items (roots t)))"
      using ins_forest_items [OF ok, of ?new] by (simp add: info_def)
    have "?l = [] \<longleftrightarrow> (\<forall>x \<in> set (nodes (roots t)). \<not> anc (node_hash x) h)"
      using lineage_set [OF ok, of h] by (metis (mono_tags, lifting) empty_iff empty_set mem_Collect_eq list.set_sel(1) set_empty)
    then show ?thesis using False new eq fok it
      by (auto simp: forest_ok_rebalance rebalance_items rebalance_roots(2))
  qed
qed

end

section \<open>Finalization\<close>

lemma position_of_Some: "position_of P xs = Some i \<Longrightarrow> i < length xs \<and> P (xs ! i)"
  by (induction P xs arbitrary: i rule: position_of.induct) (auto split: if_splits)

lemma position_of_None: "position_of P xs = None \<longleftrightarrow> (\<forall>x \<in> set xs. \<not> P x)"
  by (induction P xs rule: position_of.induct) auto

lemma retain_roots_eq:
  assumes "\<And>x. x \<in> set rs \<Longrightarrow> retain x = Inr (P x)"
  shows "retain_roots retain rs kept changed = (Inr (changed \<or> (\<exists>x \<in> set rs. \<not> P x)), kept @ filter P rs)"
  using assms by (induction rs arbitrary: kept changed) (auto split: bool.splits)

lemma any_root_above_eq:
  assumes "\<And>x. x \<in> set rs \<Longrightarrow> (if m > node_number x then isd (node_hash x) h else Inr False) = Inr (P x)"
  shows "any_root_above isd h m rs = Inr (\<exists>x \<in> set rs. P x)"
  using assms
proof (induction rs)
  case (Cons r rs)
  then have "(if m > node_number r then isd (node_hash r) h else Inr False) = Inr (P r)" by simp
  then show ?case using Cons by (cases "m > node_number r"; cases "P r") auto
qed simp

lemma nodes_filter_roots:
  "(\<And>x. x \<in> set rs \<Longrightarrow> \<not> P x \<Longrightarrow> \<forall>y \<in> set (nodes [x]). \<not> Q y) \<Longrightarrow> (\<And>x. x \<in> set rs \<Longrightarrow> P x \<Longrightarrow> \<forall>y \<in> set (nodes [x]). Q y) \<Longrightarrow>
     nodes (filter P rs) = filter Q (nodes rs)"
proof (induction rs)
  case (Cons r rs)
  have "nodes (filter P rs) = filter Q (nodes rs)"
    by (rule Cons.IH) (use Cons.prems in \<open>meson list.set_intros(2)\<close>)+
  moreover have "filter Q (nodes [r]) = (if P r then nodes [r] else [])"
    using Cons.prems [of r] by (auto intro!: filter_True filter_False)
  moreover have "nodes (r # rs) = nodes [r] @ nodes rs"
    "nodes (filter P (r # rs)) = (if P r then nodes [r] else []) @ nodes (filter P rs)" by simp_all
  ultimately show ?case by (simp only: filter_append)
qed simp

context ancestry
begin

lemma isd_guarded:
  assumes "node_ok anc num K nd" "h \<in> K"
  shows "(if num h > node_number nd then isd (node_hash nd) h else Inr False) = Inr (anc (node_hash nd) h)"
    "(if node_number nd > num h then isd h (node_hash nd) else Inr False) = Inr (anc h (node_hash nd))"
  using isd_anc [of "node_hash nd" h] isd_anc [of h "node_hash nd"] anc_num node_okD(3,4) [OF assms(1)] assms(2) by auto

lemma retain_below_eq:
  assumes "node_ok anc num K nd" "h \<in> K"
  shows "retain_below isd h (num h) nd = Inr (anc h (node_hash nd))"
  using isd_guarded(2) [OF assms] by (auto simp: retain_below_def split: if_splits)

lemma forest_ok_filter: "forest_ok anc num K ns \<Longrightarrow> forest_ok anc num K (filter P ns)"
  by (auto simp: forest_ok_def siblings_ok_def distinct_map_filter)

text \<open>The descendants of a block that is no ancestor of a root are whole trees.\<close>

lemma descendants_by_root:
  assumes ok: "forest_ok anc num K rs" and none: "\<forall>r \<in> set rs. \<not> anc (node_hash r) h \<and> node_hash r \<noteq> h"
  shows "nodes (filter (\<lambda>r. anc h (node_hash r)) rs) = filter (\<lambda>x. anc h (node_hash x)) (nodes rs)"
proof (rule nodes_filter_roots)
  fix r assume r: "r \<in> set rs"
  note d = descendants [OF forest_okD(1) [OF ok r]]
  show "\<forall>y \<in> set (nodes [r]). \<not> anc h (node_hash y)" if "\<not> anc h (node_hash r)"
    using that none r d anc_linear by blast
  show "\<forall>y \<in> set (nodes [r]). anc h (node_hash y)" if "anc h (node_hash r)"
    using that d anc_trans by blast
qed

lemma root_children:
  assumes ok: "forest_ok anc num K rs" and r: "r \<in> set rs" "node_hash r = h"
  shows "nodes (node_children r) = filter (\<lambda>x. anc h (node_hash x)) (nodes rs)"
proof -
  have sib: "siblings_ok anc rs" and rok: "node_ok anc num K r" using forest_okD [OF ok] r(1) by auto
  from r(1) obtain us vs where rs: "rs = us @ r # vs" by (auto dest: split_list)
  have other: "filter (\<lambda>x. anc h (node_hash x)) (nodes ts) = []" if "set ts \<subseteq> set (us @ vs)" for ts
  proof (rule filter_False, intro ballI)
    fix x assume "x \<in> set (nodes ts)"
    then obtain b where b: "b \<in> set ts" "x \<in> set (nodes [b])" by (auto simp: nodes_def)
    then have bs: "b \<in> set rs" "b \<noteq> r" using that sib by (auto simp: rs siblings_ok_def)
    from descendants [OF forest_okD(1) [OF ok bs(1)] b(2)]
    have "node_hash x = node_hash b \<or> anc (node_hash b) (node_hash x)" by auto
    with subtrees_unrelated [OF sib r(1) bs(1) bs(2) [symmetric], of h "node_hash x"] r(2)
    show "\<not> anc h (node_hash x)" by blast
  qed
  have "anc h (node_hash x)" if x: "x \<in> set (nodes (node_children r))" for x
  proof -
    from node_okD(1) [OF rok] x obtain c where "c \<in> set (node_children r)" "x = c \<or> anc (node_hash c) (node_hash x)"
      by (rule forest_descendants)
    then show ?thesis using node_okD(2) [OF rok] anc_trans r(2) by blast
  qed
  then have "filter (\<lambda>x. anc h (node_hash x)) (nodes (node_children r)) = nodes (node_children r)" by simp
  then show ?thesis using other [of us] other [of vs] r(2) by (simp add: rs)
qed

lemma finalize_root_spec:
  assumes "finalize_root t h = Some (d, t')" and ok: "forest_ok anc num K (roots t)"
  obtains r where "r \<in> set (roots t)" "node_hash r = h" "node_data r = d" "forest_ok anc num K (roots t')"
    "nodes (roots t') = filter (\<lambda>x. anc h (node_hash x)) (nodes (roots t))" "best_finalized_number t' = Some (num h)"
proof -
  from assms(1) obtain i where i: "position_of (\<lambda>nd. node_hash nd = h) (roots t) = Some i"
    and t': "(d, t') = finalize_root_at t i" by (auto simp: finalize_root_def)
  let ?r = "roots t ! i"
  have r: "?r \<in> set (roots t)" "node_hash ?r = h" using position_of_Some [OF i] by auto
  note rok = forest_okD(1) [OF ok r(1)]
  have eq: "d = node_data ?r" "roots t' = node_children ?r" "best_finalized_number t' = Some (node_number ?r)"
    using t' by (auto simp: finalize_root_at_def Let_def)
  show ?thesis
    using that [OF r] eq node_okD(1,4) [OF rok] root_children [OF ok r] r(2) by simp
qed

lemma finalize_spec:
  assumes ok: "forest_ok anc num K (roots t)" and h: "h \<in> K" and fin: "finalize t h (num h) isd = (r, t')"
  shows "if reverts t (num h) then r = Inl Revert \<and> t' = t
    else if \<exists>x \<in> set (roots t). anc (node_hash x) h then r = Inl UnfinalizedAncestor \<and> t' = t
    else (\<exists>c. r = Inr c) \<and> forest_ok anc num K (roots t') \<and>
      nodes (roots t') = filter (\<lambda>x. anc h (node_hash x)) (nodes (roots t)) \<and>
      best_finalized_number t' = Some (num h)"
proof (cases "reverts t (num h)")
  case True
  then show ?thesis using fin by (auto simp: finalize_def)
next
  case nr: False
  show ?thesis
  proof (cases "finalize_root t h")
    case (Some dt)
    obtain d t1 where dt: "dt = (d, t1)" by fastforce
    from finalize_root_spec [OF Some [unfolded dt] ok] obtain x where
      x: "x \<in> set (roots t)" "node_hash x = h" "forest_ok anc num K (roots t1)"
        "nodes (roots t1) = filter (\<lambda>x. anc h (node_hash x)) (nodes (roots t))" "best_finalized_number t1 = Some (num h)"
      by blast
    have "\<not> (\<exists>y \<in> set (roots t). anc (node_hash y) h)"
      using forest_okD(2) [OF ok] x(1,2) by (auto simp: siblings_ok_def)
    then show ?thesis using fin nr Some dt x by (auto simp: finalize_def)
  next
    case None
    then have no: "\<forall>x \<in> set (roots t). node_hash x \<noteq> h" by (simp add: finalize_root_def position_of_None)
    have above: "any_root_above isd h (num h) (roots t) = Inr (\<exists>x \<in> set (roots t). anc (node_hash x) h)"
      using isd_guarded(1) [OF _ h] forest_okD(1) [OF ok] by (intro any_root_above_eq) blast
    show ?thesis
    proof (cases "\<exists>x \<in> set (roots t). anc (node_hash x) h")
      case True
      then show ?thesis using fin nr None above by (auto simp: finalize_def)
    next
      case False
      have "retain_roots (retain_below isd h (num h)) (roots t) [] False =
          (Inr (\<exists>x \<in> set (roots t). \<not> anc h (node_hash x)), filter (\<lambda>x. anc h (node_hash x)) (roots t))"
        using retain_roots_eq [of "roots t" "retain_below isd h (num h)" "\<lambda>x. anc h (node_hash x)" "[]" False]
          retain_below_eq [OF forest_okD(1) [OF ok] h] by simp
      then have eq: "t' = t\<lparr>roots := filter (\<lambda>x. anc h (node_hash x)) (roots t), best_finalized_number := Some (num h)\<rparr>"
        "\<exists>c. r = Inr c"
        using fin nr None above False by (auto simp: finalize_def split: if_splits)
      show ?thesis using eq nr False descendants_by_root [OF ok] no forest_ok_filter [OF ok] by auto
    qed
  qed
qed

lemma root_relation_eq:
  assumes "node_ok anc num K nd" "h \<in> K"
  shows "root_relation isd h (num h) nd = Inr (node_hash nd = h, anc h (node_hash nd), anc (node_hash nd) h)"
proof -
  have i: "isd h (node_hash nd) = Inr (anc h (node_hash nd))" "isd (node_hash nd) h = Inr (anc (node_hash nd) h)"
    using isd_anc node_okD(3) [OF assms(1)] assms(2) by auto
  have n: "anc h (node_hash nd) \<Longrightarrow> node_number nd > num h" "anc (node_hash nd) h \<Longrightarrow> node_number nd < num h"
    using anc_num node_okD(4) [OF assms(1)] by auto
  show ?thesis
  proof (cases "node_hash nd = h")
    case True
    then show ?thesis by (simp add: root_relation_def)
  next
    case False
    then show ?thesis using i n anc_asym [of h "node_hash nd"]
      by (cases "anc h (node_hash nd)"; cases "anc (node_hash nd) h") (auto simp: root_relation_def)
  qed
qed

lemma unrelated_subtree:
  assumes "node_ok anc num K nd" "node_hash nd \<noteq> h" "\<not> anc h (node_hash nd)" "\<not> anc (node_hash nd) h"
    and "x \<in> set (nodes [nd])"
  shows "node_hash x \<noteq> h \<and> \<not> anc h (node_hash x)"
  using descendants [OF assms(1,5)] assms(2-4) anc_linear by blast

lemma ancestors_loop_spec:
  assumes "ancestors_loop isd h (num h) rs idx changed = (r, rs')" "forest_ok anc num K rs" "h \<in> K"
    and "\<forall>x \<in> set (take idx rs). anc h (node_hash x)"
  shows "\<exists>e. r = Inr e \<and> forest_ok anc num K rs' \<and>
    filter_mset (\<lambda>x. node_hash x = h \<or> anc h (node_hash x)) (mset (nodes rs')) =
      filter_mset (\<lambda>x. node_hash x = h \<or> anc h (node_hash x)) (mset (nodes rs)) \<and>
    (case e of
       Met_finalized i \<Rightarrow> i < length rs' \<and> node_hash (rs' ! i) = h
     | Ran_through c \<Rightarrow> \<forall>x \<in> set rs'. anc h (node_hash x))"
  using assms
proof (induction "forest_count (drop idx rs)" arbitrary: rs idx changed rule: less_induct)
  case less
  show ?case
  proof (cases "idx < length rs")
    case False
    then show ?thesis using less.prems by (auto simp: ancestors_loop.simps [of isd h "num h" rs idx])
  next
    case True
    let ?x = "rs ! idx"
    let ?s = "swap_remove rs idx"
    note xin = nth_mem [OF True]
    note xok = forest_okD(1) [OF less.prems(2) xin]
    note rel = root_relation_eq [OF xok less.prems(3)]
    note loop = less.prems(1) [unfolded ancestors_loop.simps [of isd h "num h" rs idx] rel]
    have perm: "mset (?x # ?s) = mset rs" using mset_swap_remove [OF True] xin by simp
    have tk: "take idx ?s = take idx rs" by (rule take_swap_remove [OF True])
    have open_ok: "forest_ok anc num K (?s @ node_children ?x)"
      using forest_ok_perm [OF perm] less.prems(2) by (intro forest_ok_open) simp
    have rest_ok: "forest_ok anc num K ?s"
      using forest_ok_perm [OF perm] less.prems(2) forest_ok_Cons(2) by blast
    have nd: "mset (nodes rs) = mset (nodes [?x]) + mset (nodes ?s)" using nodes_perm [OF perm] by simp
    have cnt: "forest_count (drop idx ?s) + node_count ?x = forest_count (drop idx rs)" by (rule swap_remove_count [OF True])
    consider (fin) "node_hash ?x = h" | (desc) "node_hash ?x \<noteq> h" "anc h (node_hash ?x)"
      | (up) "node_hash ?x \<noteq> h" "\<not> anc h (node_hash ?x)" "anc (node_hash ?x) h"
      | (un) "node_hash ?x \<noteq> h" "\<not> anc h (node_hash ?x)" "\<not> anc (node_hash ?x) h" by blast
    then show ?thesis
    proof cases
      case fin
      then show ?thesis using loop True less.prems(2) by auto
    next
      case desc
      have "forest_count (drop (idx + 1) rs) < forest_count (drop idx rs)"
        using True by (simp add: Cons_nth_drop_Suc [symmetric] node_count_children)
      moreover have "\<forall>x \<in> set (take (idx + 1) rs). anc h (node_hash x)"
        using less.prems(4) True desc(2) by (auto simp: take_Suc_conv_app_nth)
      ultimately show ?thesis using less.hyps [of "idx + 1" rs changed] loop desc True less.prems(2,3) by simp
    next
      case up
      have len: "idx \<le> length ?s" using True by simp
      then have "forest_count (drop idx (?s @ node_children ?x)) < forest_count (drop idx rs)"
        using cnt by (simp add: node_count_children)
      moreover have "\<forall>x \<in> set (take idx (?s @ node_children ?x)). anc h (node_hash x)"
        using less.prems(4) tk len by simp
      moreover have "filter_mset (\<lambda>x. node_hash x = h \<or> anc h (node_hash x)) (mset (nodes rs)) =
          filter_mset (\<lambda>x. node_hash x = h \<or> anc h (node_hash x)) (mset (nodes (?s @ node_children ?x)))"
        using up(1,2) by (simp add: nd)
      ultimately show ?thesis using less.hyps [of idx "?s @ node_children ?x" True] loop up True open_ok less.prems(3) by simp
    next
      case un
      have "forest_count (drop idx ?s) < forest_count (drop idx rs)"
        using cnt by (simp add: node_count_children)
      moreover have "\<forall>x \<in> set (take idx ?s). anc h (node_hash x)"
        using less.prems(4) tk by simp
      moreover have "filter (\<lambda>x. node_hash x = h \<or> anc h (node_hash x)) (nodes [?x]) = []"
        using unrelated_subtree [OF xok un] by (intro filter_False ballI) blast
      then have "filter_mset (\<lambda>x. node_hash x = h \<or> anc h (node_hash x)) (mset (nodes [?x])) = {#}"
        by (simp only: mset_filter [symmetric] mset.simps(1))
      then have "filter_mset (\<lambda>x. node_hash x = h \<or> anc h (node_hash x)) (mset (nodes rs)) =
          filter_mset (\<lambda>x. node_hash x = h \<or> anc h (node_hash x)) (mset (nodes ?s))"
        by (simp only: nd filter_union_mset add_0)
      ultimately show ?thesis using less.hyps [of idx ?s True] loop un True rest_ok less.prems(3) by simp
    qed
  qed
qed

lemma finalize_with_ancestors_spec:
  assumes ok: "forest_ok anc num K (roots t)" and h: "h \<in> K" and nr: "\<not> reverts t (num h)"
    and fin: "finalize_with_ancestors t h (num h) isd = (r, t')"
  shows "\<exists>c. r = Inr c \<and> forest_ok anc num K (roots t') \<and>
    mset (nodes (roots t')) = filter_mset (\<lambda>x. anc h (node_hash x)) (mset (nodes (roots t))) \<and>
    best_finalized_number t' = Some (num h) \<and>
    (\<forall>d. c = Changed (Some d) \<longleftrightarrow> (\<exists>x \<in> set (nodes (roots t)). node_hash x = h \<and> node_data x = d))"
proof (cases "finalize_root t h")
  case (Some dt)
  obtain d t1 where dt: "dt = (d, t1)" by fastforce
  from finalize_root_spec [OF Some [unfolded dt] ok] obtain x where
    x: "x \<in> set (roots t)" "node_hash x = h" "node_data x = d" "forest_ok anc num K (roots t1)"
      "nodes (roots t1) = filter (\<lambda>x. anc h (node_hash x)) (nodes (roots t))" "best_finalized_number t1 = Some (num h)"
    by blast
  note xin = root_in_nodes [OF x(1)]
  have "(\<exists>y \<in> set (nodes (roots t)). node_hash y = h \<and> node_data y = d') \<longleftrightarrow> d' = d" for d'
    using forest_hash_inj [OF ok xin] xin x(2,3) by metis
  then show ?thesis using fin nr Some dt x by (auto simp: finalize_with_ancestors_def)
next
  case None
  obtain rl rs where loop: "ancestors_loop isd h (num h) (roots t) 0 False = (rl, rs)" by fastforce
  let ?keep = "\<lambda>x. node_hash x = h \<or> anc h (node_hash x)"
  from ancestors_loop_spec [OF loop ok h] obtain e where e: "rl = Inr e" "forest_ok anc num K rs"
    "filter_mset ?keep (mset (nodes rs)) = filter_mset ?keep (mset (nodes (roots t)))"
    "case e of Met_finalized i \<Rightarrow> i < length rs \<and> node_hash (rs ! i) = h | Ran_through c \<Rightarrow> \<forall>x \<in> set rs. anc h (node_hash x)"
    by auto
  from arg_cong [OF e(3), of "filter_mset (\<lambda>x. anc h (node_hash x))"]
  have desc: "filter_mset (\<lambda>x. anc h (node_hash x)) (mset (nodes rs)) = filter_mset (\<lambda>x. anc h (node_hash x)) (mset (nodes (roots t)))"
    by (simp add: filter_filter_mset conj_disj_distribR cong: conj_cong)
  from arg_cong [OF e(3), of set_mset]
  have self: "x \<in> set (nodes rs) \<longleftrightarrow> x \<in> set (nodes (roots t))" if "node_hash x = h" for x
    using that by (auto simp: set_eq_iff)
  show ?thesis
  proof (cases e)
    case (Met_finalized i)
    let ?x = "rs ! i"
    have x: "?x \<in> set rs" "node_hash ?x = h" using e(4) Met_finalized by auto
    have xin: "?x \<in> set (nodes (roots t))" using self [OF x(2)] root_in_nodes [OF x(1)] by blast
    have "(\<exists>y \<in> set (nodes (roots t)). node_hash y = h \<and> node_data y = d') \<longleftrightarrow> d' = node_data ?x" for d'
      using forest_hash_inj [OF ok xin] xin x(2) by metis
    moreover have "mset (nodes (node_children ?x)) = filter_mset (\<lambda>x. anc h (node_hash x)) (mset (nodes (roots t)))"
      using root_children [OF e(2) x] desc by simp
    moreover note node_okD(1,4) [OF forest_okD(1) [OF e(2) x(1)]]
    ultimately show ?thesis using fin nr None loop e(1) Met_finalized x(2)
      by (auto simp: finalize_with_ancestors_def finalize_root_at_def Let_def)
  next
    case (Ran_through c)
    have all: "anc h (node_hash x)" if x: "x \<in> set (nodes rs)" for x
    proof -
      from e(2) x obtain nd where "nd \<in> set rs" "x = nd \<or> anc (node_hash nd) (node_hash x)" by (rule forest_descendants)
      then show ?thesis using e(4) Ran_through anc_trans by auto
    qed
    have none: "\<not> (\<exists>y \<in> set (nodes (roots t)). node_hash y = h)" using all self by force
    have "filter_mset (\<lambda>x. anc h (node_hash x)) (mset (nodes rs)) = mset (nodes rs)"
      using all by (simp add: filter_mset_eq_conv)
    then show ?thesis using fin nr None loop e(1,2) Ran_through desc none
      by (auto simp: finalize_with_ancestors_def)
  qed
qed

end

section \<open>Pruning\<close>

lemma path_nodes_modify:
  "path_nodes ns p = Some l \<Longrightarrow> p \<noteq> [] \<Longrightarrow>
     mset (items (modify_at (butlast p) (\<lambda>cs. take (last p) cs @ drop (Suc (last p)) cs) ns)) + mset (items [last l]) = mset (items ns)"
proof (induction p arbitrary: ns l)
  case (Cons i p)
  from Cons.prems(1) obtain nd l' where nd: "i < length ns" "ns ! i = nd" "path_nodes (node_children nd) p = Some l'" "l = nd # l'"
    by (auto simp: nth_opt_Some_iff split: bind_splits)
  have ns: "ns = take i ns @ nd # drop (Suc i) ns" using id_take_nth_drop [OF nd(1)] nd(2) by simp
  show ?case
  proof (cases "p = []")
    case True
    then have "items (modify_at (butlast (i # p)) (\<lambda>cs. take (last (i # p)) cs @ drop (Suc (last (i # p))) cs) ns) =
        items (take i ns) @ items (drop (Suc i) ns)" by simp
    moreover have "mset (items ns) = mset (items (take i ns @ nd # drop (Suc i) ns))" using ns by simp
    ultimately show ?thesis using nd True by simp
  next
    case False
    let ?f = "\<lambda>cs. take (last p) cs @ drop (Suc (last p)) cs"
    have l': "l' \<noteq> []" using nd(3) False by (cases p) (auto split: bind_splits)
    note IH = Cons.IH [OF nd(3) False]
    have "modify_at (butlast (i # p)) (\<lambda>cs. take (last (i # p)) cs @ drop (Suc (last (i # p))) cs) ns =
        take i ns @ set_children nd (modify_at (butlast p) ?f (node_children nd)) # drop (Suc i) ns"
      using nd(1,2) False by (simp add: nth_opt_def upd_conv_take_nth_drop)
    moreover have "mset (items ns) = mset (items (take i ns @ nd # drop (Suc i) ns))" using ns by simp
    ultimately show ?thesis using IH nd(4) l' by (simp add: info_def)
  qed
qed simp

lemma prune_children_eq:
  assumes "\<And>c. c \<in> set cs \<Longrightarrow> (if number < node_number c then isd h (node_hash c) else Inr False) = Inr (Q c)"
    and "\<And>c. c \<in> set cs \<Longrightarrow> node_hash c = h \<Longrightarrow> node_number c = number"
  shows "prune_children isd h number cs kept removed =
    (Inr (), kept @ filter (\<lambda>c. node_hash c = h \<or> Q c) cs, removed @ filter (\<lambda>c. \<not> (node_hash c = h \<or> Q c)) cs)"
  using assms
proof (induction cs arbitrary: kept removed)
  case (Cons c cs)
  have "(if number < node_number c then isd h (node_hash c) else Inr False) = Inr (Q c)"
    "node_hash c = h \<Longrightarrow> node_number c = number" using Cons.prems by simp_all
  then show ?case using Cons by (cases "number < node_number c"; cases "Q c"; cases "node_hash c = h") auto
qed simp

lemma first_ancestor_eq:
  assumes "\<And>c. c \<in> set cs \<Longrightarrow> (if node_number c < number then isd (node_hash c) h else Inr False) = Inr (Q c)"
  shows "first_ancestor isd h number k cs = Inr (map_option ((+) k) (position_of Q cs))"
  using assms
proof (induction cs arbitrary: k)
  case (Cons c cs)
  have "(if node_number c < number then isd (node_hash c) h else Inr False) = Inr (Q c)" using Cons.prems by simp
  then show ?case using Cons by (cases "node_number c < number"; cases "Q c") (auto simp: option.map_comp comp_def intro!: option.map_cong)
qed simp

lemma mset_items_split: "mset (items (filter P cs)) + mset (items (filter (\<lambda>c. \<not> P c) cs)) = mset (items cs)"
  by (induction cs) auto

text \<open>Related to a block: above it, the block itself, or below it.\<close>

definition related :: "('h \<Rightarrow> 'h \<Rightarrow> bool) \<Rightarrow> 'h \<Rightarrow> 'h \<Rightarrow> bool" where
  "related anc h a \<longleftrightarrow> anc a h \<or> a = h \<or> anc h a"

context ancestry
begin

lemma subtree_complete:
  "forest_ok anc num K ns \<Longrightarrow> x \<in> set (nodes ns) \<Longrightarrow> y \<in> set (nodes ns) \<Longrightarrow> anc (node_hash x) (node_hash y) \<Longrightarrow> y \<in> set (nodes [x])"
proof (induction "forest_count ns" arbitrary: ns rule: less_induct)
  case less
  from less.prems(1,2) obtain a where a: "a \<in> set ns" "x \<in> set (nodes [a])" "x = a \<or> anc (node_hash a) (node_hash x)"
    by (rule forest_descendants)
  from less.prems(1,3) obtain b where b: "b \<in> set ns" "y \<in> set (nodes [b])" "y = b \<or> anc (node_hash b) (node_hash y)"
    by (rule forest_descendants)
  have ab: "a = b"
  proof (rule ccontr)
    assume "a \<noteq> b"
    with subtrees_unrelated [OF forest_okD(2) [OF less.prems(1)] a(1) b(1) this, of "node_hash x" "node_hash y"]
      a(3) b(3) less.prems(4) show False by auto
  qed
  show ?case
  proof (cases "x = a")
    case False
    then have "anc (node_hash a) (node_hash y)" using a(3) less.prems(4) anc_trans by blast
    then have "y \<noteq> a" by auto
    then have "x \<in> set (nodes (node_children a))" "y \<in> set (nodes (node_children a))" using a(2) b(2) ab False by auto
    moreover have "forest_count (node_children a) < forest_count ns"
      using order.strict_trans2 [OF forest_count_children member_le_sum_list [of "node_count a" "map node_count ns"]] a(1) by simp
    ultimately show ?thesis using less.hyps node_okD(1) [OF forest_okD(1) [OF less.prems(1) a(1)]] less.prems(4) by blast
  qed (use b(2) ab in simp)
qed

lemma unrelated_sibling:
  assumes "siblings_ok anc cs" "b \<in> set cs" "c \<in> set cs" "b \<noteq> c" "node_ok anc num K b" "anc (node_hash c) h" "x \<in> set (nodes [b])"
  shows "\<not> related anc h (node_hash x)"
proof -
  have x: "node_hash x = node_hash b \<or> anc (node_hash b) (node_hash x)" using descendants [OF assms(5,7)] by auto
  have "h = node_hash c \<or> anc (node_hash c) h" using assms(6) by blast
  from subtrees_unrelated [OF assms(1-4) x this] subtrees_unrelated [OF assms(1,3,2) assms(4) [symmetric] this x]
  show ?thesis by (auto simp: related_def)
qed

lemma filter_related_siblings:
  assumes ok: "forest_ok anc num K cs" and i: "i < length cs" "anc (node_hash (cs ! i)) h"
  shows "filter (\<lambda>x. related anc h (node_hash x)) (nodes cs) = filter (\<lambda>x. related anc h (node_hash x)) (nodes [cs ! i])"
proof -
  let ?R = "\<lambda>x. related anc h (node_hash x)"
  have cs: "cs = take i cs @ cs ! i # drop (Suc i) cs" using i(1) by (simp add: id_take_nth_drop)
  have "distinct cs" using forest_okD(2) [OF ok] by (simp add: siblings_ok_def distinct_map)
  then have "distinct (take i cs @ cs ! i # drop (Suc i) cs)" using cs by simp
  then have ne: "cs ! i \<notin> set (take i cs @ drop (Suc i) cs)" by auto
  have other: "filter ?R (nodes ts) = []" if "set ts \<subseteq> set (take i cs @ drop (Suc i) cs)" for ts
  proof (rule filter_False, intro ballI)
    fix x assume "x \<in> set (nodes ts)"
    then obtain b where b: "b \<in> set ts" "x \<in> set (nodes [b])" by (auto simp: nodes_def)
    have bs: "b \<in> set cs" "b \<noteq> cs ! i" using that b(1) ne by (auto dest: in_set_takeD in_set_dropD)
    show "\<not> ?R x" by (rule unrelated_sibling [OF forest_okD(2) [OF ok] bs(1) nth_mem [OF i(1)] bs(2) forest_okD(1) [OF ok bs(1)] i(2) b(2)])
  qed
  have "filter ?R (nodes cs) = filter ?R (nodes (take i cs @ cs ! i # drop (Suc i) cs))" using cs by simp
  then show ?thesis using other [of "take i cs"] other [of "drop (Suc i) cs"] by simp
qed

lemma prune_walk_spec:
  assumes h: "h \<in> K"
  shows "node_ok anc num K nd \<Longrightarrow> anc (node_hash nd) h \<Longrightarrow>
    \<exists>nd' removed'. prune_walk isd h (num h) nd removed = (Inr (), nd', removed') \<and> info nd' = info nd \<and> node_ok anc num K nd' \<and>
      mset (items removed') + mset (items [nd']) = mset (items removed) + mset (items [nd]) \<and>
      items [nd'] = map info (filter (\<lambda>x. related anc h (node_hash x)) (nodes [nd]))"
proof (induction nd arbitrary: removed rule: node_list_induct)
  case (step h' n d cs)
  let ?R = "\<lambda>x. related anc h (node_hash x)"
  have ok: "forest_ok anc num K cs" "\<And>c. c \<in> set cs \<Longrightarrow> anc h' (node_hash c)" "h' \<in> K" "n = num h'"
    using step.prems(1) by (auto simp: forest_ok_def)
  have self: "related anc h h'" using step.prems(2) by (simp add: related_def)
  have fa: "first_ancestor isd h (num h) 0 cs = Inr (position_of (\<lambda>c. anc (node_hash c) h) cs)"
    using first_ancestor_eq [of cs "num h" isd h "\<lambda>c. anc (node_hash c) h" 0] isd_guarded(1) [OF forest_okD(1) [OF ok(1)] h]
    by (simp add: option.map_ident_strong)
  show ?case
  proof (cases "position_of (\<lambda>c. anc (node_hash c) h) cs")
    case (Some i)
    then have i: "i < length cs" "anc (node_hash (cs ! i)) h" using position_of_Some by fast+
    let ?rm = "removed @ take i cs @ drop (Suc i) cs"
    from step.IH [OF nth_mem [OF i(1)] forest_okD(1) [OF ok(1) nth_mem [OF i(1)]] i(2), of ?rm]
    obtain c' rm' where c': "prune_walk isd h (num h) (cs ! i) ?rm = (Inr (), c', rm')" "info c' = info (cs ! i)" "node_ok anc num K c'"
      "mset (items rm') + mset (items [c']) = mset (items ?rm) + mset (items [cs ! i])"
      "items [c'] = map info (filter ?R (nodes [cs ! i]))" by blast
    have "mset (items cs) = mset (items (take i cs @ cs ! i # drop (Suc i) cs))" using id_take_nth_drop [OF i(1)] by simp
    then have "mset (items rm') + mset (items [c']) = mset (items removed) + mset (items cs)" using c'(4) by simp
    then have m: "mset (items rm') + mset (items [Node h' n d [c']]) = mset (items removed) + mset (items [Node h' n d cs])"
      by (simp add: info_def)
    have "node_hash c' = node_hash (cs ! i)" using c'(2) by (simp add: info_def)
    then have k: "node_ok anc num K (Node h' n d [c'])"
      using ok(2-4) c'(3) nth_mem [OF i(1)] by (simp add: siblings_ok_def)
    have "filter ?R (nodes [Node h' n d cs]) = Node h' n d cs # filter ?R (nodes cs)" using self by simp
    then have "map info (filter ?R (nodes [Node h' n d cs])) = info (Node h' n d cs) # items [c']"
      unfolding filter_related_siblings [OF ok(1) i] by (simp only: list.map c'(5))
    then have f: "items [Node h' n d [c']] = map info (filter ?R (nodes [Node h' n d cs]))" by (simp add: info_def)
    have w: "prune_walk isd h (num h) (Node h' n d cs) removed = (Inr (), Node h' n d [c'], rm')"
      using fa Some c'(1) by simp
    have j: "info (Node h' n d [c']) = info (Node h' n d cs)" by (simp add: info_def)
    show ?thesis by (rule exI, rule exI, intro conjI, rule w, rule j, rule k, rule m, rule f)
  next
    case None
    then have no: "\<forall>c \<in> set cs. \<not> anc (node_hash c) h" by (simp add: position_of_None)
    let ?Q = "\<lambda>c. node_hash c = h \<or> anc h (node_hash c)"
    have pc: "prune_children isd h (num h) cs [] removed = (Inr (), filter ?Q cs, removed @ filter (\<lambda>c. \<not> ?Q c) cs)"
      using prune_children_eq [of cs "num h" isd h "\<lambda>c. anc h (node_hash c)" "[]" removed]
        isd_guarded(2) [OF forest_okD(1) [OF ok(1)] h] node_okD(4) [OF forest_okD(1) [OF ok(1)]] by auto
    have "nodes (filter ?Q cs) = filter ?R (nodes cs)"
    proof (rule nodes_filter_roots)
      fix c assume c: "c \<in> set cs"
      note cok = forest_okD(1) [OF ok(1) c]
      show "\<forall>y \<in> set (nodes [c]). \<not> ?R y" if "\<not> ?Q c"
      proof
        fix y assume y: "y \<in> set (nodes [c])"
        have "\<not> anc (node_hash y) h" using descendants [OF cok y] no c anc_trans by blast
        then show "\<not> ?R y" using unrelated_subtree [OF cok _ _ _ y] that no c by (auto simp: related_def)
      qed
      show "\<forall>y \<in> set (nodes [c]). ?R y" if "?Q c"
        using that descendants [OF cok] anc_trans by (auto simp: related_def)
    qed
    then have "items (filter ?Q cs) = map info (filter ?R (nodes cs))" by (simp only: items_def)
    then have f: "items [Node h' n d (filter ?Q cs)] = map info (filter ?R (nodes [Node h' n d cs]))"
      using self by (simp add: info_def)
    have k: "node_ok anc num K (Node h' n d (filter ?Q cs))"
      using ok forest_ok_filter [OF ok(1), of ?Q] by (simp add: forest_ok_def)
    have m: "mset (items (removed @ filter (\<lambda>c. \<not> ?Q c) cs)) + mset (items [Node h' n d (filter ?Q cs)]) =
        mset (items removed) + mset (items [Node h' n d cs])"
      using mset_items_split [of ?Q cs] by (simp add: info_def ac_simps)
    have w: "prune_walk isd h (num h) (Node h' n d cs) removed =
        (Inr (), Node h' n d (filter ?Q cs), removed @ filter (\<lambda>c. \<not> ?Q c) cs)"
      unfolding prune_walk.simps fa None pc by simp
    have j: "info (Node h' n d (filter ?Q cs)) = info (Node h' n d cs)" by (simp add: info_def)
    show ?thesis by (rule exI, rule exI, intro conjI, rule w, rule j, rule k, rule m, rule f)
  qed
qed

lemma prune_spec:
  assumes ok: "forest_ok anc num K (roots t)" and h: "h \<in> K"
  shows "\<exists>removed t'. prune t h (num h) isd P = Some (Inr removed, t') \<and> forest_ok anc num K (roots t') \<and>
    mset removed + mset (items (roots t')) = mset (items (roots t)) \<and> best_finalized_number t' = best_finalized_number t \<and>
    (case filter (P \<circ> node_data) (lineage anc h (roots t)) of
       [] \<Rightarrow> t' = t
     | x # xs \<Rightarrow> set (items (roots t')) = info ` {y \<in> set (nodes (roots t)). related anc h (node_hash y) \<and>
         (node_hash y = node_hash (last (x # xs)) \<or> anc (node_hash (last (x # xs))) (node_hash y))})"
proof -
  let ?l = "lineage anc h (roots t)"
  from find_index_spec [OF ok h, of P] obtain mp where mp: "find_node_index_where t h (num h) isd P = Inr mp"
    and spec: "case mp of None \<Rightarrow> best_on P ?l None
     | Some p \<Rightarrow> p \<noteq> [] \<and> (\<exists>l1. path_nodes (roots t) p = Some l1 \<and> best_on P ?l (Some l1))" by blast
  show ?thesis
  proof (cases mp)
    case None
    then have "filter (P \<circ> node_data) ?l = []" using spec by (auto simp: best_on_def filter_empty_conv)
    then show ?thesis using mp None ok by (simp add: prune_def removed_iter_eq)
  next
    case (Some p)
    then obtain l1 l2 where p: "p \<noteq> []" "path_nodes (roots t) p = Some l1" and l: "?l = l1 @ l2" "l1 \<noteq> []" "P (node_data (last l1))"
      "\<forall>x \<in> set l2. \<not> P (node_data x)" using spec by (auto simp: best_on_def)
    let ?x = "last l1"
    have "filter (P \<circ> node_data) l2 = []" using l(4) by (simp add: filter_empty_conv)
    moreover have "filter (P \<circ> node_data) (butlast l1 @ [?x]) = filter (P \<circ> node_data) (butlast l1) @ [?x]" using l(3) by simp
    then have "filter (P \<circ> node_data) l1 = filter (P \<circ> node_data) (butlast l1) @ [?x]" using l(2) by simp
    ultimately have fl: "filter (P \<circ> node_data) ?l \<noteq> []" "last (filter (P \<circ> node_data) ?l) = ?x" by (simp_all add: l(1))
    have "?x \<in> set ?l" using l(1,2) by simp
    then have x: "?x \<in> set (nodes (roots t))" "anc (node_hash ?x) h" using lineage_set [OF ok, of h] by auto
    have xok: "node_ok anc num K ?x" using ok x(1) by (rule forest_descendants)
    let ?rm = "modify_at (butlast p) (\<lambda>cs. take (last p) cs @ drop (Suc (last p)) cs) (roots t)"
    have det: "detach_at p (roots t) = Some (?x, ?rm)" using node_at_path_nodes [OF p(2,1)] by (simp add: detach_at_def)
    note rm = path_nodes_modify [OF p(2,1)]
    from prune_walk_spec [OF h xok x(2), of ?rm] obtain x' rm' where w: "prune_walk isd h (num h) ?x ?rm = (Inr (), x', rm')"
      "node_ok anc num K x'" "mset (items rm') + mset (items [x']) = mset (items ?rm) + mset (items [?x])"
      "items [x'] = map info (filter (\<lambda>y. related anc h (node_hash y)) (nodes [?x]))" by blast
    let ?t = "t\<lparr>roots := [x']\<rparr>"
    have res: "prune t h (num h) isd P = Some (Inr (removed_iter rm'), rebalance ?t)"
      using mp Some det w(1) by (simp add: prune_def)
    have ritems: "mset (removed_iter rm') = mset (items rm')" unfolding removed_iter_eq by (rule mset_items_perm) simp
    have fok: "forest_ok anc num K (roots (rebalance ?t))"
      unfolding forest_ok_rebalance using w(2) by (simp add: forest_ok_def siblings_ok_def)
    have kept: "set (items (roots (rebalance ?t))) = info ` {y \<in> set (nodes [?x]). related anc h (node_hash y)}"
    proof -
      have "set (items (roots (rebalance ?t))) = set (items [x'])"
        using mset_eq_setD [OF rebalance_items [of ?t]] by (simp del: items_simps)
      then show ?thesis unfolding w(4) set_map set_filter .
    qed
    have "y \<in> set (nodes [?x]) \<longleftrightarrow> y \<in> set (nodes (roots t)) \<and> (node_hash y = node_hash ?x \<or> anc (node_hash ?x) (node_hash y))" for y
    proof
      assume y: "y \<in> set (nodes [?x])"
      have "set (nodes [?x]) \<subseteq> set (nodes (roots t))" using subtree_subset [OF x(1)] .
      then show "y \<in> set (nodes (roots t)) \<and> (node_hash y = node_hash ?x \<or> anc (node_hash ?x) (node_hash y))"
        using y descendants [OF xok y] by blast
    next
      assume "y \<in> set (nodes (roots t)) \<and> (node_hash y = node_hash ?x \<or> anc (node_hash ?x) (node_hash y))"
      then consider "y \<in> set (nodes (roots t))" "node_hash y = node_hash ?x" | "y \<in> set (nodes (roots t))" "anc (node_hash ?x) (node_hash y)" by blast
      then show "y \<in> set (nodes [?x])"
      proof cases
        case 1
        then show ?thesis using forest_hash_inj [OF ok x(1) 1(1)] by simp
      qed (rule subtree_complete [OF ok x(1)])
    qed
    then have "{y \<in> set (nodes [?x]). related anc h (node_hash y)} = {y \<in> set (nodes (roots t)). related anc h (node_hash y) \<and>
        (node_hash y = node_hash ?x \<or> anc (node_hash ?x) (node_hash y))}" by blast
    then have kept': "set (items (roots (rebalance ?t))) = info ` {y \<in> set (nodes (roots t)). related anc h (node_hash y) \<and>
        (node_hash y = node_hash ?x \<or> anc (node_hash ?x) (node_hash y))}" using kept by simp
    have all: "mset (removed_iter rm') + mset (items (roots (rebalance ?t))) = mset (items (roots t))"
      unfolding ritems rebalance_items using w(3) rm by (simp del: items_simps)
    have best: "best_finalized_number (rebalance ?t) = best_finalized_number t" by (simp add: rebalance_roots(2))
    from fl obtain z zs where zs: "filter (P \<circ> node_data) ?l = z # zs" "last (z # zs) = ?x"
      by (cases "filter (P \<circ> node_data) ?l") auto
    show ?thesis unfolding zs(1) list.case zs(2) using res fok all best kept' by blast
  qed
qed

end

section \<open>Finalization by a descendant\<close>

lemma past_child_eq:
  assumes "\<And>c. c \<in> set cs \<Longrightarrow> (if node_number c \<le> number then same_or_above isd h c else Inr False) = Inr (Q c)"
  shows "past_child isd h number cs = Inr (\<exists>c \<in> set cs. Q c)"
  using assms
proof (induction cs)
  case (Cons c cs)
  have "(if node_number c \<le> number then same_or_above isd h c else Inr False) = Inr (Q c)" using Cons.prems by simp
  then show ?case using Cons by (cases "node_number c \<le> number"; cases "Q c") auto
qed simp

lemma first_passing_eq:
  assumes "\<And>x. x \<in> set ns \<Longrightarrow> same_or_above isd h x = Inr (A x)"
    and "\<And>x. x \<in> set ns \<Longrightarrow> past_child isd h number (node_children x) = Inr (B x)"
  shows "first_passing isd h number P i ns =
    (case position_of (\<lambda>x. P (node_data x) \<and> A x) ns of
       None \<Rightarrow> Inr None
     | Some j \<Rightarrow> if B (ns ! j) then Inl UnfinalizedAncestor else Inr (Some (i + j, ns ! j)))"
  using assms
proof (induction ns arbitrary: i)
  case (Cons x ns)
  have x: "same_or_above isd h x = Inr (A x)" "past_child isd h number (node_children x) = Inr (B x)" using Cons.prems by simp_all
  have IH: "first_passing isd h number P (i + 1) ns =
    (case position_of (\<lambda>x. P (node_data x) \<and> A x) ns of
       None \<Rightarrow> Inr None
     | Some j \<Rightarrow> if B (ns ! j) then Inl UnfinalizedAncestor else Inr (Some (i + 1 + j, ns ! j)))"
    using Cons.prems by (intro Cons.IH) simp_all
  show ?case using x IH by (cases "P (node_data x)"; cases "A x") (auto split: option.splits)
qed simp

context ancestry
begin

lemma same_or_above_eq:
  assumes "node_ok anc num K nd" "h \<in> K"
  shows "same_or_above isd h nd = Inr (node_hash nd = h \<or> anc (node_hash nd) h)"
    "(if node_number nd \<le> num h then same_or_above isd h nd else Inr False) = Inr (node_hash nd = h \<or> anc (node_hash nd) h)"
proof -
  show s: "same_or_above isd h nd = Inr (node_hash nd = h \<or> anc (node_hash nd) h)"
    using isd_anc [OF node_okD(3) [OF assms(1)] assms(2)] by (auto simp: same_or_above_def)
  have "node_hash nd = h \<or> anc (node_hash nd) h \<Longrightarrow> node_number nd \<le> num h"
    using node_okD(4) [OF assms(1)] anc_num by (auto simp: less_imp_le)
  then show "(if node_number nd \<le> num h then same_or_above isd h nd else Inr False) = Inr (node_hash nd = h \<or> anc (node_hash nd) h)"
    using s by auto
qed

lemma retain_related_eq:
  assumes "node_ok anc num K nd" "h \<in> K"
  shows "retain_related isd h (num h) nd = Inr (related anc h (node_hash nd))"
  using retain_below_eq [OF assms] isd_anc [OF node_okD(3) [OF assms(1)] assms(2)] node_okD(4) [OF assms(1)]
  by (auto simp: retain_related_def related_def)

lemma finalize_with_descendent_if_spec:
  assumes ok: "forest_ok anc num K (roots t)" and h: "h \<in> K" and nr: "\<not> reverts t (num h)"
    and fin: "finalize_with_descendent_if t h (num h) isd P = (r, t')"
  shows "case position_of (\<lambda>x. P (node_data x) \<and> (node_hash x = h \<or> anc (node_hash x) h)) (roots t) of
      None \<Rightarrow> (\<exists>c. r = Inr c \<and> (\<forall>d. c \<noteq> Changed (Some d))) \<and> best_finalized_number t' = Some (num h) \<and>
        roots t' = filter (\<lambda>x. related anc h (node_hash x)) (roots t)
    | Some i \<Rightarrow>
        if \<exists>c \<in> set (node_children (roots t ! i)). node_hash c = h \<or> anc (node_hash c) h
        then r = Inl UnfinalizedAncestor \<and> t' = t
        else r = Inr (Changed (Some (node_data (roots t ! i)))) \<and> best_finalized_number t' = Some (num h) \<and>
          forest_ok anc num K (roots t') \<and> roots t' = filter (\<lambda>x. anc h (node_hash x)) (node_children (roots t ! i))"
proof -
  let ?A = "\<lambda>x. node_hash x = h \<or> anc (node_hash x) h"
  note rok = forest_okD(1) [OF ok]
  have pc: "past_child isd h (num h) (node_children x) = Inr (\<exists>c \<in> set (node_children x). ?A c)" if "x \<in> set (roots t)" for x
    using same_or_above_eq(2) [OF _ h] forest_okD(1) [OF node_okD(1) [OF rok [OF that]]] by (intro past_child_eq) blast
  have fp: "first_passing isd h (num h) P 0 (roots t) =
      (case position_of (\<lambda>x. P (node_data x) \<and> ?A x) (roots t) of
         None \<Rightarrow> Inr None
       | Some j \<Rightarrow> if \<exists>c \<in> set (node_children (roots t ! j)). ?A c then Inl UnfinalizedAncestor else Inr (Some (j, roots t ! j)))"
    using first_passing_eq [of "roots t" isd h ?A "num h" "\<lambda>x. \<exists>c \<in> set (node_children x). ?A c" P 0]
      same_or_above_eq(1) [OF rok h] pc by (simp split: option.splits)
  have ret: "retain_roots (retain_related isd h (num h)) rs [] False =
      (Inr (\<exists>x \<in> set rs. \<not> related anc h (node_hash x)), filter (\<lambda>x. related anc h (node_hash x)) rs)"
    if "forest_ok anc num K rs" for rs :: "('h, 'n, 'v) node list"
    using retain_roots_eq [of rs "retain_related isd h (num h)" "\<lambda>x. related anc h (node_hash x)" "[]" False]
      retain_related_eq [OF forest_okD(1) [OF that] h] by simp
  show ?thesis
  proof (cases "position_of (\<lambda>x. P (node_data x) \<and> ?A x) (roots t)")
    case None
    then show ?thesis using fin nr fp ret [OF ok] by (auto simp: finalize_with_descendent_if_def)
  next
    case (Some i)
    let ?cs = "node_children (roots t ! i)"
    have csok: "forest_ok anc num K ?cs" using position_of_Some [OF Some] by (intro node_okD(1) rok) simp
    show ?thesis
    proof (cases "\<exists>c \<in> set ?cs. ?A c")
      case True
      then show ?thesis using fin nr fp Some by (simp add: finalize_with_descendent_if_def)
    next
      case False
      have eq: "filter (\<lambda>x. related anc h (node_hash x)) ?cs = filter (\<lambda>x. anc h (node_hash x)) ?cs"
        using False by (intro filter_cong) (auto simp: related_def)
      show ?thesis using fin nr fp Some False ret [OF csok] eq forest_ok_filter [OF csok, of "\<lambda>x. anc h (node_hash x)"]
        by (auto simp: finalize_with_descendent_if_def finalize_root_at_def Let_def)
    qed
  qed
qed

end

end
