(* ===== verification/Header_Metadata.thy ===== *)
theory Header_Metadata
  imports Fork_Tree_Ops
begin

text \<open>
  The tree of headers behind the client: cached header metadata, the lowest common ancestor with
  its cached ancestor links and the tree route of \<^verbatim>\<open>primitives/blockchain/src/header_metadata.rs\<close>,
  the metadata lookup of \<^verbatim>\<open>client/db/src/lib.rs\<close>, and the ancestry check the fork trees are called
  with, \<^verbatim>\<open>is_descendent_of\<close> of \<^verbatim>\<open>client/api/src/lib.rs\<close>. Block numbers are natural numbers. Reading a
  header from the database is the function \<open>db_header\<close> of the backend, which may fail. What the LRU
  map of the cache drops when an entry is inserted is the parameter \<open>evict\<close>. The loops follow links
  found in the cache, so they are partial: \<open>None\<close> is a loop that never ends.
\<close>

section \<open>Data\<close>

datatype 'h block_error = UnknownBlock 'h | Backend string

record 'h header =
  hd_hash :: 'h
  hd_number :: nat
  hd_parent :: 'h
  hd_state_root :: 'h

record 'h CachedHeaderMetadata =
  hm_hash :: 'h
  hm_number :: nat
  hm_parent :: 'h
  hm_state_root :: 'h
  hm_ancestor :: 'h

type_synonym 'h metadata_cache = "'h \<Rightarrow> 'h CachedHeaderMetadata option"

record 'h backend =
  db_header :: "'h \<Rightarrow> ('h block_error, 'h header option) result"
  header_metadata_cache :: "'h metadata_cache"

definition metadata_from :: "'h header \<Rightarrow> 'h CachedHeaderMetadata" where
  "metadata_from hdr = \<lparr>hm_hash = hd_hash hdr, hm_number = hd_number hdr, hm_parent = hd_parent hdr,
     hm_state_root = hd_state_root hdr, hm_ancestor = hd_parent hdr\<rparr>"

section \<open>The cache and the lookup\<close>

definition cache_insert ::
  "('h metadata_cache \<Rightarrow> 'h metadata_cache) \<Rightarrow> 'h \<Rightarrow> 'h CachedHeaderMetadata \<Rightarrow> 'h metadata_cache \<Rightarrow> 'h metadata_cache" where
  "cache_insert evict hash metadata c = evict (c(hash \<mapsto> metadata))"

definition cache_remove :: "'h \<Rightarrow> 'h metadata_cache \<Rightarrow> 'h metadata_cache" where
  "cache_remove hash c = c(hash := None)"

definition insert_header_metadata ::
  "('h metadata_cache \<Rightarrow> 'h metadata_cache) \<Rightarrow> 'h backend \<Rightarrow> 'h \<Rightarrow> 'h CachedHeaderMetadata \<Rightarrow> 'h backend" where
  "insert_header_metadata evict b hash metadata =
     b\<lparr>header_metadata_cache := cache_insert evict hash metadata (header_metadata_cache b)\<rparr>"

definition remove_header_metadata :: "'h backend \<Rightarrow> 'h \<Rightarrow> 'h backend" where
  "remove_header_metadata b hash = b\<lparr>header_metadata_cache := cache_remove hash (header_metadata_cache b)\<rparr>"

definition header_metadata ::
  "('h metadata_cache \<Rightarrow> 'h metadata_cache) \<Rightarrow> 'h backend \<Rightarrow> 'h
     \<Rightarrow> ('h block_error, 'h CachedHeaderMetadata) result \<times> 'h backend" where
  "header_metadata evict b hash =
     (case header_metadata_cache b hash of
        Some m \<Rightarrow> (Inr m, b)
      | None \<Rightarrow>
          (case db_header b hash of
             Inl e \<Rightarrow> (Inl e, b)
           | Inr None \<Rightarrow> (Inl (UnknownBlock hash), b)
           | Inr (Some header) \<Rightarrow>
               (let m = metadata_from header in (Inr m, insert_header_metadata evict b (hm_hash m) m))))"

text \<open>Sequencing of a lookup with what follows it.\<close>

definition look ::
  "('e, 'a) result \<times> 's \<Rightarrow> ('a \<Rightarrow> 's \<Rightarrow> (('e, 'b) result \<times> 's) option) \<Rightarrow> (('e, 'b) result \<times> 's) option" where
  "look x f = (case x of (Inl e, s) \<Rightarrow> Some (Inl e, s) | (Inr a, s) \<Rightarrow> f a s)"

definition look_opt ::
  "(('e, 'a) result \<times> 's) option \<Rightarrow> ('a \<Rightarrow> 's \<Rightarrow> (('e, 'b) result \<times> 's) option) \<Rightarrow> (('e, 'b) result \<times> 's) option" where
  "look_opt x f = Option.bind x (\<lambda>y. look y f)"

lemma look_simps [simp]: "look (Inl e, s) f = Some (Inl e, s)" "look (Inr a, s) f = f a s"
  "look_opt (Some y) f = look y f" "look_opt None f = None"
  by (simp_all add: look_def look_opt_def)

section \<open>Lowest common ancestor\<close>

text \<open>The loop along the ancestor links, for the header with the greater number.\<close>

partial_function (option) jump_loop ::
  "('h metadata_cache \<Rightarrow> 'h metadata_cache) \<Rightarrow> 'h backend \<Rightarrow> 'h CachedHeaderMetadata \<Rightarrow> nat
     \<Rightarrow> (('h block_error, 'h CachedHeaderMetadata) result \<times> 'h backend) option" where
  "jump_loop evict b header limit =
     (if hm_number header > limit then
        (case header_metadata evict b (hm_ancestor header) of
           (Inl e, b') \<Rightarrow> Some (Inl e, b')
         | (Inr ancestor, b') \<Rightarrow>
             if hm_number ancestor \<ge> limit then jump_loop evict b' ancestor limit
             else Some (Inr header, b'))
      else Some (Inr header, b))"

text \<open>The loop along the parent links.\<close>

partial_function (option) parent_loop ::
  "('h metadata_cache \<Rightarrow> 'h metadata_cache) \<Rightarrow> 'h backend \<Rightarrow> 'h CachedHeaderMetadata \<Rightarrow> 'h CachedHeaderMetadata
     \<Rightarrow> (('h block_error, 'h CachedHeaderMetadata) result \<times> 'h backend) option" where
  "parent_loop evict b header_one header_two =
     (if hm_hash header_one \<noteq> hm_hash header_two then
        (if hm_number header_one > hm_number header_two then
           (case header_metadata evict b (hm_parent header_one) of
              (Inl e, b') \<Rightarrow> Some (Inl e, b')
            | (Inr p, b') \<Rightarrow> parent_loop evict b' p header_two)
         else
           (case header_metadata evict b (hm_parent header_two) of
              (Inl e, b') \<Rightarrow> Some (Inl e, b')
            | (Inr p, b') \<Rightarrow> parent_loop evict b' header_one p))
      else Some (Inr header_one, b))"

text \<open>Writing back the ancestor link found.\<close>

definition update_ancestor ::
  "('h metadata_cache \<Rightarrow> 'h metadata_cache) \<Rightarrow> 'h CachedHeaderMetadata \<Rightarrow> 'h CachedHeaderMetadata \<Rightarrow> 'h backend \<Rightarrow> 'h backend" where
  "update_ancestor evict orig header b =
     (if hm_number orig > hm_number header
      then insert_header_metadata evict b (hm_hash orig) (orig\<lparr>hm_ancestor := hm_hash header\<rparr>) else b)"

definition lowest_common_ancestor ::
  "('h metadata_cache \<Rightarrow> 'h metadata_cache) \<Rightarrow> 'h backend \<Rightarrow> 'h \<Rightarrow> 'h
     \<Rightarrow> (('h block_error, 'h \<times> nat) result \<times> 'h backend) option" where
  "lowest_common_ancestor evict b id_one id_two =
     look (header_metadata evict b id_one) (\<lambda>header_one b.
       if hm_parent header_one = id_two then Some (Inr (id_two, hm_number header_one - 1), b)
       else look (header_metadata evict b id_two) (\<lambda>header_two b.
         if hm_parent header_two = id_one then Some (Inr (id_one, hm_number header_one), b)
         else look_opt (jump_loop evict b header_one (hm_number header_two)) (\<lambda>h1 b.
           look_opt (jump_loop evict b header_two (hm_number h1)) (\<lambda>h2 b.
             look_opt (parent_loop evict b h1 h2) (\<lambda>h b.
               Some (Inr (hm_hash h, hm_number h),
                 update_ancestor evict header_two h (update_ancestor evict header_one h b)))))))"

section \<open>Tree routes\<close>

type_synonym 'h hash_and_number = "nat \<times> 'h"

record 'h TreeRoute =
  route :: "'h hash_and_number list"
  pivot :: nat

text \<open>Collects the blocks from a header up while its number exceeds the limit.\<close>

partial_function (option) climb_loop ::
  "('h metadata_cache \<Rightarrow> 'h metadata_cache) \<Rightarrow> 'h backend \<Rightarrow> 'h CachedHeaderMetadata \<Rightarrow> nat \<Rightarrow> 'h hash_and_number list
     \<Rightarrow> (('h block_error, 'h CachedHeaderMetadata \<times> 'h hash_and_number list) result \<times> 'h backend) option" where
  "climb_loop evict b header limit branch =
     (if hm_number header > limit then
        (case header_metadata evict b (hm_parent header) of
           (Inl e, b') \<Rightarrow> Some (Inl e, b')
         | (Inr p, b') \<Rightarrow> climb_loop evict b' p limit (branch @ [(hm_number header, hm_hash header)]))
      else Some (Inr (header, branch), b))"

partial_function (option) meet_loop ::
  "('h metadata_cache \<Rightarrow> 'h metadata_cache) \<Rightarrow> 'h backend \<Rightarrow> 'h CachedHeaderMetadata \<Rightarrow> 'h CachedHeaderMetadata
     \<Rightarrow> 'h hash_and_number list \<Rightarrow> 'h hash_and_number list
     \<Rightarrow> (('h block_error, 'h CachedHeaderMetadata \<times> 'h hash_and_number list \<times> 'h hash_and_number list) result \<times> 'h backend) option" where
  "meet_loop evict b to from to_branch from_branch =
     (if hm_hash to \<noteq> hm_hash from then
        (case header_metadata evict b (hm_parent to) of
           (Inl e, b') \<Rightarrow> Some (Inl e, b')
         | (Inr to', b') \<Rightarrow>
             (case header_metadata evict b' (hm_parent from) of
                (Inl e, b'') \<Rightarrow> Some (Inl e, b'')
              | (Inr from', b'') \<Rightarrow>
                  meet_loop evict b'' to' from' (to_branch @ [(hm_number to, hm_hash to)])
                    (from_branch @ [(hm_number from, hm_hash from)])))
      else Some (Inr (to, to_branch, from_branch), b))"

definition tree_route ::
  "('h metadata_cache \<Rightarrow> 'h metadata_cache) \<Rightarrow> 'h backend \<Rightarrow> 'h \<Rightarrow> 'h
     \<Rightarrow> (('h block_error, 'h TreeRoute) result \<times> 'h backend) option" where
  "tree_route evict b from_id to_id =
     look (header_metadata evict b from_id) (\<lambda>from b.
       look (header_metadata evict b to_id) (\<lambda>to b.
         look_opt (climb_loop evict b to (hm_number from) []) (\<lambda>(to, to_branch) b.
           look_opt (climb_loop evict b from (hm_number to) []) (\<lambda>(from, from_branch) b.
             look_opt (meet_loop evict b to from to_branch from_branch) (\<lambda>(to, to_branch, from_branch) b.
               Some (Inr \<lparr>route = from_branch @ [(hm_number to, hm_hash to)] @ rev to_branch,
                          pivot = length from_branch\<rparr>, b))))))"

text \<open>The error carries the pivot and the length of the route, as its message does.\<close>

definition tree_route_new :: "'h hash_and_number list \<Rightarrow> nat \<Rightarrow> (nat \<times> nat, 'h TreeRoute) result" where
  "tree_route_new rt p =
     (if p < length rt then Inr \<lparr>route = rt, pivot = p\<rparr>
      else Inl (p, length rt))"

definition retracted :: "'h TreeRoute \<Rightarrow> 'h hash_and_number list" where
  "retracted r = take (pivot r) (route r)"

definition into_retracted :: "'h TreeRoute \<Rightarrow> 'h hash_and_number list" where
  "into_retracted r = take (pivot r) (route r)"

definition common_block :: "'h TreeRoute \<Rightarrow> 'h hash_and_number option" where
  "common_block r = nth_opt (route r) (pivot r)"

definition enacted :: "'h TreeRoute \<Rightarrow> 'h hash_and_number list" where
  "enacted r = drop (pivot r + 1) (route r)"

definition route_last :: "'h TreeRoute \<Rightarrow> 'h hash_and_number option" where
  "route_last r = (if route r = [] then None else Some (last (route r)))"

section \<open>The ancestry check\<close>

definition is_descendent_of ::
  "('h metadata_cache \<Rightarrow> 'h metadata_cache) \<Rightarrow> 'h backend \<Rightarrow> ('h \<times> 'h) option \<Rightarrow> 'h \<Rightarrow> 'h
     \<Rightarrow> (('h block_error, bool) result \<times> 'h backend) option" where
  "is_descendent_of evict b current base hash =
     (if base = hash then Some (Inr False, b)
      else
        (let answer = (\<lambda>hash. look_opt (lowest_common_ancestor evict b hash base) (\<lambda>(ancestor, _) b.
                          Some (Inr (ancestor = base), b)))
         in case current of
              None \<Rightarrow> answer hash
            | Some (current_hash, current_parent_hash) \<Rightarrow>
                if base = current_hash then Some (Inr False, b)
                else if hash = current_hash then
                  (if base = current_parent_hash then Some (Inr True, b) else answer current_parent_hash)
                else answer hash))"

section \<open>The tree of headers\<close>

type_synonym 'h headers = "'h \<Rightarrow> ('h block_error, 'h header option) result"

definition header_at :: "'h headers \<Rightarrow> 'h \<Rightarrow> 'h header option" where
  "header_at d h = (case d h of Inr x \<Rightarrow> x | Inl _ \<Rightarrow> None)"

definition known :: "'h headers \<Rightarrow> 'h \<Rightarrow> bool" where
  "known d h \<longleftrightarrow> header_at d h \<noteq> None"

definition block_number :: "'h headers \<Rightarrow> 'h \<Rightarrow> nat" where
  "block_number d h = (case header_at d h of Some hdr \<Rightarrow> hd_number hdr | None \<Rightarrow> 0)"

definition parent_of :: "'h headers \<Rightarrow> 'h \<Rightarrow> 'h" where
  "parent_of d h = (case header_at d h of Some hdr \<Rightarrow> hd_parent hdr | None \<Rightarrow> h)"

primrec up :: "'h headers \<Rightarrow> 'h \<Rightarrow> nat \<Rightarrow> 'h" where
  "up d h 0 = h"
| "up d h (Suc k) = parent_of d (up d h k)"

text \<open>
  A database with the whole chain: headers are stored under their hashes, the parent of every block
  but the one genesis block is stored and has the number before, and the genesis block's parent hash
  is no block.
\<close>

definition chain_ok :: "'h headers \<Rightarrow> bool" where
  "chain_ok d \<longleftrightarrow>
     (\<forall>h hdr. header_at d h = Some hdr \<longrightarrow> hd_hash hdr = h \<and>
        (if hd_number hdr = 0 then \<not> known d (hd_parent hdr)
         else known d (hd_parent hdr) \<and> Suc (block_number d (hd_parent hdr)) = hd_number hdr)) \<and>
     (\<forall>h h'. known d h \<longrightarrow> known d h' \<longrightarrow> block_number d h = 0 \<longrightarrow> block_number d h' = 0 \<longrightarrow> h = h')"

definition above :: "'h headers \<Rightarrow> 'h \<Rightarrow> 'h \<Rightarrow> bool" where
  "above d a h \<longleftrightarrow> (\<exists>k \<le> block_number d h. up d h k = a)"

lemma knownE:
  assumes "chain_ok d" "known d h"
  obtains hdr where "header_at d h = Some hdr" "hd_hash hdr = h" "hd_number hdr = block_number d h" "hd_parent hdr = parent_of d h"
  using assms by (auto simp: known_def chain_ok_def block_number_def parent_of_def)

lemma parent_known:
  assumes "chain_ok d" "known d h"
  shows "0 < block_number d h \<Longrightarrow> known d (parent_of d h) \<and> Suc (block_number d (parent_of d h)) = block_number d h"
    "block_number d h = 0 \<Longrightarrow> \<not> known d (parent_of d h)"
proof -
  from knownE [OF assms] obtain hdr where
    hdr: "header_at d h = Some hdr" "hd_number hdr = block_number d h" "hd_parent hdr = parent_of d h" .
  have "if hd_number hdr = 0 then \<not> known d (hd_parent hdr)
      else known d (hd_parent hdr) \<and> Suc (block_number d (hd_parent hdr)) = hd_number hdr"
    using assms(1) hdr(1) unfolding chain_ok_def by blast
  then show "0 < block_number d h \<Longrightarrow> known d (parent_of d h) \<and> Suc (block_number d (parent_of d h)) = block_number d h"
    "block_number d h = 0 \<Longrightarrow> \<not> known d (parent_of d h)"
    unfolding hdr(2,3) by (simp_all split: if_splits)
qed

lemma genesis_unique:
  "chain_ok d \<Longrightarrow> known d h \<Longrightarrow> known d h' \<Longrightarrow> block_number d h = 0 \<Longrightarrow> block_number d h' = 0 \<Longrightarrow> h = h'"
  unfolding chain_ok_def by blast

lemma up_known:
  assumes "chain_ok d" "known d h"
  shows "k \<le> block_number d h \<Longrightarrow> known d (up d h k) \<and> block_number d (up d h k) = block_number d h - k"
proof (induction k)
  case (Suc k)
  then have "known d (up d h k)" "block_number d (up d h k) = block_number d h - k" by auto
  with parent_known(1) [OF assms(1), of "up d h k"] Suc.prems show ?case by auto
qed (use assms in simp)

lemma up_up: "up d (up d h k) j = up d h (k + j)"
  by (induction j) auto

lemma above_refl [simp]: "above d h h"
  by (auto simp: above_def intro: exI [of _ 0])

lemma above_known:
  assumes "chain_ok d" "known d h" "above d a h"
  shows "known d a" "block_number d a \<le> block_number d h" "up d h (block_number d h - block_number d a) = a"
proof -
  from assms(3) obtain k where k: "k \<le> block_number d h" "up d h k = a" by (auto simp: above_def)
  from up_known [OF assms(1,2) k(1)] k(2) have "known d a" "block_number d a = block_number d h - k" by auto
  then show "known d a" "block_number d a \<le> block_number d h" "up d h (block_number d h - block_number d a) = a"
    using k by auto
qed

lemma above_iff:
  assumes "chain_ok d" "known d h"
  shows "above d a h \<longleftrightarrow> block_number d a \<le> block_number d h \<and> up d h (block_number d h - block_number d a) = a"
  using above_known [OF assms] by (auto simp: above_def intro: exI [of _ "block_number d h - block_number d a"])

lemma above_trans:
  assumes "chain_ok d" "known d h" "above d a h" "above d c a"
  shows "above d c h"
proof -
  note a = above_known [OF assms(1-3)]
  note c = above_known [OF assms(1) a(1) assms(4)]
  have "up d h ((block_number d h - block_number d a) + (block_number d a - block_number d c)) = c"
    using c(3) a(3) up_up [of d h "block_number d h - block_number d a"] by simp
  then show ?thesis using a(2) c(2) by (auto simp: above_def intro!: exI [of _ "block_number d h - block_number d c"])
qed

lemma above_linear:
  assumes "chain_ok d" "known d h" "above d a h" "above d c h" "block_number d a \<le> block_number d c"
  shows "above d a c"
proof -
  note a = above_known [OF assms(1-3)] and c = above_known [OF assms(1,2,4)]
  have "up d c (block_number d c - block_number d a) = up d h ((block_number d h - block_number d c) + (block_number d c - block_number d a))"
    using c(3) up_up [of d h "block_number d h - block_number d c"] by simp
  then have "up d c (block_number d c - block_number d a) = a" using a(3) c(2) assms(5) by simp
  then show ?thesis using above_iff [OF assms(1) c(1)] assms(5) by simp
qed

lemma above_same_number:
  "chain_ok d \<Longrightarrow> known d h \<Longrightarrow> above d a h \<Longrightarrow> block_number d a = block_number d h \<Longrightarrow> a = h"
  using above_known(3) [of d h a] by simp

lemma above_parent:
  assumes "chain_ok d" "known d h" "0 < block_number d h"
  shows "above d (parent_of d h) h" "above d a h \<Longrightarrow> a \<noteq> h \<Longrightarrow> above d a (parent_of d h)"
proof -
  show p: "above d (parent_of d h) h" using assms(3) by (auto simp: above_def intro!: exI [of _ 1])
  assume a: "above d a h" "a \<noteq> h"
  then have "block_number d a < block_number d h"
    using above_known(2) [OF assms(1,2) a(1)] above_same_number [OF assms(1,2) a(1)] by linarith
  then show "above d a (parent_of d h)"
    using above_linear [OF assms(1,2) a(1) p] parent_known(1) [OF assms(1,2,3)] by simp
qed

section \<open>The cache agrees with the headers\<close>

definition meta_ok :: "'h headers \<Rightarrow> 'h \<Rightarrow> 'h CachedHeaderMetadata \<Rightarrow> bool" where
  "meta_ok d h m \<longleftrightarrow> known d h \<and> hm_hash m = h \<and> hm_number m = block_number d h \<and> hm_parent m = parent_of d h \<and>
     (0 < block_number d h \<longrightarrow> above d (hm_ancestor m) h \<and> hm_ancestor m \<noteq> h)"

definition cache_ok :: "'h headers \<Rightarrow> 'h metadata_cache \<Rightarrow> bool" where
  "cache_ok d c \<longleftrightarrow> (\<forall>h m. c h = Some m \<longrightarrow> meta_ok d h m)"

definition backend_ok :: "'h headers \<Rightarrow> 'h backend \<Rightarrow> bool" where
  "backend_ok d b \<longleftrightarrow> db_header b = d \<and> chain_ok d \<and> cache_ok d (header_metadata_cache b)"

text \<open>What is asked of the LRU map: it only forgets.\<close>

definition forgets :: "('h metadata_cache \<Rightarrow> 'h metadata_cache) \<Rightarrow> bool" where
  "forgets evict \<longleftrightarrow> (\<forall>c. evict c \<subseteq>\<^sub>m c)"

lemma meta_ok_facts:
  "meta_ok d h m \<Longrightarrow> known d h" "meta_ok d h m \<Longrightarrow> hm_hash m = h" "meta_ok d h m \<Longrightarrow> hm_number m = block_number d h"
  "meta_ok d h m \<Longrightarrow> hm_parent m = parent_of d h"
  by (simp_all add: meta_ok_def)

lemma insert_ok:
  assumes "forgets evict" "backend_ok d b" "meta_ok d h m"
  shows "backend_ok d (insert_header_metadata evict b h m)"
proof -
  have "evict ((header_metadata_cache b)(h \<mapsto> m)) \<subseteq>\<^sub>m (header_metadata_cache b)(h \<mapsto> m)"
    using assms(1) by (simp add: forgets_def)
  then have "meta_ok d k x" if "evict ((header_metadata_cache b)(h \<mapsto> m)) k = Some x" for k x
    using that assms(2,3) unfolding map_le_def backend_ok_def cache_ok_def
    by (metis (no_types, lifting) domI fun_upd_apply option.inject)
  then show ?thesis using assms(2)
    by (auto simp: backend_ok_def cache_ok_def insert_header_metadata_def cache_insert_def)
qed

lemma remove_ok: "backend_ok d b \<Longrightarrow> backend_ok d (remove_header_metadata b h)"
  by (auto simp: backend_ok_def cache_ok_def remove_header_metadata_def cache_remove_def)

lemma header_metadata_ok:
  assumes "forgets evict" "backend_ok d b" "known d h"
  obtains m b' where "header_metadata evict b h = (Inr m, b')" "meta_ok d h m" "backend_ok d b'"
proof (cases "header_metadata_cache b h")
  case (Some m)
  then have "meta_ok d h m" using assms(2) by (auto simp: backend_ok_def cache_ok_def)
  then show ?thesis using that [of m b] Some assms(2) by (simp add: header_metadata_def)
next
  case None
  have ch: "chain_ok d" "db_header b = d" using assms(2) by (auto simp: backend_ok_def)
  from knownE [OF ch(1) assms(3)] obtain hdr where
    hdr: "header_at d h = Some hdr" "hd_hash hdr = h" "hd_number hdr = block_number d h" "hd_parent hdr = parent_of d h" .
  have anc: "above d (parent_of d h) h \<and> parent_of d h \<noteq> h" if "0 < block_number d h"
    using above_parent(1) [OF ch(1) assms(3) that] parent_known(1) [OF ch(1) assms(3) that] by auto
  have m: "meta_ok d h (metadata_from hdr)" using hdr assms(3) anc by (simp add: meta_ok_def metadata_from_def)
  have "d h = Inr (Some hdr)" using hdr(1) by (auto simp: header_at_def split: sum.splits)
  then show ?thesis
    using that [OF _ m insert_ok [OF assms(1,2) m]] None ch(2) hdr(2) by (simp add: header_metadata_def metadata_from_def Let_def)
qed

lemma header_metadata_unknown:
  assumes "backend_ok d b" "d h = Inr None"
  shows "header_metadata evict b h = (Inl (UnknownBlock h), b)"
proof -
  have "meta_ok d h m \<Longrightarrow> False" for m
    using assms(2) meta_ok_facts(1) [of d h m] by (simp add: known_def header_at_def)
  then have "header_metadata_cache b h = None"
    using assms(1) by (cases "header_metadata_cache b h") (auto simp: backend_ok_def cache_ok_def)
  then show ?thesis using assms by (simp add: header_metadata_def backend_ok_def)
qed

section \<open>The lowest common ancestor is found\<close>

definition common :: "'h headers \<Rightarrow> 'h \<Rightarrow> 'h \<Rightarrow> 'h \<Rightarrow> bool" where
  "common d x y c \<longleftrightarrow> above d c x \<and> above d c y"

definition is_lca :: "'h headers \<Rightarrow> 'h \<Rightarrow> 'h \<Rightarrow> 'h \<Rightarrow> bool" where
  "is_lca d x y c \<longleftrightarrow> common d x y c \<and> (\<forall>c'. common d x y c' \<longrightarrow> above d c' c)"

lemma jump_loop_ok:
  assumes "forgets evict" "backend_ok d b" "meta_ok d h m"
  shows "\<exists>h' m' b'. jump_loop evict b m limit = Some (Inr m', b') \<and> backend_ok d b' \<and> meta_ok d h' m' \<and> above d h' h \<and>
    (h' = h \<or> limit \<le> block_number d h')"
  using assms
proof (induction "block_number d h" arbitrary: b h m rule: less_induct)
  case less
  note m = meta_ok_facts [OF less.prems(3)]
  have ch: "chain_ok d" using less.prems(2) by (simp add: backend_ok_def)
  show ?case
  proof (cases "limit < block_number d h")
    case False
    then show ?thesis using less.prems m by (auto simp: jump_loop.simps [of evict b m limit])
  next
    case True
    let ?a = "hm_ancestor m"
    have a: "above d ?a h" "?a \<noteq> h" using less.prems(3) True by (auto simp: meta_ok_def)
    have ak: "known d ?a" "block_number d ?a < block_number d h"
      using above_known(1,2) [OF ch m(1) a(1)] above_same_number [OF ch m(1) a(1)] a(2) by (auto simp: order.strict_iff_order)
    from header_metadata_ok [OF less.prems(1,2) ak(1)] obtain m1 b1 where
      1: "header_metadata evict b ?a = (Inr m1, b1)" "meta_ok d ?a m1" "backend_ok d b1" .
    show ?thesis
    proof (cases "limit \<le> block_number d ?a")
      case True': True
      from less.hyps [OF ak(2) less.prems(1) 1(3,2)] obtain h' m' b' where
        2: "jump_loop evict b1 m1 limit = Some (Inr m', b')" "backend_ok d b'" "meta_ok d h' m'" "above d h' ?a"
          "h' = ?a \<or> limit \<le> block_number d h'" by blast
      have "jump_loop evict b m limit = jump_loop evict b1 m1 limit"
        using True True' 1(1) m(3) meta_ok_facts(3) [OF 1(2)] by (simp add: jump_loop.simps [of evict b m limit])
      then show ?thesis using 2 above_trans [OF ch m(1) a(1) 2(4)] True' by auto
    next
      case False
      then have "jump_loop evict b m limit = Some (Inr m, b1)"
        using True 1(1) m(3) meta_ok_facts(3) [OF 1(2)] by (simp add: jump_loop.simps [of evict b m limit])
      then show ?thesis using 1(3) less.prems(3) by auto
    qed
  qed
qed

lemma jump_keeps_common:
  assumes "chain_ok d" "known d x" "known d y" "above d x' x" "x' = x \<or> block_number d y \<le> block_number d x'"
  shows "common d x y c \<longleftrightarrow> common d x' y c"
proof
  assume c: "common d x y c"
  then have "block_number d c \<le> block_number d y" using above_known(2) [OF assms(1,3)] by (auto simp: common_def)
  then show "common d x' y c"
    using c above_linear [OF assms(1,2) _ assms(4), of c] assms(5) by (auto simp: common_def)
next
  assume "common d x' y c"
  then show "common d x y c" using above_trans [OF assms(1,2,4)] by (auto simp: common_def)
qed

lemma parent_keeps_common:
  assumes "chain_ok d" "known d x" "known d y" "x \<noteq> y" "block_number d y \<le> block_number d x"
  shows "0 < block_number d x" "common d x y c \<longleftrightarrow> common d (parent_of d x) y c"
proof -
  show pos: "0 < block_number d x"
    using genesis_unique [OF assms(1-3)] assms(4,5) by (metis le_zero_eq neq0_conv)
  note p = above_parent [OF assms(1,2) pos]
  show "common d x y c \<longleftrightarrow> common d (parent_of d x) y c"
  proof
    assume c: "common d x y c"
    have "c \<noteq> x"
      using c above_known(2) [OF assms(1,3), of c] above_same_number [OF assms(1,3), of c] assms(4,5) by (auto simp: common_def)
    then show "common d (parent_of d x) y c" using c p(2) by (auto simp: common_def)
  next
    assume "common d (parent_of d x) y c"
    then show "common d x y c" using above_trans [OF assms(1,2) p(1)] by (auto simp: common_def)
  qed
qed

lemma common_sym: "common d x y c \<longleftrightarrow> common d y x c"
  by (auto simp: common_def)

lemma is_lca_cong: "(\<And>c. common d x y c \<longleftrightarrow> common d x' y' c) \<Longrightarrow> is_lca d x y c \<longleftrightarrow> is_lca d x' y' c"
  by (simp add: is_lca_def)

lemma is_lca_self: "chain_ok d \<Longrightarrow> known d x \<Longrightarrow> is_lca d x x x"
  by (simp add: is_lca_def common_def)

lemma parent_loop_ok:
  assumes "forgets evict" "backend_ok d b" "meta_ok d x m1" "meta_ok d y m2"
  shows "\<exists>c m b'. parent_loop evict b m1 m2 = Some (Inr m, b') \<and> backend_ok d b' \<and> meta_ok d c m \<and> is_lca d x y c"
  using assms
proof (induction "block_number d x + block_number d y" arbitrary: b x y m1 m2 rule: less_induct)
  case less
  note m1 = meta_ok_facts [OF less.prems(3)] and m2 = meta_ok_facts [OF less.prems(4)]
  have ch: "chain_ok d" using less.prems(2) by (simp add: backend_ok_def)
  show ?case
  proof (cases "x = y")
    case True
    then show ?thesis using less.prems m1 m2 is_lca_self [OF ch m1(1)]
      by (auto simp: parent_loop.simps [of evict b m1 m2])
  next
    case ne: False
    show ?thesis
    proof (cases "block_number d x > block_number d y")
      case True
      note pc = parent_keeps_common [OF ch m1(1) m2(1) ne less_imp_le [OF True]]
      note pk = parent_known(1) [OF ch m1(1) pc(1)]
      from header_metadata_ok [OF less.prems(1,2), of "parent_of d x"] pk obtain m b1 where
        1: "header_metadata evict b (parent_of d x) = (Inr m, b1)" "meta_ok d (parent_of d x) m" "backend_ok d b1" by blast
      have "parent_loop evict b m1 m2 = parent_loop evict b1 m m2"
        using ne True m1 m2 1(1) by (simp add: parent_loop.simps [of evict b m1 m2])
      moreover have "block_number d (parent_of d x) + block_number d y < block_number d x + block_number d y" using pk by simp
      ultimately show ?thesis using less.hyps [OF _ less.prems(1) 1(3,2) less.prems(4)] is_lca_cong [OF pc(2)] by auto
    next
      case False
      have le: "block_number d x \<le> block_number d y" using False by simp
      note pc = parent_keeps_common [OF ch m2(1) m1(1) ne [symmetric] le]
      note pk = parent_known(1) [OF ch m2(1) pc(1)]
      from header_metadata_ok [OF less.prems(1,2), of "parent_of d y"] pk obtain m b1 where
        1: "header_metadata evict b (parent_of d y) = (Inr m, b1)" "meta_ok d (parent_of d y) m" "backend_ok d b1" by blast
      have "parent_loop evict b m1 m2 = parent_loop evict b1 m1 m"
        using ne False m1 m2 1(1) by (simp add: parent_loop.simps [of evict b m1 m2])
      moreover have "block_number d x + block_number d (parent_of d y) < block_number d x + block_number d y" using pk by simp
      moreover have "is_lca d x y c \<longleftrightarrow> is_lca d x (parent_of d y) c" for c
        using pc(2) by (intro is_lca_cong) (metis common_sym)
      ultimately show ?thesis using less.hyps [OF _ less.prems(1) 1(3) less.prems(3) 1(2)] by auto
    qed
  qed
qed

lemma update_ancestor_ok:
  assumes "forgets evict" "backend_ok d b" "meta_ok d h orig" "meta_ok d c m" "above d c h"
  shows "backend_ok d (update_ancestor evict orig m b)"
proof (cases "hm_number orig > hm_number m")
  case True
  note o1 = meta_ok_facts [OF assms(3)] and c = meta_ok_facts [OF assms(4)]
  have "meta_ok d h (orig\<lparr>hm_ancestor := hm_hash m\<rparr>)"
    using assms(3,5) True o1 c by (auto simp: meta_ok_def)
  then show ?thesis using insert_ok [OF assms(1,2)] True o1(2) by (simp add: update_ancestor_def)
qed (simp add: update_ancestor_def assms(2))

lemma lca_of_parent:
  assumes "chain_ok d" "known d x" "known d (parent_of d x)"
  shows "is_lca d x (parent_of d x) (parent_of d x)" "block_number d x - 1 = block_number d (parent_of d x)"
proof -
  have pos: "0 < block_number d x" using parent_known(2) [OF assms(1,2)] assms(3) by blast
  show "is_lca d x (parent_of d x) (parent_of d x)"
    using above_parent(1) [OF assms(1,2) pos] by (simp add: is_lca_def common_def)
  show "block_number d x - 1 = block_number d (parent_of d x)" using parent_known(1) [OF assms(1,2) pos] by linarith
qed

lemma is_lca_sym: "is_lca d x y c \<longleftrightarrow> is_lca d y x c"
  by (rule is_lca_cong) (rule common_sym)

lemma lca_ok:
  assumes ev: "forgets evict" and b: "backend_ok d b" and xy: "known d x" "known d y"
  shows "\<exists>c b'. lowest_common_ancestor evict b x y = Some (Inr (c, block_number d c), b') \<and> backend_ok d b' \<and> is_lca d x y c"
proof -
  have ch: "chain_ok d" using b by (simp add: backend_ok_def)
  from header_metadata_ok [OF ev b xy(1)] obtain m1 b1 where
    1: "header_metadata evict b x = (Inr m1, b1)" "meta_ok d x m1" "backend_ok d b1" .
  note f1 = meta_ok_facts [OF 1(2)]
  show ?thesis
  proof (cases "parent_of d x = y")
    case True
    then show ?thesis using 1 f1 lca_of_parent [OF ch xy(1)] xy(2) by (auto simp: lowest_common_ancestor_def)
  next
    case ne1: False
    from header_metadata_ok [OF ev 1(3) xy(2)] obtain m2 b2 where
      2: "header_metadata evict b1 y = (Inr m2, b2)" "meta_ok d y m2" "backend_ok d b2" .
    note f2 = meta_ok_facts [OF 2(2)]
    show ?thesis
    proof (cases "parent_of d y = x")
      case True
      then have "is_lca d x y x" using lca_of_parent(1) [OF ch xy(2)] xy(1) is_lca_sym [of d x y] by simp
      then show ?thesis using 1 2 f1 f2 ne1 True by (auto simp: lowest_common_ancestor_def)
    next
      case ne2: False
      from jump_loop_ok [OF ev 2(3) 1(2), of "hm_number m2"] obtain x' m3 b3 where
        3: "jump_loop evict b2 m1 (hm_number m2) = Some (Inr m3, b3)" "backend_ok d b3" "meta_ok d x' m3" "above d x' x"
          "x' = x \<or> hm_number m2 \<le> block_number d x'" by blast
      note f3 = meta_ok_facts [OF 3(3)]
      from jump_loop_ok [OF ev 3(2) 2(2), of "hm_number m3"] obtain y' m4 b4 where
        4: "jump_loop evict b3 m2 (hm_number m3) = Some (Inr m4, b4)" "backend_ok d b4" "meta_ok d y' m4" "above d y' y"
          "y' = y \<or> hm_number m3 \<le> block_number d y'" by blast
      from parent_loop_ok [OF ev 4(2) 3(3) 4(3)] obtain c m b5 where
        5: "parent_loop evict b4 m3 m4 = Some (Inr m, b5)" "backend_ok d b5" "meta_ok d c m" "is_lca d x' y' c" by blast
      have "common d x y e \<longleftrightarrow> common d x' y e" for e
        using jump_keeps_common [OF ch xy 3(4)] 3(5) f2(3) by simp
      moreover have "common d x' y e \<longleftrightarrow> common d x' y' e" for e
        using jump_keeps_common [OF ch xy(2) f3(1) 4(4)] 4(5) f3(3) by (metis common_sym)
      ultimately have lca: "is_lca d x y c" using 5(4) is_lca_cong [of d x y x' y'] by blast
      then have ab: "above d c x" "above d c y" by (auto simp: is_lca_def common_def)
      have "backend_ok d (update_ancestor evict m2 m (update_ancestor evict m1 m b5))"
        using update_ancestor_ok [OF ev _ 2(2) 5(3) ab(2)] update_ancestor_ok [OF ev 5(2) 1(2) 5(3) ab(1)] by blast
      moreover have "lowest_common_ancestor evict b x y =
          Some (Inr (c, block_number d c), update_ancestor evict m2 m (update_ancestor evict m1 m b5))"
        using 1(1) 2(1) 3(1) 4(1) 5(1) ne1 ne2 f1(4) f2(4) meta_ok_facts(2,3) [OF 5(3)]
        by (simp add: lowest_common_ancestor_def)
      ultimately show ?thesis using lca by blast
    qed
  qed
qed

lemma is_lca_unique:
  assumes "chain_ok d" "known d x" "is_lca d x y c" "is_lca d x y c'"
  shows "c = c'"
proof -
  have "above d c c'" "above d c' c" "above d c x" "above d c' x" using assms(3,4) by (auto simp: is_lca_def common_def)
  then show ?thesis
    using above_known(1,2) [OF assms(1)] assms(2) above_same_number [OF assms(1), of c' c] by (metis order_antisym)
qed

section \<open>Strict ancestry\<close>

definition ancestor_of :: "'h headers \<Rightarrow> 'h \<Rightarrow> 'h \<Rightarrow> bool" where
  "ancestor_of d a h \<longleftrightarrow> chain_ok d \<and> known d h \<and> above d a h \<and> a \<noteq> h"

lemma is_lca_base:
  assumes "chain_ok d" "known d h" "known d a" "is_lca d h a c"
  shows "c = a \<longleftrightarrow> above d a h"
proof
  assume "above d a h"
  then have "is_lca d h a a" by (simp add: is_lca_def common_def)
  then show "c = a" using is_lca_unique [OF assms(1,2,4)] by blast
qed (use assms(4) in \<open>auto simp: is_lca_def common_def\<close>)

lemma is_descendent_of_ok:
  assumes "forgets evict" "backend_ok d b" "known d base" "known d h"
  shows "\<exists>b'. is_descendent_of evict b None base h = Some (Inr (ancestor_of d base h), b') \<and> backend_ok d b'"
proof (cases "base = h")
  case True
  then show ?thesis using assms(2) by (simp add: is_descendent_of_def ancestor_of_def)
next
  case False
  have ch: "chain_ok d" using assms(2) by (simp add: backend_ok_def)
  from lca_ok [OF assms(1,2,4,3)] obtain c b' where
    c: "lowest_common_ancestor evict b h base = Some (Inr (c, block_number d c), b')" "backend_ok d b'" "is_lca d h base c" by blast
  have "c = base \<longleftrightarrow> ancestor_of d base h" using is_lca_base [OF ch assms(4,3) c(3)] ch assms(4) False by (simp add: ancestor_of_def)
  then show ?thesis using c False by (simp add: is_descendent_of_def)
qed

section \<open>Tree routes\<close>

definition route_up :: "'h headers \<Rightarrow> 'h \<Rightarrow> nat \<Rightarrow> 'h hash_and_number list" where
  "route_up d h k = map (\<lambda>i. (block_number d (up d h i), up d h i)) [0..<k]"

lemma route_up_simps:
  "route_up d h 0 = []" "route_up d h (Suc k) = (block_number d h, h) # route_up d (parent_of d h) k"
proof -
  have "up d (parent_of d h) i = up d h (Suc i)" for i using up_up [of d h 1 i] by simp
  then show "route_up d h (Suc k) = (block_number d h, h) # route_up d (parent_of d h) k"
    by (simp add: route_up_def upt_conv_Cons map_Suc_upt [symmetric] comp_def del: upt_Suc up.simps(2))
qed (simp add: route_up_def)

lemma length_route_up [simp]: "length (route_up d h k) = k"
  by (simp add: route_up_def)

lemma route_up_append: "route_up d h k @ route_up d (up d h k) j = route_up d h (k + j)"
proof (induction k arbitrary: h)
  case (Suc k)
  have "up d h (Suc k) = up d (parent_of d h) k" using up_up [of d h 1 k] by simp
  then show ?case using Suc [of "parent_of d h"] by (simp add: route_up_simps del: up.simps(2))
qed (simp add: route_up_simps)

lemma climb_loop_ok:
  assumes "forgets evict" "backend_ok d b" "meta_ok d h m"
  shows "\<exists>m' b'. climb_loop evict b m limit br = Some (Inr (m', br @ route_up d h (block_number d h - limit)), b') \<and>
    backend_ok d b' \<and> meta_ok d (up d h (block_number d h - limit)) m'"
  using assms
proof (induction "block_number d h" arbitrary: b h m br)
  case 0
  then show ?case using meta_ok_facts(3) [OF 0(4)] by (simp add: climb_loop.simps [of evict b m limit] route_up_simps)
next
  case (Suc n)
  note m = meta_ok_facts [OF Suc.prems(3)]
  have ch: "chain_ok d" using Suc.prems(2) by (simp add: backend_ok_def)
  show ?case
  proof (cases "limit < block_number d h")
    case False
    then show ?thesis using Suc.prems m(3) by (simp add: climb_loop.simps [of evict b m limit] route_up_simps)
  next
    case True
    then obtain k where k: "block_number d h - limit = Suc k" by (metis zero_less_diff gr0_implies_Suc)
    have pk: "known d (parent_of d h)" "Suc (block_number d (parent_of d h)) = block_number d h"
      using parent_known(1) [OF ch m(1)] True by auto
    from header_metadata_ok [OF Suc.prems(1,2) pk(1)] obtain m1 b1 where
      1: "header_metadata evict b (parent_of d h) = (Inr m1, b1)" "meta_ok d (parent_of d h) m1" "backend_ok d b1" .
    have n: "n = block_number d (parent_of d h)" "block_number d (parent_of d h) - limit = k" using Suc.hyps(2) pk(2) k by simp_all
    have "climb_loop evict b m limit br = climb_loop evict b1 m1 limit (br @ [(block_number d h, h)])"
      using True m 1(1) by (simp add: climb_loop.simps [of evict b m limit])
    moreover have "up d (parent_of d h) k = up d h (Suc k)" using up_up [of d h 1 k] by simp
    ultimately show ?thesis
      using Suc.hyps(1) [OF n(1) Suc.prems(1) 1(3,2), of "br @ [(block_number d h, h)]"]
      unfolding k n(2) by (simp add: route_up_simps del: up.simps(2))
  qed
qed

lemma meet_loop_ok:
  assumes "forgets evict" "backend_ok d b" "meta_ok d x m1" "meta_ok d y m2" "block_number d x = block_number d y"
  shows "\<exists>c m b'. meet_loop evict b m1 m2 tb fb = Some (Inr (m, tb @ route_up d x (block_number d x - block_number d c),
      fb @ route_up d y (block_number d y - block_number d c)), b') \<and> backend_ok d b' \<and> meta_ok d c m \<and> is_lca d x y c"
  using assms
proof (induction "block_number d x" arbitrary: b x y m1 m2 tb fb rule: less_induct)
  case less
  note m1 = meta_ok_facts [OF less.prems(3)] and m2 = meta_ok_facts [OF less.prems(4)]
  have ch: "chain_ok d" using less.prems(2) by (simp add: backend_ok_def)
  show ?case
  proof (cases "x = y")
    case True
    then show ?thesis using less.prems m1 m2 is_lca_self [OF ch m1(1)]
      by (auto simp: meet_loop.simps [of evict b m1 m2] route_up_simps intro!: exI [of _ y])
  next
    case ne: False
    note px = parent_keeps_common [OF ch m1(1) m2(1) ne eq_imp_le [OF less.prems(5) [symmetric]]]
    note pkx = parent_known(1) [OF ch m1(1) px(1)]
    have posy: "0 < block_number d y" using px(1) less.prems(5) by simp
    note pky = parent_known(1) [OF ch m2(1) posy]
    from header_metadata_ok [OF less.prems(1,2), of "parent_of d x"] pkx obtain n1 b1 where
      1: "header_metadata evict b (parent_of d x) = (Inr n1, b1)" "meta_ok d (parent_of d x) n1" "backend_ok d b1" by blast
    from header_metadata_ok [OF less.prems(1) 1(3), of "parent_of d y"] pky obtain n2 b2 where
      2: "header_metadata evict b1 (parent_of d y) = (Inr n2, b2)" "meta_ok d (parent_of d y) n2" "backend_ok d b2" by blast
    have loop: "meet_loop evict b m1 m2 tb fb =
        meet_loop evict b2 n1 n2 (tb @ [(block_number d x, x)]) (fb @ [(block_number d y, y)])"
      using ne m1 m2 1(1) 2(1) by (simp add: meet_loop.simps [of evict b m1 m2])
    have sm: "block_number d (parent_of d x) < block_number d x" "block_number d (parent_of d x) = block_number d (parent_of d y)"
      using pkx pky less.prems(5) by linarith+
    from less.hyps [OF sm(1) less.prems(1) 2(3) 1(2) 2(2) sm(2), of "tb @ [(block_number d x, x)]" "fb @ [(block_number d y, y)]"]
    obtain c m b' where 3: "meet_loop evict b2 n1 n2 (tb @ [(block_number d x, x)]) (fb @ [(block_number d y, y)]) =
        Some (Inr (m, (tb @ [(block_number d x, x)]) @ route_up d (parent_of d x) (block_number d (parent_of d x) - block_number d c),
          (fb @ [(block_number d y, y)]) @ route_up d (parent_of d y) (block_number d (parent_of d y) - block_number d c)), b')"
      "backend_ok d b'" "meta_ok d c m" "is_lca d (parent_of d x) (parent_of d y) c" by blast
    have cle: "block_number d c \<le> block_number d (parent_of d x)" "block_number d c \<le> block_number d (parent_of d y)"
      using 3(4) above_known(2) [OF ch] pkx pky by (auto simp: is_lca_def common_def)
    have dx: "block_number d x - block_number d c = Suc (block_number d (parent_of d x) - block_number d c)"
      and dy: "block_number d y - block_number d c = Suc (block_number d (parent_of d y) - block_number d c)"
      using cle pkx pky by linarith+
    have "common d x y e \<longleftrightarrow> common d (parent_of d x) (parent_of d y) e" for e
    proof -
      have "y \<noteq> parent_of d x" using sm less.prems(5) by auto
      moreover have "block_number d (parent_of d x) \<le> block_number d y" using sm(1) less.prems(5) by simp
      ultimately have "common d y (parent_of d x) e \<longleftrightarrow> common d (parent_of d y) (parent_of d x) e"
        using parent_keeps_common(2) [OF ch m2(1), of "parent_of d x"] pkx by blast
      then show ?thesis using px(2) common_sym by metis
    qed
    then have lca: "is_lca d x y c" using 3(4) is_lca_cong [of d x y "parent_of d x" "parent_of d y"] by blast
    have "meet_loop evict b m1 m2 tb fb = Some (Inr (m, tb @ route_up d x (block_number d x - block_number d c),
        fb @ route_up d y (block_number d y - block_number d c)), b')"
      unfolding loop 3(1) dx dy route_up_simps(2) by simp
    then show ?thesis using 3(2,3) lca by blast
  qed
qed

lemma nth_opt_middle: "nth_opt (xs @ y # ys) (length xs) = Some y"
  by (simp add: nth_opt_def)

lemma tree_route_ok:
  assumes ev: "forgets evict" and b: "backend_ok d b" and xy: "known d x" "known d y"
  shows "\<exists>r c b'. tree_route evict b x y = Some (Inr r, b') \<and> backend_ok d b' \<and> is_lca d x y c \<and>
    retracted r = route_up d x (block_number d x - block_number d c) \<and>
    common_block r = Some (block_number d c, c) \<and>
    enacted r = rev (route_up d y (block_number d y - block_number d c)) \<and>
    tree_route_new (route r) (pivot r) = Inr r"
proof -
  have ch: "chain_ok d" using b by (simp add: backend_ok_def)
  let ?x = "up d x (block_number d x - block_number d y)" and ?y = "up d y (block_number d y - block_number d x)"
  from header_metadata_ok [OF ev b xy(1)] obtain m1 b1 where
    1: "header_metadata evict b x = (Inr m1, b1)" "meta_ok d x m1" "backend_ok d b1" .
  from header_metadata_ok [OF ev 1(3) xy(2)] obtain m2 b2 where
    2: "header_metadata evict b1 y = (Inr m2, b2)" "meta_ok d y m2" "backend_ok d b2" .
  note f1 = meta_ok_facts [OF 1(2)] and f2 = meta_ok_facts [OF 2(2)]
  from climb_loop_ok [OF ev 2(3,2), of "block_number d x" "[]"] obtain m3 b3 where
    3: "climb_loop evict b2 m2 (block_number d x) [] = Some (Inr (m3, route_up d y (block_number d y - block_number d x)), b3)"
      "backend_ok d b3" "meta_ok d ?y m3" by auto
  have uy: "known d ?y" "block_number d ?y = min (block_number d x) (block_number d y)" using up_known [OF ch xy(2), of "block_number d y - block_number d x"] by auto
  have ux: "known d ?x" "block_number d ?x = min (block_number d x) (block_number d y)" using up_known [OF ch xy(1), of "block_number d x - block_number d y"] by auto
  have lim: "block_number d x - block_number d ?y = block_number d x - block_number d y" using uy(2) by simp
  from climb_loop_ok [OF ev 3(2) 1(2), of "block_number d ?y" "[]"] obtain m4 b4 where
    4: "climb_loop evict b3 m1 (block_number d ?y) [] = Some (Inr (m4, route_up d x (block_number d x - block_number d y)), b4)"
      "backend_ok d b4" "meta_ok d ?x m4" unfolding lim by auto
  from meet_loop_ok [OF ev 4(2) 3(3) 4(3)] uy(2) ux(2) obtain c m b5 where
    5: "meet_loop evict b4 m3 m4 (route_up d y (block_number d y - block_number d x)) (route_up d x (block_number d x - block_number d y)) =
        Some (Inr (m, route_up d y (block_number d y - block_number d x) @ route_up d ?y (block_number d ?y - block_number d c),
          route_up d x (block_number d x - block_number d y) @ route_up d ?x (block_number d ?x - block_number d c)), b5)"
      "backend_ok d b5" "meta_ok d c m" "is_lca d ?y ?x c" by metis
  have cle: "block_number d c \<le> block_number d ?x" "block_number d c \<le> block_number d ?y"
    using 5(4) above_known(2) [OF ch] ux(1) uy(1) by (auto simp: is_lca_def common_def)
  have jx: "route_up d x (block_number d x - block_number d y) @ route_up d ?x (block_number d ?x - block_number d c) = route_up d x (block_number d x - block_number d c)"
    and jy: "route_up d y (block_number d y - block_number d x) @ route_up d ?y (block_number d ?y - block_number d c) = route_up d y (block_number d y - block_number d c)"
    unfolding route_up_append using cle ux(2) uy(2) by (simp_all add: min_def split: if_splits)
  have ax: "above d ?x x" "above d ?y y" unfolding above_def by (metis diff_le_self)+
  have "common d x y e \<longleftrightarrow> common d ?x y e" for e using jump_keeps_common [OF ch xy ax(1)] ux(2) by (simp add: min_def)
  moreover have "common d ?x y e \<longleftrightarrow> common d ?x ?y e" for e
    using jump_keeps_common [OF ch xy(2) ux(1) ax(2)] ux(2) uy(2) by (metis common_sym order_refl)
  ultimately have lca: "is_lca d x y c" using 5(4) is_lca_cong [of d x y ?y ?x] common_sym by metis
  let ?r = "\<lparr>route = route_up d x (block_number d x - block_number d c) @ [(block_number d c, c)] @
      rev (route_up d y (block_number d y - block_number d c)), pivot = block_number d x - block_number d c\<rparr>"
  have "tree_route evict b x y = Some (Inr ?r, b5)"
    using 1(1) 2(1) 3(1) 4(1) 5(1) [unfolded jx jy] f1 f2 meta_ok_facts [OF 3(3)] meta_ok_facts(2,3) [OF 5(3)] uy
    by (simp add: tree_route_def)
  moreover have "common_block ?r = Some (block_number d c, c)"
    using nth_opt_middle [of "route_up d x (block_number d x - block_number d c)" "(block_number d c, c)"] by (simp add: common_block_def)
  ultimately show ?thesis using lca 5(2) by (intro exI [of _ ?r] exI [of _ c] exI [of _ b5]) (simp add: retracted_def enacted_def tree_route_new_def)
qed

section \<open>The ancestry check of a client importing a block\<close>

text \<open>
  The block being imported is not in the database: \<open>current\<close> is its hash and its parent's. The view
  the check has is the database with that block added.
\<close>

definition with_current :: "'h headers \<Rightarrow> ('h \<times> 'h) option \<Rightarrow> 'h headers" where
  "with_current d current = (case current of None \<Rightarrow> d | Some (c, p) \<Rightarrow>
     d(c := Inr (Some \<lparr>hd_hash = c, hd_number = Suc (block_number d p), hd_parent = p, hd_state_root = c\<rparr>)))"

definition current_ok :: "'h headers \<Rightarrow> ('h \<times> 'h) option \<Rightarrow> bool" where
  "current_ok d current \<longleftrightarrow> chain_ok d \<and> chain_ok (with_current d current) \<and>
     (case current of None \<Rightarrow> True | Some (c, p) \<Rightarrow> \<not> known d c \<and> known d p)"

lemma with_current_other:
  assumes "h \<noteq> c"
  shows "known (with_current d (Some (c, p))) h = known d h" "block_number (with_current d (Some (c, p))) h = block_number d h"
    "parent_of (with_current d (Some (c, p))) h = parent_of d h"
  using assms by (simp_all add: with_current_def known_def block_number_def parent_of_def header_at_def)

lemma with_current_new:
  "known (with_current d (Some (c, p))) c" "block_number (with_current d (Some (c, p))) c = Suc (block_number d p)"
  "parent_of (with_current d (Some (c, p))) c = p"
  by (simp_all add: with_current_def known_def block_number_def parent_of_def header_at_def)

lemma current_okI:
  assumes "chain_ok d" "\<not> known d c" "known d p" "\<And>h. known d h \<Longrightarrow> parent_of d h \<noteq> c"
  shows "current_ok d (Some (c, p))"
proof -
  let ?d = "with_current d (Some (c, p))"
  have pc: "p \<noteq> c" using assms by auto
  have hdr: "header_at ?d h = (if h = c then
      Some \<lparr>hd_hash = c, hd_number = Suc (block_number d p), hd_parent = p, hd_state_root = c\<rparr> else header_at d h)" for h
    by (simp add: with_current_def header_at_def)
  have old: "hd_hash x = h \<and> (if hd_number x = 0 then \<not> known ?d (hd_parent x)
      else known ?d (hd_parent x) \<and> Suc (block_number ?d (hd_parent x)) = hd_number x)"
    if x: "header_at d h = Some x" for h x
  proof -
    have "known d h" using x by (simp add: known_def)
    then have "hd_parent x \<noteq> c" using assms(4) [of h] x by (simp add: parent_of_def)
    then show ?thesis using x assms(1) unfolding chain_ok_def with_current_other(1,2) [OF \<open>hd_parent x \<noteq> c\<close>] by blast
  qed
  have "h = h'" if "known ?d h" "known ?d h'" "block_number ?d h = 0" "block_number ?d h' = 0" for h h'
  proof -
    have "h \<noteq> c" "h' \<noteq> c" using that(3,4) with_current_new(2) [of d c p] by auto
    then show ?thesis using genesis_unique [OF assms(1), of h h'] that by (simp add: with_current_other)
  qed
  then have "chain_ok ?d" unfolding chain_ok_def hdr using old pc assms(3) by (auto simp: with_current_other)
  then show ?thesis using assms by (simp add: current_ok_def)
qed

lemma with_current_up:
  assumes "current_ok d (Some (c, p))" "known d h" "k \<le> block_number d h"
  shows "up (with_current d (Some (c, p))) h k = up d h k"
  using assms(3)
proof (induction k)
  case (Suc k)
  have "known d (up d h k)" using up_known [of d h k] assms Suc.prems by (simp add: current_ok_def)
  then have "up d h k \<noteq> c" using assms(1) by (auto simp: current_ok_def)
  then show ?case using Suc with_current_other(3) by simp
qed simp

lemma with_current_ancestor:
  assumes "current_ok d (Some (c, p))" "known d h"
  shows "ancestor_of (with_current d (Some (c, p))) a h \<longleftrightarrow> ancestor_of d a h"
proof -
  have "h \<noteq> c" "chain_ok d" "chain_ok (with_current d (Some (c, p)))" using assms by (auto simp: current_ok_def)
  then show ?thesis using with_current_up [OF assms] with_current_other(1,2) [of h c d p] assms(2)
    by (auto simp: ancestor_of_def above_def)
qed

lemma with_current_ancestor_new:
  assumes "current_ok d (Some (c, p))"
  shows "ancestor_of (with_current d (Some (c, p))) a c \<longleftrightarrow> a = p \<or> ancestor_of d a p"
proof -
  let ?d = "with_current d (Some (c, p))"
  have ok: "chain_ok d" "chain_ok ?d" "\<not> known d c" "known d p" using assms by (auto simp: current_ok_def)
  then have pc: "p \<noteq> c" by auto
  have "0 < block_number ?d c" by (simp add: with_current_new(2))
  note par = above_parent [OF ok(2) with_current_new(1) this, unfolded with_current_new(3)]
  have "above ?d a c \<longleftrightarrow> a = c \<or> above ?d a p"
    using par above_trans [OF ok(2) with_current_new(1)] above_refl by metis
  moreover have "above ?d a p \<longleftrightarrow> above d a p"
    using with_current_up [OF assms ok(4)] with_current_other(2) [OF pc, of d p] by (auto simp: above_def)
  moreover have "\<not> above d c p" using above_known(1) [OF ok(1,4)] ok(3) by blast
  ultimately show ?thesis using ok pc with_current_new(1) [of d c p] by (auto simp: ancestor_of_def)
qed

lemma is_descendent_of_current:
  assumes ev: "forgets evict" and b: "backend_ok d b" and cur: "current_ok d current"
    and k: "known (with_current d current) base" "known (with_current d current) h"
  shows "\<exists>b'. is_descendent_of evict b current base h = Some (Inr (ancestor_of (with_current d current) base h), b') \<and> backend_ok d b'"
proof (cases current)
  case None
  then show ?thesis using is_descendent_of_ok [OF ev b] k by (simp add: with_current_def)
next
  case (Some cp)
  obtain c p where cp: "cp = (c, p)" by fastforce
  let ?d = "with_current d (Some (c, p))"
  note ok = cur [unfolded Some cp]
  have oth: "x = c \<or> known d x" if "known ?d x" for x using that with_current_other(1) [of x c d p] by metis
  have pk: "known d p" "\<not> known d c" using ok by (auto simp: current_ok_def)
  have nobelow: "\<not> ancestor_of ?d c x" if "known d x" for x
    using with_current_ancestor [OF ok that] above_known(1) [of d x c] that pk(2) by (auto simp: ancestor_of_def)
  consider "base = h" | "base \<noteq> h" "base = c" | "base \<noteq> h" "base \<noteq> c" "h = c" | "base \<noteq> h" "base \<noteq> c" "h \<noteq> c" by blast
  then show ?thesis
  proof cases
    case 1
    then show ?thesis using b by (simp add: is_descendent_of_def ancestor_of_def)
  next
    case 2
    then show ?thesis using b nobelow [of h] oth [of h] k Some cp by (simp add: is_descendent_of_def)
  next
    case 3
    then have kb: "known d base" using oth [of base] k Some cp by simp
    show ?thesis using is_descendent_of_ok [OF ev b kb pk(1)] with_current_ancestor_new [OF ok, of base] 3 Some cp b
      by (auto simp: is_descendent_of_def ancestor_of_def)
  next
    case 4
    then have kb: "known d base" "known d h" using oth k Some cp by auto
    show ?thesis using is_descendent_of_ok [OF ev b kb] with_current_ancestor [OF ok kb(2)] 4 Some cp by (simp add: is_descendent_of_def)
  qed
qed

section \<open>The ancestry interface of the fork trees\<close>

text \<open>
  The closure a client hands to a fork tree, read as a function of the two hashes: its answers do not
  depend on what the cache holds, only its cost does.
\<close>

definition descent_check ::
  "('h metadata_cache \<Rightarrow> 'h metadata_cache) \<Rightarrow> 'h backend \<Rightarrow> ('h \<times> 'h) option \<Rightarrow> 'h \<Rightarrow> 'h \<Rightarrow> ('h block_error, bool) result" where
  "descent_check evict b current base hash =
     (case is_descendent_of evict b current base hash of Some (r, _) \<Rightarrow> r | None \<Rightarrow> Inl (Backend ''loop''))"

definition client_view :: "'h backend \<Rightarrow> ('h \<times> 'h) option \<Rightarrow> 'h headers" where
  "client_view b current = with_current (db_header b) current"

definition client_ok :: "('h metadata_cache \<Rightarrow> 'h metadata_cache) \<Rightarrow> 'h backend \<Rightarrow> ('h \<times> 'h) option \<Rightarrow> bool" where
  "client_ok evict b current \<longleftrightarrow> forgets evict \<and> backend_ok (db_header b) b \<and> current_ok (db_header b) current"

abbreviation known_blocks :: "'h headers \<Rightarrow> 'h set" where
  "known_blocks d \<equiv> {h. known d h}"

definition checked_blocks ::
  "('h metadata_cache \<Rightarrow> 'h metadata_cache) \<Rightarrow> 'h backend \<Rightarrow> ('h \<times> 'h) option \<Rightarrow> 'h set" where
  "checked_blocks evict b current = (if client_ok evict b current then known_blocks (client_view b current) else {})"

interpretation client: ancestry "descent_check evict b current" "ancestor_of (client_view b current)"
  "block_number (client_view b current)" "checked_blocks evict b current" for evict b current
proof
  fix x y
  assume "x \<in> checked_blocks evict b current" "y \<in> checked_blocks evict b current"
  then show "descent_check evict b current x y = Inr (ancestor_of (client_view b current) x y)"
    using is_descendent_of_current [of evict "db_header b" b current x y]
    by (auto simp: checked_blocks_def client_ok_def client_view_def descent_check_def split: if_splits)
next
  fix x y z
  assume a: "ancestor_of (client_view b current) x y" "ancestor_of (client_view b current) y z"
  then have "above (client_view b current) x z" using above_trans [of "client_view b current" z y x] by (auto simp: ancestor_of_def)
  moreover have "x \<noteq> z"
  proof
    assume "x = z"
    then show False using a above_known(2) [of "client_view b current"] above_same_number [of "client_view b current" z y]
      by (metis ancestor_of_def order_antisym)
  qed
  ultimately show "ancestor_of (client_view b current) x z" using a(2) by (simp add: ancestor_of_def)
next
  fix x y
  assume "ancestor_of (client_view b current) x y"
  then show "block_number (client_view b current) x < block_number (client_view b current) y"
    using above_known(2) [of "client_view b current" y x] above_same_number [of "client_view b current" y x]
    by (auto simp: ancestor_of_def order_less_le)
next
  fix x y z
  assume a: "ancestor_of (client_view b current) x z" "ancestor_of (client_view b current) y z"
  then show "x = y \<or> ancestor_of (client_view b current) x y \<or> ancestor_of (client_view b current) y x"
    using above_linear [of "client_view b current" z x y] above_linear [of "client_view b current" z y x]
      above_known(1) [of "client_view b current" z] by (metis ancestor_of_def linear)
qed

section \<open>A sample chain\<close>

lemma above_list: "above d a h \<longleftrightarrow> a \<in> set (map (up d h) [0..<Suc (block_number d h)])"
  by (auto simp: above_def image_iff less_Suc_eq_le simp del: upt_Suc)

lemma up_numeral: "up d h (numeral n) = parent_of d (up d h (pred_numeral n))"
  by (simp add: numeral_eq_Suc)

text \<open>Block 1 is the genesis block, 2 its child, 3 and 4 children of 2, and 5 a child of 4.\<close>

definition sample_header :: "nat \<Rightarrow> nat \<Rightarrow> nat \<Rightarrow> nat header" where
  "sample_header h n p = \<lparr>hd_hash = h, hd_number = n, hd_parent = p, hd_state_root = 0\<rparr>"

definition sample_headers :: "nat headers" where
  "sample_headers h = Inr (if h = 1 then Some (sample_header 1 0 0) else if h = 2 then Some (sample_header 2 1 1)
     else if h = 3 then Some (sample_header 3 2 2) else if h = 4 then Some (sample_header 4 2 2)
     else if h = 5 then Some (sample_header 5 3 4) else None)"

definition sample_backend :: "nat backend" where
  "sample_backend = \<lparr>db_header = sample_headers, header_metadata_cache = Map.empty\<rparr>"

lemma sample_at:
  "header_at sample_headers h = (if h = 1 then Some (sample_header 1 0 0) else if h = 2 then Some (sample_header 2 1 1)
     else if h = 3 then Some (sample_header 3 2 2) else if h = 4 then Some (sample_header 4 2 2)
     else if h = 5 then Some (sample_header 5 3 4) else None)"
  by (simp add: header_at_def sample_headers_def)

lemma sample_known: "known sample_headers h \<longleftrightarrow> h \<in> {1, 2, 3, 4, 5}"
  by (simp add: known_def sample_at)

lemma sample_number: "block_number sample_headers h = (if h = 2 then 1 else if h = 3 \<or> h = 4 then 2 else if h = 5 then 3 else 0)"
  by (simp add: block_number_def sample_at sample_header_def)

lemma sample_parent: "parent_of sample_headers h =
    (if h = 1 then 0 else if h = 2 then 1 else if h = 3 \<or> h = 4 then 2 else if h = 5 then 4 else h)"
  by (simp add: parent_of_def sample_at sample_header_def)

lemma sample_chain: "chain_ok sample_headers"
  by (auto simp: chain_ok_def sample_at sample_known sample_number sample_header_def)

lemma sample_forgets: "forgets id"
  by (simp add: forgets_def)

lemma sample_backend_ok: "backend_ok sample_headers sample_backend" "db_header sample_backend = sample_headers"
  by (simp_all add: backend_ok_def cache_ok_def sample_backend_def sample_chain)

lemma sample_above:
  "above sample_headers a 3 \<longleftrightarrow> a \<in> {1, 2, 3}" "above sample_headers a 5 \<longleftrightarrow> a \<in> {1, 2, 4, 5}"
  "above sample_headers a 4 \<longleftrightarrow> a \<in> {1, 2, 4}" "above sample_headers a 2 \<longleftrightarrow> a \<in> {1, 2}" "above sample_headers a 1 \<longleftrightarrow> a = 1"
  by (auto simp: above_list sample_number sample_parent up_numeral upt_rec)

lemma sample_lca: "is_lca sample_headers 3 5 c \<longleftrightarrow> c = 2"
proof
  assume "is_lca sample_headers 3 5 c"
  then have c: "above sample_headers c 3" "above sample_headers c 5" "above sample_headers 2 c"
    by (auto simp: is_lca_def common_def sample_above)
  then have "c = 1 \<or> c = 2" by (simp add: sample_above) linarith
  then show "c = 2" using c(3) sample_above(5) [of 2] by auto
next
  assume "c = 2"
  then show "is_lca sample_headers 3 5 c" by (auto simp: is_lca_def common_def sample_above)
qed

lemma sample_ancestor:
  "ancestor_of sample_headers a h \<longleftrightarrow> (h = 2 \<and> a = 1) \<or> (h = 3 \<or> h = 4) \<and> (a = 1 \<or> a = 2) \<or> h = 5 \<and> (a = 1 \<or> a = 2 \<or> a = 4)"
  using sample_above(5) [of a] by (auto simp: ancestor_of_def sample_chain sample_known sample_above)

text \<open>The block being imported is block 6, a child of 3.\<close>

lemma sample_current_ok: "current_ok sample_headers (Some (6, 3))"
  by (rule current_okI) (auto simp: sample_chain sample_known sample_parent)

section \<open>Properties\<close>



text \<open>
  C18. The tree route between two known blocks is computed and is right: it retracts exactly the blocks
  from the first one up to the lowest common ancestor, in this order, enacts the blocks from below the
  common ancestor down to the second one, and its pivot is within the route.
\<close>

theorem tree_route_correct:
  assumes "forgets evict" "backend_ok d b" "known d x" "known d y"
  shows "\<exists>r c b'. tree_route evict b x y = Some (Inr r, b') \<and> backend_ok d b' \<and> is_lca d x y c \<and>
    retracted r = route_up d x (block_number d x - block_number d c) \<and>
    common_block r = Some (block_number d c, c) \<and>
    enacted r = rev (route_up d y (block_number d y - block_number d c)) \<and>
    tree_route_new (route r) (pivot r) = Inr r"
  by (rule tree_route_ok [OF assms])

theorem tree_route_correct_witness:
  "\<exists>r b'. tree_route id sample_backend 3 5 = Some (Inr r, b') \<and> retracted r = [(2, 3)] \<and> common_block r = Some (1, 2) \<and>
    enacted r = [(2, 4), (3, 5)]"
proof -
  have k: "known sample_headers 3" "known sample_headers 5" by (simp_all add: sample_known)
  from tree_route_correct [OF sample_forgets sample_backend_ok(1) k] obtain r c b' where
    r: "tree_route id sample_backend 3 5 = Some (Inr r, b')" "is_lca sample_headers 3 5 c"
      "retracted r = route_up sample_headers 3 (block_number sample_headers 3 - block_number sample_headers c)"
      "common_block r = Some (block_number sample_headers c, c)"
      "enacted r = rev (route_up sample_headers 5 (block_number sample_headers 5 - block_number sample_headers c))"
    by blast
  have c: "c = 2" using r(2) by (simp add: sample_lca)
  have "route_up sample_headers 3 (Suc 0) = [(2, 3)]" "route_up sample_headers 5 (Suc (Suc 0)) = [(3, 5), (2, 4)]"
    unfolding route_up_simps by (simp_all add: sample_number sample_parent)
  then show ?thesis using r(1,3-5) unfolding c by (simp add: sample_number numeral_2_eq_2)
qed

text \<open>
  The ancestry check handed to the fork trees answers for every pair of known blocks, the block
  being imported included though it is not in the database: the answer is whether the base is a strict
  ancestor of the other block.
\<close>

lemma is_descendent_of_correct:
  assumes "forgets evict" "backend_ok d b" "current_ok d current"
    "known (with_current d current) base" "known (with_current d current) hash"
  shows "\<exists>b'. is_descendent_of evict b current base hash =
      Some (Inr (\<exists>k. 0 < k \<and> k \<le> block_number (with_current d current) hash \<and> up (with_current d current) hash k = base), b') \<and>
    backend_ok d b'"
proof -
  let ?d = "with_current d current"
  have ch: "chain_ok ?d" using assms(3) by (simp add: current_ok_def)
  have "ancestor_of ?d base hash \<longleftrightarrow> (\<exists>k. 0 < k \<and> k \<le> block_number ?d hash \<and> up ?d hash k = base)"
  proof
    assume "ancestor_of ?d base hash"
    then obtain k where "k \<le> block_number ?d hash" "up ?d hash k = base" "base \<noteq> hash" by (auto simp: ancestor_of_def above_def)
    then show "\<exists>k. 0 < k \<and> k \<le> block_number ?d hash \<and> up ?d hash k = base" by (metis gr0I up.simps(1))
  next
    assume "\<exists>k. 0 < k \<and> k \<le> block_number ?d hash \<and> up ?d hash k = base"
    then obtain k where k: "0 < k" "k \<le> block_number ?d hash" "up ?d hash k = base" by blast
    then have "block_number ?d base < block_number ?d hash" using up_known [OF ch assms(5) k(2)] by auto
    then show "ancestor_of ?d base hash" using k ch assms(5) by (auto simp: ancestor_of_def above_def)
  qed
  then show ?thesis using is_descendent_of_current [OF assms] by simp
qed

end
