(* ===== verification/Fork_Client.thy ===== *)
theory Fork_Client
  imports Header_Metadata
begin

text \<open>
  Fork trees as a client uses them: the operations of \<open>Fork_Tree\<close> with the ancestry check of
  \<open>Header_Metadata\<close>. The lemmas about the operations hold in the locale \<open>ancestry\<close>; here they are read
  at its interpretation, the headers of a database together with the block being imported. A tree is
  in order (\<open>tree_ok\<close>) when its nodes are known blocks with their numbers, the nodes below a node
  descend from it, and no node of a list of siblings descends from another.
\<close>

definition tree_ok :: "'h headers \<Rightarrow> ('h, nat, 'v) ForkTree \<Rightarrow> bool" where
  "tree_ok d t \<longleftrightarrow> forest_ok (ancestor_of d) (block_number d) (known_blocks d) (roots t)"

definition blocks :: "('h, nat, 'v) ForkTree \<Rightarrow> 'h set" where
  "blocks t = node_hash ` set (nodes (roots t))"

lemma checked_blocks_ok: "client_ok evict b current \<Longrightarrow> checked_blocks evict b current = known_blocks (client_view b current)"
  by (simp add: checked_blocks_def)

lemma tree_ok_forest:
  "client_ok evict b current \<Longrightarrow> tree_ok (client_view b current) t \<longleftrightarrow>
     forest_ok (ancestor_of (client_view b current)) (block_number (client_view b current)) (checked_blocks evict b current) (roots t)"
  by (simp add: tree_ok_def checked_blocks_ok)

lemma current_is_last:
  assumes "client_ok evict b (Some (c, p))" "x \<in> known_blocks (client_view b (Some (c, p)))"
  shows "\<not> ancestor_of (client_view b (Some (c, p))) c x"
proof (cases "x = c")
  case False
  let ?d = "db_header b"
  have ok: "current_ok ?d (Some (c, p))" "chain_ok ?d" "\<not> known ?d c" using assms(1) by (auto simp: client_ok_def current_ok_def)
  have k: "known ?d x" using assms(2) False by (simp add: client_view_def with_current_other)
  show ?thesis using with_current_ancestor [OF ok(1) k, of c] above_known(1) [OF ok(2) k, of c] ok(3)
    by (auto simp: client_view_def ancestor_of_def)
qed (simp add: ancestor_of_def)

lemma tree_nodes_known:
  assumes "client_ok evict b current" "tree_ok (client_view b current) t" "x \<in> set (nodes (roots t))"
  shows "node_hash x \<in> known_blocks (client_view b current)"
proof -
  from client.forest_descendants [OF assms(2) [unfolded tree_ok_forest [OF assms(1)]] assms(3)] have
    "node_ok (ancestor_of (client_view b current)) (block_number (client_view b current)) (checked_blocks evict b current) x" by blast
  then show ?thesis using checked_blocks_ok [OF assms(1)] by (auto simp: node_ok_iff)
qed

section \<open>A sample tree\<close>

definition sample_tree :: "(nat, nat, string) ForkTree" where
  "sample_tree = \<lparr>roots = [Node 2 1 ''two'' [Node 4 2 ''four'' [Node 5 3 ''five'' []], Node 3 2 ''three'' []]],
     best_finalized_number = None\<rparr>"

lemma sample_client_ok: "client_ok id sample_backend None" "client_ok id sample_backend (Some (6, 3))"
  using sample_forgets sample_backend_ok sample_current_ok
  by (auto simp: client_ok_def current_ok_def sample_chain with_current_def)

lemma sample_view: "client_view sample_backend None = sample_headers"
  "client_view sample_backend (Some (6, 3)) = with_current sample_headers (Some (6, 3))"
  by (simp_all add: client_view_def sample_backend_ok(2) with_current_def)

lemma sample_tree_ok: "tree_ok sample_headers sample_tree"
  by (auto simp: tree_ok_def sample_tree_def forest_ok_def siblings_ok_def sample_ancestor sample_known sample_number)

lemma sample_tree_ok_current: "tree_ok (with_current sample_headers (Some (6, 3))) sample_tree"
  using with_current_ancestor [OF sample_current_ok]
  by (auto simp: tree_ok_def sample_tree_def forest_ok_def siblings_ok_def sample_ancestor sample_known sample_number with_current_other)

section \<open>Properties\<close>

text \<open>
  C7. Importing the block a client is about to store into a tree in order: a block at or below the best
  finalized number is refused, a block already in the tree is refused, and otherwise the block is added
  as one new node, the tree stays in order, and the answer tells whether it became a root, which it
  does exactly when no node of the tree is an ancestor of it.
\<close>

theorem import_correct:
  assumes "client_ok evict b (Some (h, p))" "tree_ok (client_view b (Some (h, p))) t"
    "import_node t h (block_number (client_view b (Some (h, p))) h) v (descent_check evict b (Some (h, p))) = (r, t')"
  shows "if reverts t (block_number (client_view b (Some (h, p))) h) then r = Inl Revert \<and> t' = t
    else if h \<in> blocks t then r = Inl Duplicate \<and> t' = t
    else r = Inr (\<forall>x \<in> blocks t. \<not> ancestor_of (client_view b (Some (h, p))) x h) \<and> tree_ok (client_view b (Some (h, p))) t' \<and>
      mset (items (roots t')) = add_mset (h, block_number (client_view b (Some (h, p))) h, v) (mset (items (roots t))) \<and>
      best_finalized_number t' = best_finalized_number t"
proof -
  let ?d = "client_view b (Some (h, p))"
  have h: "h \<in> checked_blocks evict b (Some (h, p))"
    unfolding checked_blocks_ok [OF assms(1)] by (simp add: client_view_def with_current_new)
  have "\<forall>x \<in> set (nodes (roots t)). \<not> ancestor_of ?d h (node_hash x)"
    using current_is_last [OF assms(1)] tree_nodes_known [OF assms(1,2)] by blast
  from client.import_spec [OF assms(2) [unfolded tree_ok_forest [OF assms(1)]] h this assms(3)] show ?thesis
    unfolding blocks_def tree_ok_forest [OF assms(1)] by (simp add: ball_simps)
qed

theorem import_correct_witness:
  "\<exists>t'. import_node sample_tree 6 3 ''six'' (descent_check id sample_backend (Some (6, 3))) = (Inr False, t') \<and>
    tree_ok (with_current sample_headers (Some (6, 3))) t' \<and> blocks sample_tree = {2, 3, 4, 5}"
proof -
  obtain r t' where im: "import_node sample_tree 6 (block_number (client_view sample_backend (Some (6, 3))) 6) ''six''
    (descent_check id sample_backend (Some (6, 3))) = (r, t')" by fastforce
  have n: "block_number (client_view sample_backend (Some (6, 3))) 6 = 3" by (simp add: sample_view with_current_new sample_number)
  have bl: "blocks sample_tree = {2, 3, 4, 5}" by (auto simp: blocks_def sample_tree_def)
  have "ancestor_of (with_current sample_headers (Some (6, 3))) 2 6"
    unfolding with_current_ancestor_new [OF sample_current_ok] by (simp add: sample_ancestor)
  then have "\<not> (\<forall>x \<in> blocks sample_tree. \<not> ancestor_of (client_view sample_backend (Some (6, 3))) x 6)"
    by (auto simp: bl sample_view)
  moreover have "\<not> reverts sample_tree 3" "6 \<notin> blocks sample_tree" by (simp add: reverts_def sample_tree_def) (simp add: bl)
  ultimately have "r = Inr False" "tree_ok (with_current sample_headers (Some (6, 3))) t'"
    using import_correct [OF sample_client_ok(2) sample_tree_ok_current [folded sample_view(2)] im] unfolding n by (auto simp: sample_view)
  then show ?thesis using im bl unfolding n by blast
qed

text \<open>
  C20. Finalizing a known block in a tree in order: below the best finalized number it is refused; when
  a root of the tree is an unfinalized ancestor of the block it is refused and nothing changes;
  otherwise exactly the descendants of the block remain, in their order, the tree stays in order and
  the block's number is the best finalized number.
\<close>

theorem finalize_correct:
  assumes "client_ok evict b current" "tree_ok (client_view b current) t" "known (client_view b current) h"
    "finalize t h (block_number (client_view b current) h) (descent_check evict b current) = (r, t')"
  shows "if reverts t (block_number (client_view b current) h) then r = Inl Revert \<and> t' = t
    else if \<exists>x \<in> set (roots t). ancestor_of (client_view b current) (node_hash x) h then r = Inl UnfinalizedAncestor \<and> t' = t
    else (\<exists>c. r = Inr c) \<and> tree_ok (client_view b current) t' \<and>
      nodes (roots t') = filter (\<lambda>x. ancestor_of (client_view b current) h (node_hash x)) (nodes (roots t)) \<and>
      best_finalized_number t' = Some (block_number (client_view b current) h)"
  using client.finalize_spec [OF assms(2) [unfolded tree_ok_forest [OF assms(1)]] _ assms(4)] assms(3)
  unfolding tree_ok_forest [OF assms(1)] checked_blocks_ok [OF assms(1)] by simp

theorem finalize_correct_witness:
  "\<exists>r t'. finalize sample_tree 2 1 (descent_check id sample_backend None) = (r, t') \<and>
    map node_hash (nodes (roots t')) = [4, 5, 3] \<and> best_finalized_number t' = Some 1"
proof -
  obtain r t' where fin: "finalize sample_tree 2 (block_number (client_view sample_backend None) 2)
    (descent_check id sample_backend None) = (r, t')" by fastforce
  have n: "block_number (client_view sample_backend None) 2 = 1" by (simp add: sample_view sample_number)
  have k: "known (client_view sample_backend None) 2" by (simp add: sample_view sample_known)
  have nr: "\<not> reverts sample_tree 1" "\<not> (\<exists>x \<in> set (roots sample_tree). ancestor_of sample_headers (node_hash x) 2)"
    by (simp_all add: reverts_def sample_tree_def sample_ancestor)
  have "nodes (roots t') = filter (\<lambda>x. ancestor_of sample_headers 2 (node_hash x)) (nodes (roots sample_tree))"
    "best_finalized_number t' = Some 1"
    using finalize_correct [OF sample_client_ok(1) sample_tree_ok [folded sample_view(1)] k fin] nr unfolding sample_view by (simp_all add: sample_number)
  then show ?thesis using fin unfolding n by (auto simp: sample_tree_def sample_ancestor)
qed



text \<open>
  C27. Pruning a tree in order with respect to a known block returns: when no ancestor of the block in the
  tree passes the predicate nothing changes; otherwise the deepest passing ancestor becomes the only
  root, the nodes left are those at or below it that are related to the block, every other node is
  handed out, each exactly once, and the tree stays in order.
\<close>

theorem prune_correct:
  assumes "client_ok evict b current" "tree_ok (client_view b current) t" "known (client_view b current) h"
  shows "\<exists>removed t'. prune t h (block_number (client_view b current) h) (descent_check evict b current) P = Some (Inr removed, t') \<and>
    tree_ok (client_view b current) t' \<and> mset removed + mset (items (roots t')) = mset (items (roots t)) \<and>
    best_finalized_number t' = best_finalized_number t \<and>
    (case filter (P \<circ> node_data) (lineage (ancestor_of (client_view b current)) h (roots t)) of
       [] \<Rightarrow> t' = t
     | x # xs \<Rightarrow> set (items (roots t')) = info ` {y \<in> set (nodes (roots t)). related (ancestor_of (client_view b current)) h (node_hash y) \<and>
         (node_hash y = node_hash (last (x # xs)) \<or> ancestor_of (client_view b current) (node_hash (last (x # xs))) (node_hash y))})"
  using client.prune_spec [OF assms(2) [unfolded tree_ok_forest [OF assms(1)]], of h P] assms(3)
  unfolding tree_ok_forest [OF assms(1)] checked_blocks_ok [OF assms(1)] by simp

theorem prune_correct_witness:
  "\<exists>removed t'. prune sample_tree 5 3 (descent_check id sample_backend None) (\<lambda>v. v = ''two'') = Some (Inr removed, t') \<and>
    set (items (roots t')) = {(2, 1, ''two''), (4, 2, ''four''), (5, 3, ''five'')} \<and> mset removed = {# (3, 2, ''three'') #}"
proof -
  have n: "block_number (client_view sample_backend None) 5 = 3" by (simp add: sample_view sample_number)
  have k: "known (client_view sample_backend None) 5" by (simp add: sample_view sample_known)
  have f: "filter ((\<lambda>v. v = ''two'') \<circ> node_data) (lineage (ancestor_of sample_headers) 5 (roots sample_tree)) = roots sample_tree"
    by (simp add: sample_tree_def sample_ancestor)
  obtain removed t' where p: "prune sample_tree 5 3 (descent_check id sample_backend None) (\<lambda>v. v = ''two'') = Some (Inr removed, t')"
    "mset removed + mset (items (roots t')) = mset (items (roots sample_tree))"
    "case roots sample_tree of [] \<Rightarrow> t' = sample_tree
     | x # xs \<Rightarrow> set (items (roots t')) = info ` {y \<in> set (nodes (roots sample_tree)). related (ancestor_of sample_headers) 5 (node_hash y) \<and>
         (node_hash y = node_hash (last (x # xs)) \<or> ancestor_of sample_headers (node_hash (last (x # xs))) (node_hash y))}"
    using prune_correct [OF sample_client_ok(1) sample_tree_ok [folded sample_view(1)] k, of "\<lambda>v. v = ''two''"]
    unfolding n unfolding sample_view f by blast
  have s: "{y \<in> set (nodes (roots sample_tree)). related (ancestor_of sample_headers) 5 (node_hash y) \<and>
         (node_hash y = 2 \<or> ancestor_of sample_headers 2 (node_hash y))} =
      {Node 2 1 ''two'' [Node 4 2 ''four'' [Node 5 3 ''five'' []], Node 3 2 ''three'' []], Node 4 2 ''four'' [Node 5 3 ''five'' []], Node 5 3 ''five'' []}"
    unfolding set_filter [symmetric] by (simp add: sample_tree_def related_def sample_ancestor)
  have r: "roots sample_tree = [Node 2 1 ''two'' [Node 4 2 ''four'' [Node 5 3 ''five'' []], Node 3 2 ''three'' []]]"
    by (simp add: sample_tree_def)
  have "set (items (roots t')) = info ` {y \<in> set (nodes (roots sample_tree)). related (ancestor_of sample_headers) 5 (node_hash y) \<and>
         (node_hash y = 2 \<or> ancestor_of sample_headers 2 (node_hash y))}"
    using p(3) unfolding r list.case last.simps node.sel if_True simp_thms .
  then have kept: "set (items (roots t')) = {(2, 1, ''two''), (4, 2, ''four''), (5, 3, ''five'')}"
    unfolding s by (simp add: info_def)
  have "distinct (items (roots sample_tree))" by (simp add: sample_tree_def info_def)
  then have "distinct (items (roots t'))" "set removed \<inter> set (items (roots t')) = {}"
    using p(2) by (metis distinct_append mset_append mset_eq_imp_distinct_iff)+
  then have "mset (items (roots t')) = mset [(2, 1, ''two''), (4, 2, ''four''), (5, 3, ''five'')]"
    using kept by (subst set_eq_iff_mset_eq_distinct [symmetric]) auto
  then have "mset removed + {# (2, 1, ''two''), (4, 2, ''four''), (5, 3, ''five'') #} =
      {# (3, 2, ''three'') #} + {# (2, 1, ''two''), (4, 2, ''four''), (5, 3, ''five'') #}"
    using p(2) by (simp add: sample_tree_def info_def)
  then have "mset removed = {# (3, 2, ''three'') #}" by (rule add_right_imp_eq)
  then show ?thesis using p(1) kept by blast
qed



text \<open>
  Mapping a fork tree goes through flat lists of nodes with the indices of their parents, level by
  level; the tree rebuilt has the same shape, and each node has the value of its own data, hash and
  number.
\<close>

lemma map_tree_correct:
  assumes "\<And>h n d s. fst (f h n d s) = g h n d"
  shows "snd (map_tree t f s) = \<lparr>roots = map (map_node g) (roots t), best_finalized_number = best_finalized_number t\<rparr>"
proof -
  obtain s' t' where "map_tree t f s = (s', t')" by fastforce
  from map_tree_roots [OF assms this] this show ?thesis by (cases t') simp
qed

text \<open>
  Draining nodes with a filter partitions the tree: the nodes left are the filter applied from the
  roots down (a removed node takes its subtree along, a kept tree is not looked into), the nodes handed
  out are all the others, each exactly once, and when nothing is removed the tree is unchanged.
\<close>

lemma drain_filter_correct:
  "mset (items (roots (snd (drain_filter t flt)))) = mset (items (concat (map (filter_node flt) (roots t)))) \<and>
   mset (fst (drain_filter t flt)) + mset (items (roots (snd (drain_filter t flt)))) = mset (items (roots t)) \<and>
   (fst (drain_filter t flt) = [] \<longrightarrow> roots (snd (drain_filter t flt)) = concat (map (filter_node flt) (roots t))) \<and>
   best_finalized_number (snd (drain_filter t flt)) = best_finalized_number t"
proof -
  obtain kept removed where l: "filter_loop flt (map (\<lambda>nd. (None, nd)) (rev (roots t))) [] [] = (kept, removed)" by fastforce
  note sp = drain_filter_loop [OF l]
  have df: "drain_filter t flt = (items (rev removed),
      if removed \<noteq> [] then rebalance (t\<lparr>roots := rebuild kept []\<rparr>) else t\<lparr>roots := rebuild kept []\<rparr>)"
    by (simp add: drain_filter_def l removed_iter_eq Let_def)
  have "mset (items (rev removed)) = mset (items (concat (map (removed_nodes flt) (roots t))))"
    by (rule mset_items_perm) (simp add: sp(2))
  moreover have "items (rev removed) = [] \<Longrightarrow> removed = []" by (cases "rev removed") simp_all
  ultimately show ?thesis
    using filter_forest_items [of flt "roots t"] rebalance_items [of "t\<lparr>roots := rebuild kept []\<rparr>"]
      rebalance_roots(2) [of "t\<lparr>roots := rebuild kept []\<rparr>"]
    unfolding df by (auto simp: sp(1) ac_simps)
qed



end
