(* ===== verification/System_Accounts.thy ===== *)
theory System_Accounts
  imports Prelude
begin

text \<open>
  The accounts of \<^verbatim>\<open>frame/system/src/lib.rs\<close>: the record stored for an account, its three reference
  counters (providers let the account exist, consumers depend on it, sufficients let it exist on their
  own), the events of account creation and death, and the storage of another pallet's data inside the
  account (\<^verbatim>\<open>StoredMap\<close>), here the balances of \<^verbatim>\<open>frame/balances/src/types.rs\<close> as in
  \<^verbatim>\<open>bin/node/runtime/src/lib.rs\<close>, where the handlers \<^verbatim>\<open>OnNewAccount\<close> and \<^verbatim>\<open>OnKilledAccount\<close> are empty.
  Reference counters are 32 bits wide and written as natural numbers with their saturation and
  wrap-around; balances are natural numbers up to the maximum of the configured type.
\<close>

section \<open>Errors and sequencing\<close>

datatype token_error =
  FundsUnavailable | OnlyProvider | BelowMinimum | CannotCreate | UnknownAsset | Frozen_funds
| Unsupported | CannotCreateHold | NotExpendable | Blocked_account

datatype arithmetic_error = Underflow | Overflow | DivisionByZero

datatype balances_error =
  VestingBalance | LiquidityRestrictions | InsufficientBalance | ExistentialDeposit_error | Expendability
| ExistingVestingSchedule | DeadAccount | TooManyReserves | TooManyHolds | TooManyFreezes

datatype dispatch_error =
  Other string | CannotLookup | BadOrigin | Module balances_error | ConsumerRemaining | NoProviders
| TooManyConsumers | Token token_error | Arithmetic arithmetic_error

text \<open>Sequencing of fallible steps that change the state; the state of a failed step is kept.\<close>

definition attempt ::
  "('e, 'a) result \<times> 's \<Rightarrow> ('a \<Rightarrow> 's \<Rightarrow> ('e, 'b) result \<times> 's) \<Rightarrow> ('e, 'b) result \<times> 's" where
  "attempt x f = (case x of (Inl e, s) \<Rightarrow> (Inl e, s) | (Inr a, s) \<Rightarrow> f a s)"

lemma attempt_simps [simp]: "attempt (Inl e, s) f = (Inl e, s)" "attempt (Inr a, s) f = f a s"
  by (simp_all add: attempt_def)

lemma attempt_ok: "attempt x f = (Inr b, s') \<longleftrightarrow> (\<exists>a s. x = (Inr a, s) \<and> f a s = (Inr b, s'))"
  by (cases x; cases "fst x") auto

lemma attempt_error:
  "attempt x f = (Inl e, s') \<longleftrightarrow> x = (Inl e, s') \<or> (\<exists>a s. x = (Inr a, s) \<and> f a s = (Inl e, s'))"
  by (cases x; cases "fst x") auto

definition ensure :: "bool \<Rightarrow> 'e \<Rightarrow> 's \<Rightarrow> ('e, unit) result \<times> 's" where
  "ensure b e s = (if b then (Inr (), s) else (Inl e, s))"

section \<open>Account data\<close>

definition IS_NEW_LOGIC :: "128 word" where
  "IS_NEW_LOGIC = 0x80000000000000000000000000000000"

record AccountData =
  free :: nat
  reserved :: nat
  frozen :: nat
  flags :: "128 word"

definition default_data :: AccountData where
  "default_data = \<lparr>free = 0, reserved = 0, frozen = 0, flags = IS_NEW_LOGIC\<rparr>"

definition old_logic :: "128 word" where
  "old_logic = 0"

definition set_new_logic :: "128 word \<Rightarrow> 128 word" where
  "set_new_logic f = or f IS_NEW_LOGIC"

definition is_new_logic :: "128 word \<Rightarrow> bool" where
  "is_new_logic f \<longleftrightarrow> and f IS_NEW_LOGIC = IS_NEW_LOGIC"

lemma new_logic_simps [simp]: "is_new_logic (set_new_logic f)" "is_new_logic IS_NEW_LOGIC" "\<not> is_new_logic old_logic"
proof -
  show "is_new_logic (set_new_logic f)" unfolding is_new_logic_def set_new_logic_def
    by (metis and.commute word_bw_comms(2) word_ao_absorbs(5))
qed (simp_all add: is_new_logic_def old_logic_def IS_NEW_LOGIC_def)

record AccountInfo =
  nonce :: nat
  consumers :: nat
  providers :: nat
  sufficients :: nat
  data :: AccountData

definition default_info :: AccountInfo where
  "default_info = \<lparr>nonce = 0, consumers = 0, providers = 0, sufficients = 0, data = default_data\<rparr>"

section \<open>State\<close>

text \<open>The events of the system pallet and of the balances pallet.\<close>

datatype status = Status_Free | Status_Reserved

datatype 'a event =
  NewAccount 'a | KilledAccount 'a
| Endowed 'a nat | DustLost 'a nat | Transfer 'a 'a nat | BalanceSet 'a nat | Reserved 'a nat
| Unreserved 'a nat | ReserveRepatriated 'a 'a nat status | Deposit 'a nat | Withdraw 'a nat
| Slashed 'a nat | Minted_event 'a nat | Burned 'a nat | Suspended 'a nat | Restored 'a nat | Upgraded 'a
| Issued nat | Rescinded nat | Locked 'a nat | Unlocked 'a nat | Frozen_event 'a nat | Thawed 'a nat

record 'a system =
  accounts :: "'a \<Rightarrow> AccountInfo option"
  block_number_now :: nat
  events :: "'a event list"

text \<open>Without topics an event is appended to the block's events, unless the block is the genesis block or the counter is full.\<close>

definition deposit_event :: "'a event \<Rightarrow> ('a, 'm) system_scheme \<Rightarrow> ('a, 'm) system_scheme" where
  "deposit_event e s =
     (if block_number_now s = 0 then s
      else if length (events s) + 1 < 2 ^ 32 then s\<lparr>events := events s @ [e]\<rparr> else s)"

text \<open>Reading an account gives the default when there is none.\<close>

definition get_account :: "('a, 'm) system_scheme \<Rightarrow> 'a \<Rightarrow> AccountInfo" where
  "get_account s who = (case accounts s who of Some a \<Rightarrow> a | None \<Rightarrow> default_info)"

definition put_account :: "'a \<Rightarrow> AccountInfo \<Rightarrow> ('a, 'm) system_scheme \<Rightarrow> ('a, 'm) system_scheme" where
  "put_account who a s = s\<lparr>accounts := (accounts s)(who \<mapsto> a)\<rparr>"

definition remove_account :: "'a \<Rightarrow> ('a, 'm) system_scheme \<Rightarrow> ('a, 'm) system_scheme" where
  "remove_account who s = s\<lparr>accounts := (accounts s)(who := None)\<rparr>"

section \<open>Reference counters\<close>

definition sat32 :: "nat \<Rightarrow> nat" where
  "sat32 n = min (2 ^ 32 - 1) n"

definition on_created_account :: "'a \<Rightarrow> ('a, 'm) system_scheme \<Rightarrow> ('a, 'm) system_scheme" where
  "on_created_account who s = deposit_event (NewAccount who) s"

definition on_killed_account :: "'a \<Rightarrow> ('a, 'm) system_scheme \<Rightarrow> ('a, 'm) system_scheme" where
  "on_killed_account who s = deposit_event (KilledAccount who) s"

datatype IncRefStatus = Created | Existed

datatype DecRefStatus = Reaped | Exists

definition inc_providers :: "'a \<Rightarrow> ('a, 'm) system_scheme \<Rightarrow> IncRefStatus \<times> ('a, 'm) system_scheme" where
  "inc_providers who s =
     (let a = get_account s who in
      if providers a = 0 \<and> sufficients a = 0
      then (Created, put_account who (a\<lparr>providers := 1\<rparr>) (on_created_account who s))
      else (Existed, put_account who (a\<lparr>providers := sat32 (providers a + 1)\<rparr>) s))"

definition dec_providers ::
  "'a \<Rightarrow> ('a, 'm) system_scheme \<Rightarrow> (dispatch_error, DecRefStatus) result \<times> ('a, 'm) system_scheme" where
  "dec_providers who s =
     (case accounts s who of
        None \<Rightarrow> (Inr Reaped, s)
      | Some account \<Rightarrow>
          (let account = (if providers account = 0 then account\<lparr>providers := 1\<rparr> else account) in
           if providers account = 1 \<and> consumers account = 0 \<and> sufficients account = 0
           then (Inr Reaped, remove_account who (on_killed_account who s))
           else if providers account = 1 \<and> consumers account > 0 then (Inl ConsumerRemaining, s)
           else (Inr Exists, put_account who (account\<lparr>providers := providers account - 1\<rparr>) s)))"

text \<open>The sum of two counters is computed in 32 bits.\<close>

definition inc_sufficients :: "'a \<Rightarrow> ('a, 'm) system_scheme \<Rightarrow> IncRefStatus \<times> ('a, 'm) system_scheme" where
  "inc_sufficients who s =
     (let a = get_account s who in
      if (providers a + sufficients a) mod 2 ^ 32 = 0
      then (Created, put_account who (a\<lparr>sufficients := 1\<rparr>) (on_created_account who s))
      else (Existed, put_account who (a\<lparr>sufficients := sat32 (sufficients a + 1)\<rparr>) s))"

text \<open>A counter at zero is only logged; the decrement that follows wraps around.\<close>

definition dec_sufficients :: "'a \<Rightarrow> ('a, 'm) system_scheme \<Rightarrow> DecRefStatus \<times> ('a, 'm) system_scheme" where
  "dec_sufficients who s =
     (case accounts s who of
        None \<Rightarrow> (Reaped, s)
      | Some account \<Rightarrow>
          if (sufficients account = 0 \<or> sufficients account = 1) \<and> providers account = 0
          then (Reaped, remove_account who (on_killed_account who s))
          else (Exists, put_account who (account\<lparr>sufficients := (sufficients account + 2 ^ 32 - 1) mod 2 ^ 32\<rparr>) s))"

definition providers_of :: "('a, 'm) system_scheme \<Rightarrow> 'a \<Rightarrow> nat" where
  "providers_of s who = providers (get_account s who)"

definition sufficients_of :: "('a, 'm) system_scheme \<Rightarrow> 'a \<Rightarrow> nat" where
  "sufficients_of s who = sufficients (get_account s who)"

definition inc_consumers ::
  "nat \<Rightarrow> 'a \<Rightarrow> ('a, 'm) system_scheme \<Rightarrow> (dispatch_error, unit) result \<times> ('a, 'm) system_scheme" where
  "inc_consumers max_consumers who s =
     (let a = get_account s who in
      if providers a > 0 then
        (if consumers a < max_consumers
         then (Inr (), put_account who (a\<lparr>consumers := sat32 (consumers a + 1)\<rparr>) s)
         else (Inl TooManyConsumers, s))
      else (Inl NoProviders, s))"

definition inc_consumers_without_limit ::
  "'a \<Rightarrow> ('a, 'm) system_scheme \<Rightarrow> (dispatch_error, unit) result \<times> ('a, 'm) system_scheme" where
  "inc_consumers_without_limit who s =
     (let a = get_account s who in
      if providers a > 0 then (Inr (), put_account who (a\<lparr>consumers := sat32 (consumers a + 1)\<rparr>) s)
      else (Inl NoProviders, s))"

definition dec_consumers :: "'a \<Rightarrow> ('a, 'm) system_scheme \<Rightarrow> ('a, 'm) system_scheme" where
  "dec_consumers who s =
     (let a = get_account s who in
      put_account who (if consumers a > 0 then a\<lparr>consumers := consumers a - 1\<rparr> else a) s)"

definition can_dec_provider :: "('a, 'm) system_scheme \<Rightarrow> 'a \<Rightarrow> bool" where
  "can_dec_provider s who = (let a = get_account s who in consumers a = 0 \<or> providers a > 1)"

definition can_accrue_consumers :: "nat \<Rightarrow> ('a, 'm) system_scheme \<Rightarrow> 'a \<Rightarrow> nat \<Rightarrow> bool" where
  "can_accrue_consumers max_consumers s who amount =
     (let a = get_account s who in
      if consumers a + amount < 2 ^ 32 then providers a > 0 \<and> consumers a + amount \<le> max_consumers else False)"

definition can_inc_consumer :: "nat \<Rightarrow> ('a, 'm) system_scheme \<Rightarrow> 'a \<Rightarrow> bool" where
  "can_inc_consumer max_consumers s who = can_accrue_consumers max_consumers s who 1"

section \<open>Data stored with the account\<close>

definition stored_get :: "('a, 'm) system_scheme \<Rightarrow> 'a \<Rightarrow> AccountData" where
  "stored_get s k = data (get_account s k)"

definition stored_try_mutate_exists ::
  "'a \<Rightarrow> (AccountData option \<Rightarrow> ('a, 'm) system_scheme \<Rightarrow> ('e, 'r) result \<times> AccountData option \<times> ('a, 'm) system_scheme)
     \<Rightarrow> ('a, 'm) system_scheme \<Rightarrow> ('e, 'r) result \<times> ('a, 'm) system_scheme" where
  "stored_try_mutate_exists k f s =
     (let account = get_account s k;
          some_data = (if data account = default_data then None else Some (data account))
      in case f some_data s of
           (Inl e, _, s) \<Rightarrow> (Inl e, s)
         | (Inr result, some_data, s) \<Rightarrow>
             (Inr result,
              if providers_of s k > 0 \<or> sufficients_of s k > 0
              then put_account k ((get_account s k)\<lparr>data := (case some_data of Some d \<Rightarrow> d | None \<Rightarrow> default_data)\<rparr>) s
              else remove_account k s))"

section \<open>Origins and storage layers\<close>

text \<open>A call runs in a storage layer of its own: an error leaves the state as it was.\<close>

datatype 'a origin = Root | Signed 'a | Unsigned

definition ensure_signed :: "'a origin \<Rightarrow> (dispatch_error, 'a) result" where
  "ensure_signed o' = (case o' of Signed t \<Rightarrow> Inr t | _ \<Rightarrow> Inl BadOrigin)"

definition ensure_root :: "'a origin \<Rightarrow> (dispatch_error, unit) result" where
  "ensure_root o' = (case o' of Root \<Rightarrow> Inr () | _ \<Rightarrow> Inl BadOrigin)"

definition with_storage_layer :: "('s \<Rightarrow> ('e, 'r) result \<times> 's) \<Rightarrow> 's \<Rightarrow> ('e, 'r) result \<times> 's" where
  "with_storage_layer f s = (case f s of (Inr r, s') \<Rightarrow> (Inr r, s') | (Inl e, _) \<Rightarrow> (Inl e, s))"

end
