(* ===== verification/Fungible.thy ===== *)
theory Fungible
  imports System_Accounts
begin

text \<open>
  The traits of a fungible token, \<^verbatim>\<open>frame/support/src/traits/tokens/fungible\<close>: what an implementation
  provides is the record \<open>Fungible\<close> (with \<open>Holdable\<close> for balances on hold), and the methods the traits
  define on top of it (\<^verbatim>\<open>regular.rs\<close>, \<^verbatim>\<open>hold.rs\<close>) are functions of that record. The state is a type
  variable. The locale \<open>fungible\<close> is the contract of the provided operations, and the lemmas in it show
  what the derived ones do to balances, supply and total issuance.
\<close>

section \<open>Modes and consequences\<close>

datatype Provenance = Minted | Extant
datatype Restriction = Restriction_Free | OnHold
datatype Preservation = Expendable | Protect | Preserve
datatype Fortitude = Polite | Force
datatype Precision = Exact | BestEffort

datatype WithdrawConsequence =
  WC_BalanceLow | WC_WouldDie | WC_UnknownAsset | WC_Underflow | WC_Overflow | WC_Frozen
| WC_ReducedToZero nat | WC_Success

fun withdraw_into_result :: "WithdrawConsequence \<Rightarrow> bool \<Rightarrow> (dispatch_error, nat) result" where
  "withdraw_into_result WC_BalanceLow keep_nonzero = Inl (Token FundsUnavailable)"
| "withdraw_into_result WC_WouldDie keep_nonzero = Inl (Token OnlyProvider)"
| "withdraw_into_result WC_UnknownAsset keep_nonzero = Inl (Token UnknownAsset)"
| "withdraw_into_result WC_Underflow keep_nonzero = Inl (Arithmetic Underflow)"
| "withdraw_into_result WC_Overflow keep_nonzero = Inl (Arithmetic Overflow)"
| "withdraw_into_result WC_Frozen keep_nonzero = Inl (Token Frozen_funds)"
| "withdraw_into_result (WC_ReducedToZero result) keep_nonzero =
     (if keep_nonzero then Inl (Token NotExpendable) else Inr result)"
| "withdraw_into_result WC_Success keep_nonzero = Inr 0"

datatype DepositConsequence =
  DC_BelowMinimum | DC_CannotCreate | DC_UnknownAsset | DC_Overflow | DC_Success | DC_Blocked

fun deposit_into_result :: "DepositConsequence \<Rightarrow> (dispatch_error, unit) result" where
  "deposit_into_result DC_BelowMinimum = Inl (Token BelowMinimum)"
| "deposit_into_result DC_CannotCreate = Inl (Token CannotCreate)"
| "deposit_into_result DC_UnknownAsset = Inl (Token UnknownAsset)"
| "deposit_into_result DC_Overflow = Inl (Arithmetic Overflow)"
| "deposit_into_result DC_Blocked = Inl (Token Blocked_account)"
| "deposit_into_result DC_Success = Inr ()"

section \<open>Balance arithmetic\<close>

text \<open>Checked and saturating operations of the balance type, whose greatest value is the first argument.\<close>

definition checked_add :: "nat \<Rightarrow> nat \<Rightarrow> nat \<Rightarrow> nat option" where
  "checked_add mx a b = (if a + b \<le> mx then Some (a + b) else None)"

definition checked_sub :: "nat \<Rightarrow> nat \<Rightarrow> nat option" where
  "checked_sub a b = (if b \<le> a then Some (a - b) else None)"

definition sat_add :: "nat \<Rightarrow> nat \<Rightarrow> nat \<Rightarrow> nat" where
  "sat_add mx a b = min mx (a + b)"

text \<open>Subtraction of natural numbers stops at zero, as \<^verbatim>\<open>saturating_sub\<close> does.\<close>

definition sat_sub :: "nat \<Rightarrow> nat \<Rightarrow> nat" where
  "sat_sub a b = a - b"

definition ok_or :: "'a option \<Rightarrow> 'e \<Rightarrow> 's \<Rightarrow> ('e, 'a) result \<times> 's" where
  "ok_or x e s = (case x of Some a \<Rightarrow> (Inr a, s) | None \<Rightarrow> (Inl e, s))"

section \<open>What an implementation provides\<close>

record ('a, 's) Fungible =
  fg_max :: nat
  fg_minimum_balance :: nat
  fg_total_issuance :: "'s \<Rightarrow> nat"
  fg_balance :: "'s \<Rightarrow> 'a \<Rightarrow> nat"
  fg_reducible_balance :: "'s \<Rightarrow> 'a \<Rightarrow> Preservation \<Rightarrow> Fortitude \<Rightarrow> nat"
  fg_can_deposit :: "'s \<Rightarrow> 'a \<Rightarrow> nat \<Rightarrow> Provenance \<Rightarrow> DepositConsequence"
  fg_can_withdraw :: "'s \<Rightarrow> 'a \<Rightarrow> nat \<Rightarrow> WithdrawConsequence"
  fg_handle_dust :: "nat \<Rightarrow> 's \<Rightarrow> 's"
  fg_write_balance :: "'a \<Rightarrow> nat \<Rightarrow> 's \<Rightarrow> (dispatch_error, nat option) result \<times> 's"
  fg_set_total_issuance :: "nat \<Rightarrow> 's \<Rightarrow> 's"
  fg_done_mint_into :: "'a \<Rightarrow> nat \<Rightarrow> 's \<Rightarrow> 's"
  fg_done_burn_from :: "'a \<Rightarrow> nat \<Rightarrow> 's \<Rightarrow> 's"
  fg_done_shelve :: "'a \<Rightarrow> nat \<Rightarrow> 's \<Rightarrow> 's"
  fg_done_restore :: "'a \<Rightarrow> nat \<Rightarrow> 's \<Rightarrow> 's"
  fg_done_transfer :: "'a \<Rightarrow> 'a \<Rightarrow> nat \<Rightarrow> 's \<Rightarrow> 's"
  fg_done_rescind :: "nat \<Rightarrow> 's \<Rightarrow> 's"
  fg_done_issue :: "nat \<Rightarrow> 's \<Rightarrow> 's"
  fg_done_deposit :: "'a \<Rightarrow> nat \<Rightarrow> 's \<Rightarrow> 's"
  fg_done_withdraw :: "'a \<Rightarrow> nat \<Rightarrow> 's \<Rightarrow> 's"

record ('a, 's, 'r) Holdable = "('a, 's) Fungible" +
  hd_reducible_total_balance_on_hold :: "'s \<Rightarrow> 'a \<Rightarrow> Fortitude \<Rightarrow> nat"
  hd_balance_on_hold :: "'s \<Rightarrow> 'r \<Rightarrow> 'a \<Rightarrow> nat"
  hd_hold_available :: "'s \<Rightarrow> 'r \<Rightarrow> 'a \<Rightarrow> bool"
  hd_set_balance_on_hold :: "'r \<Rightarrow> 'a \<Rightarrow> nat \<Rightarrow> 's \<Rightarrow> (dispatch_error, unit) result \<times> 's"

section \<open>Unbalanced operations\<close>

definition handle_raw_dust :: "('a, 's, 'm) Fungible_scheme \<Rightarrow> nat \<Rightarrow> 's \<Rightarrow> 's" where
  "handle_raw_dust F amount s = fg_handle_dust F (min amount (sat_sub (fg_minimum_balance F) 1)) s"

text \<open>The dust a write reports is handed to the dust handler.\<close>

definition dust_of_write :: "('a, 's, 'm) Fungible_scheme \<Rightarrow> nat option \<Rightarrow> 's \<Rightarrow> 's" where
  "dust_of_write F maybe_dust s = (case maybe_dust of Some dust \<Rightarrow> fg_handle_dust F dust s | None \<Rightarrow> s)"

definition decrease_balance ::
  "('a, 's, 'm) Fungible_scheme \<Rightarrow> 'a \<Rightarrow> nat \<Rightarrow> Precision \<Rightarrow> Preservation \<Rightarrow> Fortitude
     \<Rightarrow> 's \<Rightarrow> (dispatch_error, nat) result \<times> 's" where
  "decrease_balance F who amount precision preservation force s =
     (let old_balance = fg_balance F s who;
          reducible = fg_reducible_balance F s who preservation force;
          amount = (if precision = BestEffort then min amount reducible else amount)
      in attempt (ok_or (checked_sub old_balance amount) (Token FundsUnavailable) s) (\<lambda>new_balance s.
           attempt (fg_write_balance F who new_balance s) (\<lambda>maybe_dust s.
             (Inr (sat_sub old_balance new_balance), dust_of_write F maybe_dust s))))"

definition increase_balance ::
  "('a, 's, 'm) Fungible_scheme \<Rightarrow> 'a \<Rightarrow> nat \<Rightarrow> Precision \<Rightarrow> 's \<Rightarrow> (dispatch_error, nat) result \<times> 's" where
  "increase_balance F who amount precision s =
     (let old_balance = fg_balance F s who in
      attempt (if precision = BestEffort then (Inr (sat_add (fg_max F) old_balance amount), s)
               else ok_or (checked_add (fg_max F) old_balance amount) (Arithmetic Overflow) s) (\<lambda>new_balance s.
        if new_balance < fg_minimum_balance F
        then (if precision = BestEffort then (Inr 0, s) else (Inl (Token BelowMinimum), s))
        else if new_balance = old_balance then (Inr 0, s)
        else attempt (fg_write_balance F who new_balance s) (\<lambda>maybe_dust s.
               (Inr (sat_sub new_balance old_balance), dust_of_write F maybe_dust s))))"

section \<open>Minting, burning and transfer\<close>

definition mint_into ::
  "('a, 's, 'm) Fungible_scheme \<Rightarrow> 'a \<Rightarrow> nat \<Rightarrow> 's \<Rightarrow> (dispatch_error, nat) result \<times> 's" where
  "mint_into F who amount s =
     attempt (ok_or (checked_add (fg_max F) (fg_total_issuance F s) amount) (Arithmetic Overflow) s) (\<lambda>_ s.
       attempt (increase_balance F who amount Exact s) (\<lambda>actual s.
         (Inr actual, fg_done_mint_into F who amount
            (fg_set_total_issuance F (sat_add (fg_max F) (fg_total_issuance F s) actual) s))))"

definition burn_from ::
  "('a, 's, 'm) Fungible_scheme \<Rightarrow> 'a \<Rightarrow> nat \<Rightarrow> Precision \<Rightarrow> Fortitude \<Rightarrow> 's \<Rightarrow> (dispatch_error, nat) result \<times> 's" where
  "burn_from F who amount precision force s =
     (let actual = min (fg_reducible_balance F s who Expendable force) amount in
      attempt (ensure (actual = amount \<or> precision = BestEffort) (Token FundsUnavailable) s) (\<lambda>_ s.
        attempt (ok_or (checked_sub (fg_total_issuance F s) actual) (Arithmetic Overflow) s) (\<lambda>_ s.
          attempt (decrease_balance F who actual BestEffort Expendable force s) (\<lambda>actual s.
            (Inr actual, fg_done_burn_from F who actual
               (fg_set_total_issuance F (sat_sub (fg_total_issuance F s) actual) s))))))"

definition shelve ::
  "('a, 's, 'm) Fungible_scheme \<Rightarrow> 'a \<Rightarrow> nat \<Rightarrow> 's \<Rightarrow> (dispatch_error, nat) result \<times> 's" where
  "shelve F who amount s =
     (let actual = min (fg_reducible_balance F s who Expendable Polite) amount in
      attempt (ensure (actual = amount) (Token FundsUnavailable) s) (\<lambda>_ s.
        attempt (ok_or (checked_sub (fg_total_issuance F s) actual) (Arithmetic Overflow) s) (\<lambda>_ s.
          attempt (decrease_balance F who actual BestEffort Expendable Polite s) (\<lambda>actual s.
            (Inr actual, fg_done_shelve F who actual
               (fg_set_total_issuance F (sat_sub (fg_total_issuance F s) actual) s))))))"

definition restore ::
  "('a, 's, 'm) Fungible_scheme \<Rightarrow> 'a \<Rightarrow> nat \<Rightarrow> 's \<Rightarrow> (dispatch_error, nat) result \<times> 's" where
  "restore F who amount s =
     attempt (ok_or (checked_add (fg_max F) (fg_total_issuance F s) amount) (Arithmetic Overflow) s) (\<lambda>_ s.
       attempt (increase_balance F who amount Exact s) (\<lambda>actual s.
         (Inr actual, fg_done_restore F who amount
            (fg_set_total_issuance F (sat_add (fg_max F) (fg_total_issuance F s) actual) s))))"

text \<open>The outcome of the deposit is ignored.\<close>

definition fungible_transfer ::
  "('a, 's, 'm) Fungible_scheme \<Rightarrow> 'a \<Rightarrow> 'a \<Rightarrow> nat \<Rightarrow> Preservation \<Rightarrow> 's \<Rightarrow> (dispatch_error, nat) result \<times> 's" where
  "fungible_transfer F source dest amount preservation s =
     attempt (withdraw_into_result (fg_can_withdraw F s source amount) (preservation \<noteq> Expendable), s) (\<lambda>_ s.
       attempt (deposit_into_result (fg_can_deposit F s dest amount Extant), s) (\<lambda>_ s.
         attempt (decrease_balance F source amount BestEffort preservation Polite s) (\<lambda>_ s.
           (Inr amount, fg_done_transfer F source dest amount (snd (increase_balance F dest amount BestEffort s))))))"

definition set_balance ::
  "('a, 's, 'm) Fungible_scheme \<Rightarrow> 'a \<Rightarrow> nat \<Rightarrow> 's \<Rightarrow> nat \<times> 's" where
  "set_balance F who amount s =
     (let b = fg_balance F s who in
      if b > amount
      then (case burn_from F who (b - amount) BestEffort Force s of
              (Inr d, s) \<Rightarrow> (sat_sub b d, s) | (Inl _, s) \<Rightarrow> (b, s))
      else (case mint_into F who (amount - b) s of
              (Inr d, s) \<Rightarrow> (sat_add (fg_max F) b d, s) | (Inl _, s) \<Rightarrow> (b, s)))"

section \<open>Credits and debts\<close>

text \<open>
  A credit is worth more issuance than balances, a debt less. The value is all an imbalance holds;
  dropping it settles the issuance.
\<close>

definition drop_credit :: "('a, 's, 'm) Fungible_scheme \<Rightarrow> nat \<Rightarrow> 's \<Rightarrow> 's" where
  "drop_credit F amount s =
     (if amount = 0 then s else fg_set_total_issuance F (sat_sub (fg_total_issuance F s) amount) s)"

definition drop_debt :: "('a, 's, 'm) Fungible_scheme \<Rightarrow> nat \<Rightarrow> 's \<Rightarrow> 's" where
  "drop_debt F amount s =
     (if amount = 0 then s else fg_set_total_issuance F (sat_add (fg_max F) (fg_total_issuance F s) amount) s)"

datatype SameOrOther = SO_None | SO_Same nat | SO_Other nat

definition imbalance_offset :: "nat \<Rightarrow> nat \<Rightarrow> SameOrOther" where
  "imbalance_offset a b = (if a = b then SO_None else if a > b then SO_Same (a - b) else SO_Other (b - a))"

definition imbalance_split :: "nat \<Rightarrow> nat \<Rightarrow> nat \<times> nat" where
  "imbalance_split whole amount = (let first = min whole amount in (first, whole - first))"

definition imbalance_merge :: "nat \<Rightarrow> nat \<Rightarrow> nat \<Rightarrow> nat" where
  "imbalance_merge mx a b = sat_add mx a b"

definition rescind :: "('a, 's, 'm) Fungible_scheme \<Rightarrow> nat \<Rightarrow> 's \<Rightarrow> nat \<times> 's" where
  "rescind F amount s =
     (let old = fg_total_issuance F s; new = sat_sub old amount;
          s = fg_set_total_issuance F new s; delta = old - new
      in (delta, fg_done_rescind F delta s))"

definition issue :: "('a, 's, 'm) Fungible_scheme \<Rightarrow> nat \<Rightarrow> 's \<Rightarrow> nat \<times> 's" where
  "issue F amount s =
     (let old = fg_total_issuance F s; new = sat_add (fg_max F) old amount;
          s = fg_set_total_issuance F new s; delta = new - old
      in (delta, fg_done_issue F delta s))"

definition pair :: "('a, 's, 'm) Fungible_scheme \<Rightarrow> nat \<Rightarrow> 's \<Rightarrow> (nat \<times> nat) \<times> 's" where
  "pair F amount s = (let (d, s) = rescind F amount s; (c, s) = issue F amount s in ((d, c), s))"

definition deposit ::
  "('a, 's, 'm) Fungible_scheme \<Rightarrow> 'a \<Rightarrow> nat \<Rightarrow> Precision \<Rightarrow> 's \<Rightarrow> (dispatch_error, nat) result \<times> 's" where
  "deposit F who value precision s =
     attempt (increase_balance F who value precision s) (\<lambda>increase s.
       (Inr increase, fg_done_deposit F who increase s))"

definition withdraw ::
  "('a, 's, 'm) Fungible_scheme \<Rightarrow> 'a \<Rightarrow> nat \<Rightarrow> Precision \<Rightarrow> Preservation \<Rightarrow> Fortitude
     \<Rightarrow> 's \<Rightarrow> (dispatch_error, nat) result \<times> 's" where
  "withdraw F who value precision preservation force s =
     attempt (decrease_balance F who value precision preservation force s) (\<lambda>decrease s.
       (Inr decrease, fg_done_withdraw F who decrease s))"

text \<open>A failed \<^verbatim>\<open>resolve\<close> gives the credit back; a leftover of the offset is dropped.\<close>

definition resolve :: "('a, 's, 'm) Fungible_scheme \<Rightarrow> 'a \<Rightarrow> nat \<Rightarrow> 's \<Rightarrow> (nat, unit) result \<times> 's" where
  "resolve F who credit s =
     (case deposit F who credit Exact s of
        (Inl _, s) \<Rightarrow> (Inl credit, s)
      | (Inr debt, s) \<Rightarrow>
          (Inr (), case imbalance_offset credit debt of
                     SO_None \<Rightarrow> s | SO_Same c \<Rightarrow> drop_credit F c s | SO_Other d \<Rightarrow> drop_debt F d s))"

definition settle ::
  "('a, 's, 'm) Fungible_scheme \<Rightarrow> 'a \<Rightarrow> nat \<Rightarrow> Preservation \<Rightarrow> 's \<Rightarrow> (nat, nat) result \<times> 's" where
  "settle F who debt preservation s =
     (case withdraw F who debt Exact preservation Polite s of
        (Inl _, s) \<Rightarrow> (Inl debt, s)
      | (Inr credit, s) \<Rightarrow>
          (case imbalance_offset credit debt of
             SO_None \<Rightarrow> (Inr 0, s) | SO_Same dust \<Rightarrow> (Inr dust, s) | SO_Other rest \<Rightarrow> (Inl rest, s)))"

section \<open>Balances on hold\<close>

definition ensure_can_hold ::
  "('a, 's, 'r, 'm) Holdable_scheme \<Rightarrow> 'r \<Rightarrow> 'a \<Rightarrow> nat \<Rightarrow> 's \<Rightarrow> (dispatch_error, unit) result \<times> 's" where
  "ensure_can_hold F reason who amount s =
     attempt (ensure (hd_hold_available F s reason who) (Token CannotCreateHold) s) (\<lambda>_ s.
       ensure (amount \<le> fg_reducible_balance F s who Protect Force) (Token FundsUnavailable) s)"

definition can_hold :: "('a, 's, 'r, 'm) Holdable_scheme \<Rightarrow> 's \<Rightarrow> 'r \<Rightarrow> 'a \<Rightarrow> nat \<Rightarrow> bool" where
  "can_hold F s reason who amount = (case fst (ensure_can_hold F reason who amount s) of Inr _ \<Rightarrow> True | Inl _ \<Rightarrow> False)"

definition decrease_balance_on_hold ::
  "('a, 's, 'r, 'm) Holdable_scheme \<Rightarrow> 'r \<Rightarrow> 'a \<Rightarrow> nat \<Rightarrow> Precision \<Rightarrow> 's \<Rightarrow> (dispatch_error, nat) result \<times> 's" where
  "decrease_balance_on_hold F reason who amount precision s =
     (let old_balance = hd_balance_on_hold F s reason who;
          amount = (if precision = BestEffort then min amount old_balance else amount)
      in attempt (ok_or (checked_sub old_balance amount) (Token FundsUnavailable) s) (\<lambda>new_balance s.
           attempt (hd_set_balance_on_hold F reason who new_balance s) (\<lambda>_ s. (Inr amount, s))))"

definition increase_balance_on_hold ::
  "('a, 's, 'r, 'm) Holdable_scheme \<Rightarrow> 'r \<Rightarrow> 'a \<Rightarrow> nat \<Rightarrow> Precision \<Rightarrow> 's \<Rightarrow> (dispatch_error, nat) result \<times> 's" where
  "increase_balance_on_hold F reason who amount precision s =
     (let old_balance = hd_balance_on_hold F s reason who in
      attempt (if precision = BestEffort then (Inr (sat_add (fg_max F) old_balance amount), s)
               else ok_or (checked_add (fg_max F) old_balance amount) (Arithmetic Overflow) s) (\<lambda>new_balance s.
        let amount = sat_sub new_balance old_balance in
        attempt (if amount \<noteq> 0 then hd_set_balance_on_hold F reason who new_balance s else (Inr (), s)) (\<lambda>_ s.
          (Inr amount, s))))"

definition hold ::
  "('a, 's, 'r, 'm) Holdable_scheme \<Rightarrow> 'r \<Rightarrow> 'a \<Rightarrow> nat \<Rightarrow> 's \<Rightarrow> (dispatch_error, unit) result \<times> 's" where
  "hold F reason who amount s =
     attempt (ensure_can_hold F reason who amount s) (\<lambda>_ s.
       attempt (decrease_balance F who amount Exact Protect Force s) (\<lambda>_ s.
         attempt (increase_balance_on_hold F reason who amount BestEffort s) (\<lambda>_ s. (Inr (), s))))"

definition release ::
  "('a, 's, 'r, 'm) Holdable_scheme \<Rightarrow> 'r \<Rightarrow> 'a \<Rightarrow> nat \<Rightarrow> Precision \<Rightarrow> 's \<Rightarrow> (dispatch_error, nat) result \<times> 's" where
  "release F reason who amount precision s =
     attempt (ensure (fg_can_deposit F s who amount Extant = DC_Success) (Token CannotCreate) s) (\<lambda>_ s.
       attempt (decrease_balance_on_hold F reason who amount precision s) (\<lambda>amount s.
         increase_balance F who amount BestEffort s))"

definition burn_held ::
  "('a, 's, 'r, 'm) Holdable_scheme \<Rightarrow> 'r \<Rightarrow> 'a \<Rightarrow> nat \<Rightarrow> Precision \<Rightarrow> Fortitude
     \<Rightarrow> 's \<Rightarrow> (dispatch_error, nat) result \<times> 's" where
  "burn_held F reason who amount precision force s =
     (let liquid = hd_reducible_total_balance_on_hold F s who force in
      attempt (if precision = BestEffort then (Inr (min amount liquid), s)
               else attempt (ensure (amount \<le> liquid) (Token Frozen_funds) s) (\<lambda>_ s. (Inr amount, s))) (\<lambda>amount s.
        attempt (decrease_balance_on_hold F reason who amount precision s) (\<lambda>amount s.
          (Inr amount, fg_set_total_issuance F (sat_sub (fg_total_issuance F s) amount) s))))"

definition transfer_on_hold ::
  "('a, 's, 'r, 'm) Holdable_scheme \<Rightarrow> 'r \<Rightarrow> 'a \<Rightarrow> 'a \<Rightarrow> nat \<Rightarrow> Precision \<Rightarrow> Restriction \<Rightarrow> Fortitude
     \<Rightarrow> 's \<Rightarrow> (dispatch_error, nat) result \<times> 's" where
  "transfer_on_hold F reason source dest amount precision mode force s =
     (let have_held = hd_balance_on_hold F s reason source;
          liquid = hd_reducible_total_balance_on_hold F s source force
      in attempt (if precision = BestEffort then (Inr (min (min amount liquid) have_held), s)
                  else attempt (ensure (amount \<le> liquid) (Token Frozen_funds) s) (\<lambda>_ s.
                         attempt (ensure (amount \<le> have_held) (Token FundsUnavailable) s) (\<lambda>_ s. (Inr amount, s)))) (\<lambda>amount s.
           attempt (ensure (fg_can_deposit F s dest amount Extant = DC_Success) (Token CannotCreate) s) (\<lambda>_ s.
             attempt (ensure (mode = Restriction_Free \<or> hd_hold_available F s reason dest) (Token CannotCreateHold) s) (\<lambda>_ s.
               attempt (decrease_balance_on_hold F reason source amount precision s) (\<lambda>amount s.
                 if mode = OnHold then increase_balance_on_hold F reason dest amount precision s
                 else increase_balance F dest amount precision s)))))"

definition transfer_and_hold ::
  "('a, 's, 'r, 'm) Holdable_scheme \<Rightarrow> 'r \<Rightarrow> 'a \<Rightarrow> 'a \<Rightarrow> nat \<Rightarrow> Precision \<Rightarrow> Preservation \<Rightarrow> Fortitude
     \<Rightarrow> 's \<Rightarrow> (dispatch_error, nat) result \<times> 's" where
  "transfer_and_hold F reason source dest amount precision expendability force s =
     attempt (ensure (hd_hold_available F s reason dest) (Token CannotCreateHold) s) (\<lambda>_ s.
       attempt (ensure (fg_can_deposit F s dest amount Extant = DC_Success) (Token CannotCreate) s) (\<lambda>_ s.
         attempt (decrease_balance F source amount precision expendability force s) (\<lambda>actual s.
           attempt (increase_balance_on_hold F reason dest actual precision s) (\<lambda>_ s. (Inr actual, s)))))"

definition slash_held ::
  "('a, 's, 'r, 'm) Holdable_scheme \<Rightarrow> 'r \<Rightarrow> 'a \<Rightarrow> nat \<Rightarrow> 's \<Rightarrow> (nat \<times> nat) \<times> 's" where
  "slash_held F reason who amount s =
     (let (r, s) = decrease_balance_on_hold F reason who amount BestEffort s;
          decrease = (case r of Inr d \<Rightarrow> d | Inl _ \<Rightarrow> 0)
      in ((decrease, sat_sub amount decrease), s))"

section \<open>The contract\<close>

text \<open>A step that changes no balance and no issuance.\<close>

definition neutral :: "('a, 's, 'm) Fungible_scheme \<Rightarrow> ('s \<Rightarrow> bool) \<Rightarrow> ('s \<Rightarrow> nat) \<Rightarrow> ('s \<Rightarrow> 's) \<Rightarrow> bool" where
  "neutral F ok funds g \<longleftrightarrow> (\<forall>s. ok s \<longrightarrow> ok (g s) \<and> fg_balance F (g s) = fg_balance F s \<and> funds (g s) = funds s \<and>
     fg_total_issuance F (g s) = fg_total_issuance F s)"

text \<open>
  What an implementation promises about its states in order: a write that succeeds sets one balance, or
  reports the balance as dust and leaves none, and the funds of all accounts follow; raising a
  balance to at least the minimum succeeds, and so does lowering it by what is reducible; what a
  withdrawal is allowed is reducible; what a deposit is allowed leaves the minimum.
\<close>

locale fungible =
  fixes F :: "('a, 's, 'm) Fungible_scheme" and ok :: "'s \<Rightarrow> bool" and funds :: "'s \<Rightarrow> nat"
  assumes write_ok: "ok s \<Longrightarrow> n \<le> fg_max F \<Longrightarrow> fg_write_balance F who n s = (Inr d, s') \<Longrightarrow>
      ok s' \<and> fg_total_issuance F s' = fg_total_issuance F s \<and>
      fg_balance F s' = (fg_balance F s)(who := (case d of None \<Rightarrow> n | Some _ \<Rightarrow> 0)) \<and>
      funds s' + fg_balance F s who = funds s + (case d of None \<Rightarrow> n | Some _ \<Rightarrow> 0) \<and>
      (d = None \<or> d = Some n \<and> n < fg_minimum_balance F)"
    and write_up: "ok s \<Longrightarrow> fg_balance F s who \<le> n \<Longrightarrow> fg_minimum_balance F \<le> n \<Longrightarrow> n \<le> fg_max F \<Longrightarrow>
      \<exists>s'. fg_write_balance F who n s = (Inr None, s')"
    and write_down: "ok s \<Longrightarrow> n \<le> fg_reducible_balance F s who p f \<Longrightarrow>
      \<exists>d s'. fg_write_balance F who (fg_balance F s who - n) s = (Inr d, s')"
    and write_error: "ok s \<Longrightarrow> n \<le> fg_max F \<Longrightarrow> fg_write_balance F who n s = (Inl e, s') \<Longrightarrow>
      ok s' \<and> fg_total_issuance F s' = fg_total_issuance F s \<and> fg_balance F s' = fg_balance F s \<and> funds s' = funds s"
    and balance_funds: "ok s \<Longrightarrow> fg_balance F s who \<le> funds s"
    and balance_max: "ok s \<Longrightarrow> fg_balance F s who \<le> fg_max F"
    and reducible_balance: "ok s \<Longrightarrow> fg_reducible_balance F s who p f \<le> fg_balance F s who"
    and withdraw_reducible: "ok s \<Longrightarrow> withdraw_into_result (fg_can_withdraw F s who n) (p \<noteq> Expendable) = Inr x \<Longrightarrow>
      n \<le> fg_reducible_balance F s who p Polite"
    and deposit_minimum: "ok s \<Longrightarrow> fg_can_deposit F s who n Extant = DC_Success \<Longrightarrow>
      n = 0 \<or> fg_minimum_balance F \<le> fg_balance F s who + n \<and> fg_balance F s who + n \<le> fg_max F"
    and set_issuance: "ok s \<Longrightarrow> ok (fg_set_total_issuance F n s) \<and> fg_total_issuance F (fg_set_total_issuance F n s) = n \<and>
      fg_balance F (fg_set_total_issuance F n s) = fg_balance F s \<and> funds (fg_set_total_issuance F n s) = funds s"
    and dust: "ok s \<Longrightarrow> ok (fg_handle_dust F n s) \<and> fg_total_issuance F (fg_handle_dust F n s) = fg_total_issuance F s - n \<and>
      fg_balance F (fg_handle_dust F n s) = fg_balance F s \<and> funds (fg_handle_dust F n s) = funds s"
    and done_steps: "neutral F ok funds (fg_done_mint_into F who n)" "neutral F ok funds (fg_done_burn_from F who n)"
      "neutral F ok funds (fg_done_shelve F who n)" "neutral F ok funds (fg_done_restore F who n)"
      "neutral F ok funds (fg_done_transfer F who dest n)"
begin

abbreviation issued :: "'s \<Rightarrow> bool" where
  "issued s \<equiv> fg_total_issuance F s = funds s"

lemma neutralD:
  assumes "neutral F ok funds g" "ok s"
  shows "ok (g s)" "fg_balance F (g s) = fg_balance F s" "funds (g s) = funds s" "fg_total_issuance F (g s) = fg_total_issuance F s"
  using assms by (auto simp: neutral_def)

lemma decrease_ok:
  assumes "ok s" "decrease_balance F who n prec p fo s = (Inr x, s')"
  shows "x = (if prec = BestEffort then min n (fg_reducible_balance F s who p fo) else n)" "x \<le> fg_balance F s who"
    "\<exists>dust. (dust = 0 \<or> dust = fg_balance F s who - x \<and> dust < fg_minimum_balance F) \<and> ok s' \<and>
       fg_balance F s' = (fg_balance F s)(who := fg_balance F s who - x - dust) \<and>
       funds s' + x + dust = funds s \<and> fg_total_issuance F s' = fg_total_issuance F s - dust"
proof -
  let ?b = "fg_balance F s who"
  define m where "m = (if prec = BestEffort then min n (fg_reducible_balance F s who p fo) else n)"
  have m: "m \<le> ?b" using assms(2) by (auto simp: decrease_balance_def m_def checked_sub_def ok_or_def Let_def split: if_splits)
  then obtain d s1 where w: "fg_write_balance F who (?b - m) s = (Inr d, s1)" "s' = dust_of_write F d s1" "x = m"
    using assms(2) by (auto simp: decrease_balance_def m_def [symmetric] checked_sub_def ok_or_def sat_sub_def Let_def attempt_ok)
  show "x = (if prec = BestEffort then min n (fg_reducible_balance F s who p fo) else n)" "x \<le> ?b"
    using w(3) m by (simp_all add: m_def)
  have nm: "?b - m \<le> fg_max F" using balance_max [OF assms(1), of who] by simp
  note wo = write_ok [OF assms(1) nm w(1)]
  show "\<exists>dust. (dust = 0 \<or> dust = ?b - x \<and> dust < fg_minimum_balance F) \<and> ok s' \<and>
       fg_balance F s' = (fg_balance F s)(who := ?b - x - dust) \<and>
       funds s' + x + dust = funds s \<and> fg_total_issuance F s' = fg_total_issuance F s - dust"
  proof (cases d)
    case None
    then show ?thesis using wo w m balance_funds [OF assms(1), of who] by (intro exI [of _ 0]) (auto simp: dust_of_write_def)
  next
    case (Some k)
    have s1: "ok s1" using wo by auto
    show ?thesis using wo w m Some dust [OF s1, of k] balance_funds [OF assms(1), of who]
      by (intro exI [of _ "?b - m"]) (auto simp: dust_of_write_def)
  qed
qed

lemma decrease_total:
  assumes "ok s" "n \<le> fg_reducible_balance F s who p fo"
  shows "\<exists>s'. decrease_balance F who n prec p fo s = (Inr n, s')"
proof -
  have b: "n \<le> fg_balance F s who" using assms(2) reducible_balance [OF assms(1), of who p fo] by simp
  obtain d s1 where "fg_write_balance F who (fg_balance F s who - n) s = (Inr d, s1)" using write_down [OF assms] by blast
  then show ?thesis using assms(2) b by (auto simp: decrease_balance_def checked_sub_def ok_or_def sat_sub_def Let_def)
qed

lemma increase_ok:
  assumes "ok s" "increase_balance F who n prec s = (Inr x, s')"
  shows "ok s'" "fg_balance F s' = (fg_balance F s)(who := fg_balance F s who + x)" "funds s' = funds s + x"
    "fg_total_issuance F s' = fg_total_issuance F s" "x \<le> n" "prec = Exact \<Longrightarrow> x = n"
proof -
  let ?b = "fg_balance F s who"
  define m where "m = (if prec = BestEffort then sat_add (fg_max F) ?b n else ?b + n)"
  have ch: "prec = Exact \<Longrightarrow> ?b + n \<le> fg_max F" using assms(2) by (auto simp: increase_balance_def checked_add_def ok_or_def Let_def split: if_splits)
  have inc: "increase_balance F who n prec s =
      (if m < fg_minimum_balance F then (if prec = BestEffort then (Inr 0, s) else (Inl (Token BelowMinimum), s))
       else if m = ?b then (Inr 0, s)
       else attempt (fg_write_balance F who m s) (\<lambda>maybe_dust s. (Inr (sat_sub m ?b), dust_of_write F maybe_dust s)))"
    using ch by (cases prec) (auto simp: increase_balance_def m_def checked_add_def ok_or_def Let_def)
  have "ok s' \<and> fg_balance F s' = (fg_balance F s)(who := ?b + x) \<and> funds s' = funds s + x \<and>
    fg_total_issuance F s' = fg_total_issuance F s \<and> x \<le> n \<and> (prec = Exact \<longrightarrow> x = n)"
  proof (cases "m < fg_minimum_balance F \<or> m = ?b")
    case True
    then have "x = 0" "s' = s" "prec = BestEffort \<or> n = 0" using assms(2) inc by (auto simp: m_def split: if_splits)
    then show ?thesis using assms(1) by auto
  next
    case False
    then obtain d s1 where w: "fg_write_balance F who m s = (Inr d, s1)" "s' = dust_of_write F d s1" "x = m - ?b"
      using assms(2) inc by (auto simp: attempt_ok sat_sub_def)
    have mx: "m \<le> fg_max F" "?b \<le> m" using ch balance_max [OF assms(1), of who] by (cases prec; simp add: m_def sat_add_def)+
    note wo = write_ok [OF assms(1) mx(1) w(1)]
    then have d: "d = None" using False by auto
    then show ?thesis using wo w mx by (auto simp: dust_of_write_def m_def sat_add_def)
  qed
  then show "ok s'" "fg_balance F s' = (fg_balance F s)(who := ?b + x)" "funds s' = funds s + x"
    "fg_total_issuance F s' = fg_total_issuance F s" "x \<le> n" "prec = Exact \<Longrightarrow> x = n" by auto
qed

lemma increase_total:
  assumes "ok s" "fg_minimum_balance F \<le> fg_balance F s who + n" "fg_balance F s who + n \<le> fg_max F"
  shows "\<exists>s'. increase_balance F who n prec s = (Inr n, s')"
proof -
  obtain s1 where "fg_write_balance F who (fg_balance F s who + n) s = (Inr None, s1)"
    using write_up [of s who "fg_balance F s who + n"] assms by auto
  then show ?thesis using assms(2,3)
    by (auto simp: increase_balance_def checked_add_def ok_or_def sat_add_def sat_sub_def dust_of_write_def Let_def min_def)
qed

text \<open>Minting raises one balance and the issuance by the same amount; burning lowers them, dust included.\<close>

lemma mint_ok:
  assumes "ok s" "issued s" "mint_into F who n s = (Inr x, s')"
  shows "x = n" "ok s'" "issued s'" "fg_balance F s' = (fg_balance F s)(who := fg_balance F s who + n)"
    "fg_total_issuance F s' = fg_total_issuance F s + n"
proof -
  obtain s1 where i: "increase_balance F who n Exact s = (Inr x, s1)" "fg_total_issuance F s + n \<le> fg_max F"
    "s' = fg_done_mint_into F who n (fg_set_total_issuance F (sat_add (fg_max F) (fg_total_issuance F s1) x) s1)"
    using assms(3) by (auto simp: mint_into_def ok_or_def checked_add_def attempt_ok split: if_splits)
  note a = increase_ok [OF assms(1) i(1)]
  note t = set_issuance [OF a(1), of "sat_add (fg_max F) (fg_total_issuance F s1) x"]
  note d = neutralD [OF done_steps(1) [of who n] conjunct1 [OF t]]
  show "x = n" using a(6) by simp
  then show "ok s'" "issued s'" "fg_balance F s' = (fg_balance F s)(who := fg_balance F s who + n)"
    "fg_total_issuance F s' = fg_total_issuance F s + n"
    using a t d i assms(2) by (auto simp: sat_add_def)
qed

lemma burn_ok:
  assumes "ok s" "issued s" "burn_from F who n prec fo s = (Inr x, s')"
  shows "x = min (fg_reducible_balance F s who Expendable fo) n" "prec = Exact \<Longrightarrow> x = n"
    "\<exists>dust. (dust = 0 \<or> dust = fg_balance F s who - x \<and> dust < fg_minimum_balance F) \<and> ok s' \<and> issued s' \<and>
       fg_balance F s' = (fg_balance F s)(who := fg_balance F s who - x - dust) \<and> fg_total_issuance F s' + x + dust = fg_total_issuance F s"
proof -
  let ?m = "min (fg_reducible_balance F s who Expendable fo) n"
  obtain s1 where i: "decrease_balance F who ?m BestEffort Expendable fo s = (Inr x, s1)" "?m = n \<or> prec = BestEffort"
    "s' = fg_done_burn_from F who x (fg_set_total_issuance F (sat_sub (fg_total_issuance F s1) x) s1)"
    using assms(3) by (auto simp: burn_from_def ensure_def ok_or_def checked_sub_def attempt_ok Let_def split: if_splits)
  note a = decrease_ok [OF assms(1) i(1)]
  from a(3) obtain dust where d: "dust = 0 \<or> dust = fg_balance F s who - x \<and> dust < fg_minimum_balance F" "ok s1"
    "fg_balance F s1 = (fg_balance F s)(who := fg_balance F s who - x - dust)" "funds s1 + x + dust = funds s"
    "fg_total_issuance F s1 = fg_total_issuance F s - dust" by blast
  note t = set_issuance [OF d(2), of "sat_sub (fg_total_issuance F s1) x"]
  note e = neutralD [OF done_steps(2) [of who x] conjunct1 [OF t]]
  show "x = ?m" using a(1) by simp
  then show "prec = Exact \<Longrightarrow> x = n" using i(2) by auto
  have "ok s'" "fg_balance F s' = fg_balance F s1" "funds s' = funds s1" "fg_total_issuance F s' = fg_total_issuance F s1 - x"
    using e t i(3) by (simp_all add: sat_sub_def)
  then show "\<exists>dust. (dust = 0 \<or> dust = fg_balance F s who - x \<and> dust < fg_minimum_balance F) \<and> ok s' \<and> issued s' \<and>
       fg_balance F s' = (fg_balance F s)(who := fg_balance F s who - x - dust) \<and> fg_total_issuance F s' + x + dust = fg_total_issuance F s"
    using d assms(2) by (intro exI [of _ dust]) auto
qed

text \<open>
  A transfer between two accounts is decided by the two checks alone. When they pass, the source loses
  the amount and the dust it may leave, the destination gains the amount, and the issuance loses the dust.
\<close>

lemma transfer_ok:
  assumes "ok s" "source \<noteq> dest"
    "withdraw_into_result (fg_can_withdraw F s source n) (p \<noteq> Expendable) = Inr w" "fg_can_deposit F s dest n Extant = DC_Success"
  shows "\<exists>s' dust. fungible_transfer F source dest n p s = (Inr n, s') \<and> ok s' \<and>
    (dust = 0 \<or> dust = fg_balance F s source - n \<and> dust < fg_minimum_balance F) \<and> n + dust \<le> fg_balance F s source \<and>
    fg_balance F s' = (fg_balance F s)(source := fg_balance F s source - n - dust, dest := fg_balance F s dest + n) \<and>
    funds s' + dust = funds s \<and> fg_total_issuance F s' = fg_total_issuance F s - dust"
proof -
  have red: "n \<le> fg_reducible_balance F s source p Polite" by (rule withdraw_reducible [OF assms(1,3)])
  then obtain s1 where s1: "decrease_balance F source n BestEffort p Polite s = (Inr n, s1)" using decrease_total [OF assms(1)] by blast
  note a = decrease_ok [OF assms(1) s1]
  from a(3) obtain dust where d: "dust = 0 \<or> dust = fg_balance F s source - n \<and> dust < fg_minimum_balance F" "ok s1"
    "fg_balance F s1 = (fg_balance F s)(source := fg_balance F s source - n - dust)" "funds s1 + n + dust = funds s"
    "fg_total_issuance F s1 = fg_total_issuance F s - dust" by blast
  have bd: "fg_balance F s1 dest = fg_balance F s dest" using d(3) assms(2) by simp
  obtain s2 where s2: "snd (increase_balance F dest n BestEffort s1) = s2" "ok s2" "funds s2 = funds s1 + n"
    "fg_balance F s2 = (fg_balance F s1)(dest := fg_balance F s1 dest + n)" "fg_total_issuance F s2 = fg_total_issuance F s1"
  proof (cases "n = 0")
    case True
    have "\<exists>x. increase_balance F dest 0 BestEffort s1 = (Inr x, s1)"
      using balance_max [OF d(2), of dest] by (auto simp: increase_balance_def sat_add_def Let_def)
    then show ?thesis using that [of s1] True d(2) by auto
  next
    case False
    then have "fg_minimum_balance F \<le> fg_balance F s1 dest + n \<and> fg_balance F s1 dest + n \<le> fg_max F"
      using deposit_minimum [OF assms(1,4)] bd by simp
    then obtain s2 where "increase_balance F dest n BestEffort s1 = (Inr n, s2)" using increase_total [OF d(2)] by blast
    from that [of s2] increase_ok [OF d(2) this] this show ?thesis by simp
  qed
  note e = neutralD [OF done_steps(5) [of source dest n] s2(2)]
  have run: "fungible_transfer F source dest n p s = (Inr n, fg_done_transfer F source dest n s2)"
    using assms(3,4) s1 s2(1) by (simp add: fungible_transfer_def)
  have "n + dust \<le> fg_balance F s source" using a(2) d(1) by auto
  then show ?thesis using run e d s2 bd assms(2)
    by (intro exI [of _ "fg_done_transfer F source dest n s2"] exI [of _ dust]) auto
qed

lemma transfer_refused:
  assumes "withdraw_into_result (fg_can_withdraw F s source n) (p \<noteq> Expendable) = Inl e \<or>
     (\<exists>w. withdraw_into_result (fg_can_withdraw F s source n) (p \<noteq> Expendable) = Inr w) \<and>
       deposit_into_result (fg_can_deposit F s dest n Extant) = Inl e"
  shows "fungible_transfer F source dest n p s = (Inl e, s)"
  using assms by (auto simp: fungible_transfer_def)

end

end
