(* ===== verification/Balances.thy ===== *)
theory Balances
  imports Fungible
begin

text \<open>
  The balances pallet: its types and storage (\<^verbatim>\<open>types.rs\<close>, \<^verbatim>\<open>lib.rs\<close>), the one place where an account is
  changed (\<^verbatim>\<open>try_mutate_account\<close>), locks, freezes and the transfer of reserved funds, the provided
  operations of the fungible traits (\<^verbatim>\<open>impl_fungible.rs\<close>), the genesis state and the dispatchable calls.
  The account store is the system pallet, dust is dropped (\<^verbatim>\<open>type DustRemoval = ()\<close>) as in the node's
  runtime, and identifiers are natural numbers. Messages to the log are left out; what \<^verbatim>\<open>defensive\<close> and
  \<^verbatim>\<open>debug_assert\<close> do beyond that in debug builds is left out too.
\<close>

section \<open>Types and storage\<close>

record config =
  ExistentialDeposit :: nat
  max_value :: nat
  MaxLocks :: nat
  MaxReserves :: nat
  MaxHolds :: nat
  MaxFreezes :: nat
  max_consumers :: nat

datatype Reasons = Reasons_Fee | Reasons_Misc | Reasons_All

text \<open>Withdraw reasons are a bit set; \<^verbatim>\<open>TRANSACTION_PAYMENT\<close> is its lowest bit.\<close>

definition TRANSACTION_PAYMENT :: u8 where
  "TRANSACTION_PAYMENT = 1"

definition RESERVE :: u8 where
  "RESERVE = 4"

definition reasons_from :: "u8 \<Rightarrow> Reasons" where
  "reasons_from r =
     (if r = TRANSACTION_PAYMENT then Reasons_Fee
      else if and r TRANSACTION_PAYMENT = TRANSACTION_PAYMENT then Reasons_All else Reasons_Misc)"

definition reasons_bitor :: "Reasons \<Rightarrow> Reasons \<Rightarrow> Reasons" where
  "reasons_bitor a b = (if a = b then a else Reasons_All)"

record BalanceLock =
  lock_id :: nat
  lock_amount :: nat
  lock_reasons :: Reasons

record ReserveData =
  rs_id :: nat
  rs_amount :: nat

record IdAmount =
  ia_id :: nat
  ia_amount :: nat

record 'a ledger = "'a system" +
  TotalIssuance :: nat
  InactiveIssuance :: nat
  Locks :: "'a \<Rightarrow> BalanceLock list option"
  Reserves :: "'a \<Rightarrow> ReserveData list option"
  Holds :: "'a \<Rightarrow> IdAmount list option"
  Freezes :: "'a \<Rightarrow> IdAmount list option"

text \<open>Storage maps return the empty list for a missing key.\<close>

definition get_list :: "('a \<Rightarrow> 'b list option) \<Rightarrow> 'a \<Rightarrow> 'b list" where
  "get_list m who = (case m who of Some xs \<Rightarrow> xs | None \<Rightarrow> [])"

definition usable :: "AccountData \<Rightarrow> nat" where
  "usable a = sat_sub (free a) (frozen a)"

definition total :: "config \<Rightarrow> AccountData \<Rightarrow> nat" where
  "total cfg a = sat_add (max_value cfg) (free a) (reserved a)"

section \<open>Changing an account\<close>

definition account :: "'a ledger \<Rightarrow> 'a \<Rightarrow> AccountData" where
  "account s who = stored_get s who"

definition ensure_upgraded :: "config \<Rightarrow> 'a \<Rightarrow> 'a ledger \<Rightarrow> bool \<times> 'a ledger" where
  "ensure_upgraded cfg who s =
     (let a = stored_get s who in
      if is_new_logic (flags a) then (False, s)
      else
        (let a = a\<lparr>flags := set_new_logic (flags a)\<rparr>;
             (a, s) =
               (if reserved a \<noteq> 0 \<and> frozen a = 0 then
                  (let (a, s) = (if providers_of s who = 0
                                 then (a\<lparr>free := max (free a) (ExistentialDeposit cfg)\<rparr>, snd (inc_providers who s))
                                 else (a, s))
                   in (a, snd (inc_consumers_without_limit who s)))
                else (a, s));
             s = snd (stored_try_mutate_exists who (\<lambda>_ s. (Inr () :: (dispatch_error, unit) result, Some a, s)) s)
         in (True, deposit_event (Upgraded who) s)))"

text \<open>The reference counters after a change, from what the account provided and consumed before and does now.\<close>

definition settle_refs ::
  "config \<Rightarrow> 'a \<Rightarrow> bool \<Rightarrow> bool \<Rightarrow> bool \<Rightarrow> bool \<Rightarrow> 'a ledger \<Rightarrow> (dispatch_error, unit) result \<times> 'a ledger" where
  "settle_refs cfg who did_provide did_consume does_provide does_consume s =
     (let s = (if \<not> did_provide \<and> does_provide then snd (inc_providers who s) else s);
          s = (if did_consume \<and> \<not> does_consume then dec_consumers who s else s)
      in attempt (if \<not> did_consume \<and> does_consume then inc_consumers (max_consumers cfg) who s else (Inr (), s)) (\<lambda>_ s.
           if did_provide \<and> \<not> does_provide then
             (case dec_providers who s of
                (Inr _, s) \<Rightarrow> (Inr (), s)
              | (Inl r, s) \<Rightarrow>
                  (let s = (if did_consume \<and> \<not> does_consume then snd (inc_consumers (max_consumers cfg) who s) else s);
                       s = (if \<not> did_consume \<and> does_consume then dec_consumers who s else s)
                   in (Inl r, s)))
           else (Inr (), s)))"

definition mutate_body ::
  "config \<Rightarrow> 'a \<Rightarrow> (AccountData \<Rightarrow> bool \<Rightarrow> 'a ledger \<Rightarrow> (dispatch_error, 'r) result \<times> AccountData \<times> 'a ledger)
     \<Rightarrow> AccountData option \<Rightarrow> 'a ledger
     \<Rightarrow> (dispatch_error, nat option \<times> nat option \<times> 'r) result \<times> AccountData option \<times> 'a ledger" where
  "mutate_body cfg who f maybe_account s =
     (let is_new = (maybe_account = None);
          account = (case maybe_account of Some a \<Rightarrow> a | None \<Rightarrow> default_data);
          did_provide = (free account \<ge> ExistentialDeposit cfg);
          did_consume = (\<not> is_new \<and> (reserved account \<noteq> 0 \<or> frozen account \<noteq> 0))
      in case f account is_new s of
           (Inl e, _, s) \<Rightarrow> (Inl e, None, s)
         | (Inr result, account, s) \<Rightarrow>
             (case settle_refs cfg who did_provide did_consume
                     (free account \<ge> ExistentialDeposit cfg) (reserved account \<noteq> 0 \<or> frozen account \<noteq> 0) s of
                (Inl e, s) \<Rightarrow> (Inl e, None, s)
              | (Inr _, s) \<Rightarrow>
                  (let maybe_endowed = (if is_new then Some (free account) else None)
                   in if free account < ExistentialDeposit cfg \<and> reserved account = 0
                      then (Inr (maybe_endowed, if free account = 0 then None else Some (free account), result), None, s)
                      else (Inr (maybe_endowed, None, result), Some account, s))))"

definition try_mutate_account ::
  "config \<Rightarrow> 'a \<Rightarrow> (AccountData \<Rightarrow> bool \<Rightarrow> 'a ledger \<Rightarrow> (dispatch_error, 'r) result \<times> AccountData \<times> 'a ledger)
     \<Rightarrow> 'a ledger \<Rightarrow> (dispatch_error, 'r \<times> nat option) result \<times> 'a ledger" where
  "try_mutate_account cfg who f s =
     attempt (stored_try_mutate_exists who (mutate_body cfg who f) (snd (ensure_upgraded cfg who s)))
       (\<lambda>(maybe_endowed, maybe_dust, result) s.
          let s = (case maybe_endowed of Some endowed \<Rightarrow> deposit_event (Endowed who endowed) s | None \<Rightarrow> s);
              s = (case maybe_dust of Some amount \<Rightarrow> deposit_event (DustLost who amount) s | None \<Rightarrow> s)
          in (Inr (result, maybe_dust), s))"

definition mutate_account ::
  "config \<Rightarrow> 'a \<Rightarrow> (AccountData \<Rightarrow> 'r \<times> AccountData) \<Rightarrow> 'a ledger
     \<Rightarrow> (dispatch_error, 'r \<times> nat option) result \<times> 'a ledger" where
  "mutate_account cfg who f s =
     try_mutate_account cfg who (\<lambda>a _ s. let (r, a) = f a in (Inr r, a, s)) s"

section \<open>Inspection\<close>

definition active_issuance :: "'a ledger \<Rightarrow> nat" where
  "active_issuance s = sat_sub (TotalIssuance s) (InactiveIssuance s)"

definition total_balance :: "config \<Rightarrow> 'a ledger \<Rightarrow> 'a \<Rightarrow> nat" where
  "total_balance cfg s who = total cfg (account s who)"

definition balance :: "'a ledger \<Rightarrow> 'a \<Rightarrow> nat" where
  "balance s who = free (account s who)"

definition reducible_balance :: "config \<Rightarrow> 'a ledger \<Rightarrow> 'a \<Rightarrow> Preservation \<Rightarrow> Fortitude \<Rightarrow> nat" where
  "reducible_balance cfg s who preservation force =
     (let a = account s who;
          untouchable = (if force = Polite then sat_sub (frozen a) (reserved a) else 0);
          untouchable =
            (if preservation = Preserve
                \<or> preservation = Protect \<and> free a \<noteq> 0 \<and> providers_of s who = 1
                \<or> preservation = Expendable \<and> free a \<noteq> 0 \<and> \<not> can_dec_provider s who
             then max untouchable (ExistentialDeposit cfg) else untouchable)
      in sat_sub (free a) untouchable)"

definition can_deposit :: "config \<Rightarrow> 'a ledger \<Rightarrow> 'a \<Rightarrow> nat \<Rightarrow> Provenance \<Rightarrow> DepositConsequence" where
  "can_deposit cfg s who amount provenance =
     (if amount = 0 then DC_Success
      else if provenance = Minted \<and> checked_add (max_value cfg) (TotalIssuance s) amount = None then DC_Overflow
      else
        (let a = account s who in
         case checked_add (max_value cfg) (free a) amount of
           None \<Rightarrow> DC_Overflow
         | Some x \<Rightarrow>
             if x < ExistentialDeposit cfg then DC_BelowMinimum
             else (case checked_add (max_value cfg) (reserved a) x of None \<Rightarrow> DC_Overflow | Some _ \<Rightarrow> DC_Success)))"

definition can_withdraw :: "config \<Rightarrow> 'a ledger \<Rightarrow> 'a \<Rightarrow> nat \<Rightarrow> WithdrawConsequence" where
  "can_withdraw cfg s who amount =
     (if amount = 0 then WC_Success
      else if checked_sub (TotalIssuance s) amount = None then WC_Underflow
      else
        (let a = account s who in
         case checked_sub (free a) amount of
           None \<Rightarrow> WC_BalanceLow
         | Some new_free_balance \<Rightarrow>
             if amount > reducible_balance cfg s who Expendable Polite then WC_Frozen
             else if new_free_balance < ExistentialDeposit cfg \<and> \<not> can_dec_provider s who then WC_WouldDie
             else
               (let success = (if new_free_balance < ExistentialDeposit cfg
                               then WC_ReducedToZero new_free_balance else WC_Success);
                    new_total_balance = sat_add (max_value cfg) new_free_balance (reserved a)
                in if new_total_balance < frozen a then WC_Frozen else success)))"

definition usable_balance :: "config \<Rightarrow> 'a ledger \<Rightarrow> 'a \<Rightarrow> nat" where
  "usable_balance cfg s who = reducible_balance cfg s who Expendable Polite"

definition usable_balance_for_fees :: "config \<Rightarrow> 'a ledger \<Rightarrow> 'a \<Rightarrow> nat" where
  "usable_balance_for_fees cfg s who = reducible_balance cfg s who Protect Polite"

section \<open>Unbalanced operations\<close>

definition set_total_issuance :: "nat \<Rightarrow> 'a ledger \<Rightarrow> 'a ledger" where
  "set_total_issuance amount s = s\<lparr>TotalIssuance := amount\<rparr>"

definition deactivate :: "config \<Rightarrow> nat \<Rightarrow> 'a ledger \<Rightarrow> 'a ledger" where
  "deactivate cfg amount s = s\<lparr>InactiveIssuance := sat_add (max_value cfg) (InactiveIssuance s) amount\<rparr>"

definition reactivate :: "nat \<Rightarrow> 'a ledger \<Rightarrow> 'a ledger" where
  "reactivate amount s = s\<lparr>InactiveIssuance := sat_sub (InactiveIssuance s) amount\<rparr>"

text \<open>The credit made of the dust is dropped at once, which takes it off the issuance.\<close>

definition handle_dust :: "nat \<Rightarrow> 'a ledger \<Rightarrow> 'a ledger" where
  "handle_dust dust s =
     (if dust = 0 then s else set_total_issuance (sat_sub (TotalIssuance s) dust) s)"

definition write_balance ::
  "config \<Rightarrow> 'a \<Rightarrow> nat \<Rightarrow> 'a ledger \<Rightarrow> (dispatch_error, nat option) result \<times> 'a ledger" where
  "write_balance cfg who amount s =
     (let max_reduction = reducible_balance cfg s who Expendable Force in
      attempt (mutate_account cfg who
          (\<lambda>account. if sat_sub (free account) amount \<le> max_reduction
                     then (Inr (), account\<lparr>free := amount\<rparr>)
                     else (Inl (Module InsufficientBalance), account)) s)
        (\<lambda>(result, maybe_dust) s. attempt (result, s) (\<lambda>_ s. (Inr maybe_dust, s))))"

section \<open>Holds\<close>

definition total_balance_on_hold :: "'a ledger \<Rightarrow> 'a \<Rightarrow> nat" where
  "total_balance_on_hold s who = reserved (account s who)"

definition reducible_total_balance_on_hold :: "'a ledger \<Rightarrow> 'a \<Rightarrow> Fortitude \<Rightarrow> nat" where
  "reducible_total_balance_on_hold s who force =
     (let a = account s who;
          unavailable = (if force = Force then 0 else sat_sub (frozen a) (free a))
      in sat_sub (reserved a) unavailable)"

text \<open>The amount of the first item with an identifier.\<close>

definition amount_of :: "nat \<Rightarrow> IdAmount list \<Rightarrow> nat option" where
  "amount_of i xs = map_option ia_amount (find (\<lambda>x. ia_id x = i) xs)"

text \<open>Sets the amount of the first item with an identifier, as \<^verbatim>\<open>iter_mut().find\<close> does.\<close>

fun set_amount :: "nat \<Rightarrow> nat \<Rightarrow> IdAmount list \<Rightarrow> IdAmount list" where
  "set_amount i n [] = []"
| "set_amount i n (x # xs) = (if ia_id x = i then x\<lparr>ia_amount := n\<rparr> # xs else x # set_amount i n xs)"

definition balance_on_hold :: "'a ledger \<Rightarrow> nat \<Rightarrow> 'a \<Rightarrow> nat" where
  "balance_on_hold s reason who = (case amount_of reason (get_list (Holds s) who) of Some n \<Rightarrow> n | None \<Rightarrow> 0)"

definition hold_available :: "config \<Rightarrow> 'a ledger \<Rightarrow> nat \<Rightarrow> 'a \<Rightarrow> bool" where
  "hold_available cfg s reason who =
     (if providers_of s who = 0 then False
      else
        (let holds = get_list (Holds s) who in
         if length holds \<ge> MaxHolds cfg \<and> \<not> list_ex (\<lambda>x. ia_id x = reason) holds then False else True))"

definition set_balance_on_hold ::
  "config \<Rightarrow> nat \<Rightarrow> 'a \<Rightarrow> nat \<Rightarrow> 'a ledger \<Rightarrow> (dispatch_error, unit) result \<times> 'a ledger" where
  "set_balance_on_hold cfg reason who amount s =
     (let new_account = account s who;
          holds = get_list (Holds s) who
      in attempt (case amount_of reason holds of
                    Some item_amount \<Rightarrow>
                      (Inr (amount > item_amount, max item_amount amount - min item_amount amount,
                            filter (\<lambda>x. ia_amount x \<noteq> 0) (set_amount reason amount holds)), s)
                  | None \<Rightarrow>
                      if amount = 0 then (Inr (True, amount, holds), s)
                      else if length holds < MaxHolds cfg
                      then (Inr (True, amount, holds @ [\<lparr>ia_id = reason, ia_amount = amount\<rparr>]), s)
                      else (Inl (Module TooManyHolds), s)) (\<lambda>(increase, delta, holds) s.
           attempt (if increase then ok_or (checked_add (max_value cfg) (reserved new_account) delta) (Arithmetic Overflow) s
                    else ok_or (checked_sub (reserved new_account) delta) (Arithmetic Underflow) s) (\<lambda>r s.
             attempt (try_mutate_account cfg who (\<lambda>_ _ s. (Inr (), new_account\<lparr>reserved := r\<rparr>, s)) s) (\<lambda>(result, _) s.
               (Inr result, s\<lparr>Holds := (Holds s)(who \<mapsto> holds)\<rparr>)))))"

section \<open>Events of the fungible traits\<close>

definition done_mint_into :: "'a \<Rightarrow> nat \<Rightarrow> 'a ledger \<Rightarrow> 'a ledger" where
  "done_mint_into who amount s = deposit_event (Minted_event who amount) s"

definition done_burn_from :: "'a \<Rightarrow> nat \<Rightarrow> 'a ledger \<Rightarrow> 'a ledger" where
  "done_burn_from who amount s = deposit_event (Burned who amount) s"

definition done_shelve :: "'a \<Rightarrow> nat \<Rightarrow> 'a ledger \<Rightarrow> 'a ledger" where
  "done_shelve who amount s = deposit_event (Suspended who amount) s"

definition done_restore :: "'a \<Rightarrow> nat \<Rightarrow> 'a ledger \<Rightarrow> 'a ledger" where
  "done_restore who amount s = deposit_event (Restored who amount) s"

definition done_transfer :: "'a \<Rightarrow> 'a \<Rightarrow> nat \<Rightarrow> 'a ledger \<Rightarrow> 'a ledger" where
  "done_transfer source dest amount s = deposit_event (Transfer source dest amount) s"

definition done_rescind :: "nat \<Rightarrow> 'a ledger \<Rightarrow> 'a ledger" where
  "done_rescind amount s = deposit_event (Rescinded amount) s"

definition done_issue :: "nat \<Rightarrow> 'a ledger \<Rightarrow> 'a ledger" where
  "done_issue amount s = deposit_event (Issued amount) s"

definition done_deposit :: "'a \<Rightarrow> nat \<Rightarrow> 'a ledger \<Rightarrow> 'a ledger" where
  "done_deposit who amount s = deposit_event (Deposit who amount) s"

definition done_withdraw :: "'a \<Rightarrow> nat \<Rightarrow> 'a ledger \<Rightarrow> 'a ledger" where
  "done_withdraw who amount s = deposit_event (Withdraw who amount) s"

definition balances :: "config \<Rightarrow> ('a, 'a ledger, nat) Holdable" where
  "balances cfg =
     \<lparr>fg_max = max_value cfg, fg_minimum_balance = ExistentialDeposit cfg, fg_total_issuance = TotalIssuance,
      fg_balance = balance, fg_reducible_balance = reducible_balance cfg, fg_can_deposit = can_deposit cfg,
      fg_can_withdraw = can_withdraw cfg, fg_handle_dust = handle_dust, fg_write_balance = write_balance cfg,
      fg_set_total_issuance = set_total_issuance, fg_done_mint_into = done_mint_into,
      fg_done_burn_from = done_burn_from, fg_done_shelve = done_shelve, fg_done_restore = done_restore,
      fg_done_transfer = done_transfer, fg_done_rescind = done_rescind, fg_done_issue = done_issue,
      fg_done_deposit = done_deposit, fg_done_withdraw = done_withdraw,
      hd_reducible_total_balance_on_hold = reducible_total_balance_on_hold, hd_balance_on_hold = balance_on_hold,
      hd_hold_available = hold_available cfg, hd_set_balance_on_hold = set_balance_on_hold cfg\<rparr>"

end
