(* ===== verification/Balances_Currency.thy ===== *)
theory Balances_Currency
  imports Balances
begin

text \<open>
  The older interface of the balances pallet (\<^verbatim>\<open>impl_currency.rs\<close>): imbalances, the currency, reserved
  balances with and without names, locks; the freezes of \<^verbatim>\<open>impl_fungible.rs\<close>; and the helpers of
  \<^verbatim>\<open>lib.rs\<close> they call. A positive imbalance stands for funds created, a negative one for funds destroyed,
  with no counterpart in the issuance yet; its value is all it holds, and dropping it settles the issuance.
\<close>

section \<open>Imbalances\<close>

definition drop_positive :: "config \<Rightarrow> nat \<Rightarrow> 'a ledger \<Rightarrow> 'a ledger" where
  "drop_positive cfg v s = s\<lparr>TotalIssuance := sat_add (max_value cfg) (TotalIssuance s) v\<rparr>"

definition drop_negative :: "nat \<Rightarrow> 'a ledger \<Rightarrow> 'a ledger" where
  "drop_negative v s = s\<lparr>TotalIssuance := sat_sub (TotalIssuance s) v\<rparr>"

datatype SignedImbalance = Positive nat | Negative nat

text \<open>Imbalances of the currency interface offset as those of the fungible traits do, and split and merge likewise.\<close>

definition positive_offset :: "nat \<Rightarrow> nat \<Rightarrow> SameOrOther" where
  "positive_offset a b = (if a > b then SO_Same (a - b) else if b > a then SO_Other (b - a) else SO_None)"

definition positive_split :: "nat \<Rightarrow> nat \<Rightarrow> nat \<times> nat" where
  "positive_split whole amount = (let first = min whole amount; second = whole - first in (first, second))"

definition positive_merge :: "config \<Rightarrow> nat \<Rightarrow> nat \<Rightarrow> nat" where
  "positive_merge cfg a b = sat_add (max_value cfg) a b"

section \<open>Changes with their dust\<close>

definition handle_maybe_dust :: "config \<Rightarrow> nat option \<Rightarrow> 'a ledger \<Rightarrow> 'a ledger" where
  "handle_maybe_dust cfg maybe_dust s =
     (case maybe_dust of Some dust \<Rightarrow> handle_raw_dust (balances cfg) dust s | None \<Rightarrow> s)"

definition mutate_account_handling_dust ::
  "config \<Rightarrow> 'a \<Rightarrow> (AccountData \<Rightarrow> 'r \<times> AccountData) \<Rightarrow> 'a ledger \<Rightarrow> (dispatch_error, 'r) result \<times> 'a ledger" where
  "mutate_account_handling_dust cfg who f s =
     attempt (mutate_account cfg who f s) (\<lambda>(r, maybe_dust) s. (Inr r, handle_maybe_dust cfg maybe_dust s))"

definition try_mutate_account_handling_dust ::
  "config \<Rightarrow> 'a \<Rightarrow> (AccountData \<Rightarrow> bool \<Rightarrow> 'a ledger \<Rightarrow> (dispatch_error, 'r) result \<times> AccountData \<times> 'a ledger)
     \<Rightarrow> 'a ledger \<Rightarrow> (dispatch_error, 'r) result \<times> 'a ledger" where
  "try_mutate_account_handling_dust cfg who f s =
     attempt (try_mutate_account cfg who f s) (\<lambda>(r, maybe_dust) s. (Inr r, handle_maybe_dust cfg maybe_dust s))"

section \<open>Currency\<close>

definition can_slash :: "'a ledger \<Rightarrow> 'a \<Rightarrow> nat \<Rightarrow> bool" where
  "can_slash s who value = (if value = 0 then True else free (account s who) \<ge> value)"

definition currency_burn :: "nat \<Rightarrow> 'a ledger \<Rightarrow> nat \<times> 'a ledger" where
  "currency_burn amount s =
     (if amount = 0 then (0, s)
      else
        (case checked_sub (TotalIssuance s) amount of
           Some issued \<Rightarrow> (amount, s\<lparr>TotalIssuance := issued\<rparr>)
         | None \<Rightarrow> (TotalIssuance s, s\<lparr>TotalIssuance := 0\<rparr>)))"

definition currency_issue :: "config \<Rightarrow> nat \<Rightarrow> 'a ledger \<Rightarrow> nat \<times> 'a ledger" where
  "currency_issue cfg amount s =
     (if amount = 0 then (0, s)
      else
        (case checked_add (max_value cfg) (TotalIssuance s) amount of
           Some issued \<Rightarrow> (amount, s\<lparr>TotalIssuance := issued\<rparr>)
         | None \<Rightarrow> (max_value cfg - TotalIssuance s, s\<lparr>TotalIssuance := max_value cfg\<rparr>)))"

definition ensure_can_withdraw ::
  "'a \<Rightarrow> nat \<Rightarrow> u8 \<Rightarrow> nat \<Rightarrow> 'a ledger \<Rightarrow> (dispatch_error, unit) result" where
  "ensure_can_withdraw who amount reasons new_balance s =
     (if amount = 0 then Inr ()
      else if new_balance \<ge> frozen (account s who) then Inr () else Inl (Module LiquidityRestrictions))"

datatype ExistenceRequirement = KeepAlive | AllowDeath

definition currency_transfer ::
  "config \<Rightarrow> 'a \<Rightarrow> 'a \<Rightarrow> nat \<Rightarrow> ExistenceRequirement \<Rightarrow> 'a ledger \<Rightarrow> (dispatch_error, unit) result \<times> 'a ledger" where
  "currency_transfer cfg transactor dest value existence_requirement s =
     (if value = 0 \<or> transactor = dest then (Inr (), s)
      else
        (let keep_alive = (case existence_requirement of KeepAlive \<Rightarrow> Preserve | AllowDeath \<Rightarrow> Expendable)
         in attempt (fungible_transfer (balances cfg) transactor dest value keep_alive s) (\<lambda>_ s. (Inr (), s))))"

definition currency_slash :: "config \<Rightarrow> 'a \<Rightarrow> nat \<Rightarrow> 'a ledger \<Rightarrow> (nat \<times> nat) \<times> 'a ledger" where
  "currency_slash cfg who value s =
     (if value = 0 then ((0, 0), s)
      else if total_balance cfg s who = 0 then ((0, value), s)
      else
        (case try_mutate_account_handling_dust cfg who
                (\<lambda>account _ s.
                   let actual = (if can_dec_provider s who then min value (free account)
                                 else min value (sat_sub (free account) (ExistentialDeposit cfg)))
                   in (Inr (actual, sat_sub value actual), account\<lparr>free := sat_sub (free account) actual\<rparr>, s)) s of
           (Inr (imbalance, remaining), s) \<Rightarrow>
             ((imbalance, remaining), deposit_event (Slashed who (sat_sub value remaining)) s)
         | (Inl _, s) \<Rightarrow> ((0, value), s)))"

definition deposit_into_existing ::
  "config \<Rightarrow> 'a \<Rightarrow> nat \<Rightarrow> 'a ledger \<Rightarrow> (dispatch_error, nat) result \<times> 'a ledger" where
  "deposit_into_existing cfg who value s =
     (if value = 0 then (Inr 0, s)
      else try_mutate_account_handling_dust cfg who
             (\<lambda>account is_new s.
                if is_new then (Inl (Module DeadAccount), account, s)
                else (case checked_add (max_value cfg) (free account) value of
                        None \<Rightarrow> (Inl (Arithmetic Overflow), account, s)
                      | Some x \<Rightarrow> (Inr value, account\<lparr>free := x\<rparr>, deposit_event (Deposit who value) s))) s)"

definition deposit_creating :: "config \<Rightarrow> 'a \<Rightarrow> nat \<Rightarrow> 'a ledger \<Rightarrow> nat \<times> 'a ledger" where
  "deposit_creating cfg who value s =
     (if value = 0 then (0, s)
      else
        (case try_mutate_account_handling_dust cfg who
                (\<lambda>account is_new s.
                   if \<not> (value \<ge> ExistentialDeposit cfg \<or> \<not> is_new)
                   then (Inl (Module ExistentialDeposit_error), account, s)
                   else (case checked_add (max_value cfg) (free account) value of
                           None \<Rightarrow> (Inr 0, account, s)
                         | Some x \<Rightarrow> (Inr value, account\<lparr>free := x\<rparr>, deposit_event (Deposit who value) s))) s of
           (Inr imbalance, s) \<Rightarrow> (imbalance, s)
         | (Inl _, s) \<Rightarrow> (0, s)))"

definition currency_withdraw ::
  "config \<Rightarrow> 'a \<Rightarrow> nat \<Rightarrow> u8 \<Rightarrow> ExistenceRequirement \<Rightarrow> 'a ledger \<Rightarrow> (dispatch_error, nat) result \<times> 'a ledger" where
  "currency_withdraw cfg who value reasons liveness s =
     (if value = 0 then (Inr 0, s)
      else try_mutate_account_handling_dust cfg who
             (\<lambda>account _ s.
                case checked_sub (free account) value of
                  None \<Rightarrow> (Inl (Module InsufficientBalance), account, s)
                | Some new_free_account \<Rightarrow>
                    (let would_be_dead = (new_free_account < ExistentialDeposit cfg);
                         would_kill = (would_be_dead \<and> free account \<ge> ExistentialDeposit cfg)
                     in if \<not> (liveness = AllowDeath \<or> \<not> would_kill) then (Inl (Module Expendability), account, s)
                        else (case ensure_can_withdraw who value reasons new_free_account s of
                                Inl e \<Rightarrow> (Inl e, account, s)
                              | Inr _ \<Rightarrow> (Inr value, account\<lparr>free := new_free_account\<rparr>,
                                         deposit_event (Withdraw who value) s)))) s)"

definition make_free_balance_be :: "config \<Rightarrow> 'a \<Rightarrow> nat \<Rightarrow> 'a ledger \<Rightarrow> SignedImbalance \<times> 'a ledger" where
  "make_free_balance_be cfg who value s =
     (case try_mutate_account_handling_dust cfg who
             (\<lambda>account is_new s.
                if \<not> (value \<ge> ExistentialDeposit cfg \<or> \<not> is_new)
                then (Inl (Module ExistentialDeposit_error), account, s)
                else (Inr (if free account \<le> value then Positive (value - free account)
                           else Negative (free account - value)),
                      account\<lparr>free := value\<rparr>, deposit_event (BalanceSet who value) s)) s of
        (Inr imbalance, s) \<Rightarrow> (imbalance, s)
      | (Inl _, s) \<Rightarrow> (Positive 0, s))"

section \<open>Reserved balances\<close>

definition can_reserve :: "config \<Rightarrow> 'a ledger \<Rightarrow> 'a \<Rightarrow> nat \<Rightarrow> bool" where
  "can_reserve cfg s who value =
     (if value = 0 then True
      else
        (case checked_sub (free (account s who)) value of
           None \<Rightarrow> False
         | Some new_balance \<Rightarrow>
             new_balance \<ge> ExistentialDeposit cfg \<and> ensure_can_withdraw who value RESERVE new_balance s = Inr ()))"

definition reserve :: "config \<Rightarrow> 'a \<Rightarrow> nat \<Rightarrow> 'a ledger \<Rightarrow> (dispatch_error, unit) result \<times> 'a ledger" where
  "reserve cfg who value s =
     (if value = 0 then (Inr (), s)
      else attempt (try_mutate_account_handling_dust cfg who
             (\<lambda>account _ s.
                case checked_sub (free account) value of
                  None \<Rightarrow> (Inl (Module InsufficientBalance), account, s)
                | Some f \<Rightarrow>
                    (case checked_add (max_value cfg) (reserved account) value of
                       None \<Rightarrow> (Inl (Arithmetic Overflow), account\<lparr>free := f\<rparr>, s)
                     | Some r \<Rightarrow> (ensure_can_withdraw who value RESERVE f s, account\<lparr>free := f, reserved := r\<rparr>, s))) s) (\<lambda>_ s.
             (Inr (), deposit_event (Reserved who value) s)))"

definition unreserve :: "config \<Rightarrow> 'a \<Rightarrow> nat \<Rightarrow> 'a ledger \<Rightarrow> nat \<times> 'a ledger" where
  "unreserve cfg who value s =
     (if value = 0 then (0, s)
      else if total_balance cfg s who = 0 then (value, s)
      else
        (case mutate_account_handling_dust cfg who
                (\<lambda>account.
                   let actual = min (reserved account) value
                   in (actual, account\<lparr>reserved := reserved account - actual,
                                 free := sat_add (max_value cfg) (free account) actual\<rparr>)) s of
           (Inr actual, s) \<Rightarrow> (value - actual, deposit_event (Unreserved who actual) s)
         | (Inl _, s) \<Rightarrow> (value, s)))"

definition slash_reserved :: "config \<Rightarrow> 'a \<Rightarrow> nat \<Rightarrow> 'a ledger \<Rightarrow> (nat \<times> nat) \<times> 'a ledger" where
  "slash_reserved cfg who value s =
     (if value = 0 then ((0, 0), s)
      else if total_balance cfg s who = 0 then ((0, value), s)
      else
        (case mutate_account_handling_dust cfg who
                (\<lambda>account.
                   let actual = min value (reserved account)
                   in ((actual, sat_sub value actual), account\<lparr>reserved := sat_sub (reserved account) actual\<rparr>)) s of
           (Inr (imbalance, not_slashed), s) \<Rightarrow>
             ((imbalance, not_slashed), deposit_event (Slashed who (sat_sub value not_slashed)) s)
         | (Inl _, s) \<Rightarrow> ((0, value), s)))"

text \<open>
  The reserved funds of one account move into another inside the change of the beneficiary: the inner
  change of the slashed account happens between reading and writing the outer one.
\<close>

definition do_transfer_reserved ::
  "config \<Rightarrow> 'a \<Rightarrow> 'a \<Rightarrow> nat \<Rightarrow> Precision \<Rightarrow> Fortitude \<Rightarrow> status
     \<Rightarrow> 'a ledger \<Rightarrow> (dispatch_error, nat) result \<times> 'a ledger" where
  "do_transfer_reserved cfg slashed beneficiary value precision fortitude st s =
     (if value = 0 then (Inr 0, s)
      else
        (let mx = reducible_total_balance_on_hold s slashed fortitude;
             actual = (case precision of BestEffort \<Rightarrow> min value mx | Exact \<Rightarrow> value)
         in attempt (ensure (actual \<le> mx) (Token FundsUnavailable) s) (\<lambda>_ s.
              if slashed = beneficiary then
                (case st of
                   Status_Free \<Rightarrow> (let (rest, s) = unreserve cfg slashed actual s in (Inr (sat_sub actual rest), s))
                 | Status_Reserved \<Rightarrow> (Inr actual, s))
              else
                attempt (try_mutate_account cfg beneficiary
                    (\<lambda>to_account is_new s.
                       if is_new then (Inl (Module DeadAccount), to_account, s)
                       else
                         (let to' = (case st of
                                Status_Free \<Rightarrow> map_option (\<lambda>x. to_account\<lparr>free := x\<rparr>)
                                                 (checked_add (max_value cfg) (free to_account) actual)
                              | Status_Reserved \<Rightarrow> map_option (\<lambda>x. to_account\<lparr>reserved := x\<rparr>)
                                                 (checked_add (max_value cfg) (reserved to_account) actual))
                          in case try_mutate_account cfg slashed
                                    (\<lambda>from_account _ s.
                                       if to' = None then (Inl (Arithmetic Overflow), from_account, s)
                                       else (Inr (), from_account\<lparr>reserved := sat_sub (reserved from_account) actual\<rparr>, s)) s of
                               (Inl e, s) \<Rightarrow> (Inl e, to_account, s)
                             | (Inr (_, maybe_dust_1), s) \<Rightarrow> (Inr maybe_dust_1, the to', s))) s)
                  (\<lambda>(maybe_dust_1, maybe_dust_2) s.
                     (Inr actual,
                      deposit_event (ReserveRepatriated slashed beneficiary actual st)
                        (handle_maybe_dust cfg maybe_dust_2 (handle_maybe_dust cfg maybe_dust_1 s)))))))"

definition repatriate_reserved ::
  "config \<Rightarrow> 'a \<Rightarrow> 'a \<Rightarrow> nat \<Rightarrow> status \<Rightarrow> 'a ledger \<Rightarrow> (dispatch_error, nat) result \<times> 'a ledger" where
  "repatriate_reserved cfg slashed beneficiary value st s =
     attempt (do_transfer_reserved cfg slashed beneficiary value BestEffort Polite st s) (\<lambda>actual s.
       (Inr (sat_sub value actual), s))"

section \<open>Named reserves\<close>

text \<open>
  Named reserves are kept sorted by their identifiers. Binary search in a sorted list returns the
  position of the identifier or else the position to insert it at.
\<close>

fun search_key :: "nat \<Rightarrow> ReserveData list \<Rightarrow> (nat, nat) result" where
  "search_key i [] = Inl 0"
| "search_key i (x # xs) =
     (if rs_id x = i then Inr 0
      else if rs_id x > i then Inl 0
      else (case search_key i xs of Inr n \<Rightarrow> Inr (Suc n) | Inl n \<Rightarrow> Inl (Suc n)))"

definition insert_at :: "nat \<Rightarrow> 'b \<Rightarrow> 'b list \<Rightarrow> 'b list" where
  "insert_at i x xs = take i xs @ x # drop i xs"

definition remove_at :: "nat \<Rightarrow> 'b list \<Rightarrow> 'b list" where
  "remove_at i xs = take i xs @ drop (i + 1) xs"

definition reserved_balance_named :: "'a ledger \<Rightarrow> nat \<Rightarrow> 'a \<Rightarrow> nat" where
  "reserved_balance_named s i who =
     (let reserves = get_list (Reserves s) who in
      case search_key i reserves of Inr index \<Rightarrow> rs_amount (reserves ! index) | Inl _ \<Rightarrow> 0)"

definition reserve_named ::
  "config \<Rightarrow> nat \<Rightarrow> 'a \<Rightarrow> nat \<Rightarrow> 'a ledger \<Rightarrow> (dispatch_error, unit) result \<times> 'a ledger" where
  "reserve_named cfg i who value s =
     (if value = 0 then (Inr (), s)
      else
        (let reserves = get_list (Reserves s) who in
         attempt (case search_key i reserves of
                    Inr index \<Rightarrow>
                      (Inr (reserves[index := (reserves ! index)
                         \<lparr>rs_amount := sat_add (max_value cfg) (rs_amount (reserves ! index)) value\<rparr>]), s)
                  | Inl index \<Rightarrow>
                      if length reserves < MaxReserves cfg
                      then (Inr (insert_at index \<lparr>rs_id = i, rs_amount = value\<rparr> reserves), s)
                      else (Inl (Module TooManyReserves), s)) (\<lambda>reserves s.
           attempt (reserve cfg who value s) (\<lambda>_ s. (Inr (), s\<lparr>Reserves := (Reserves s)(who \<mapsto> reserves)\<rparr>)))))"

definition unreserve_named :: "config \<Rightarrow> nat \<Rightarrow> 'a \<Rightarrow> nat \<Rightarrow> 'a ledger \<Rightarrow> nat \<times> 'a ledger" where
  "unreserve_named cfg i who value s =
     (if value = 0 then (0, s)
      else
        (case Reserves s who of
           None \<Rightarrow> (value, s)
         | Some reserves \<Rightarrow>
             (case search_key i reserves of
                Inl _ \<Rightarrow> (value, s)
              | Inr index \<Rightarrow>
                  (let to_change = min (rs_amount (reserves ! index)) value;
                       (remain, s) = unreserve cfg who to_change s;
                       actual = sat_sub to_change remain;
                       left = rs_amount (reserves ! index) - actual;
                       maybe_reserves =
                         (if left = 0 then (if length reserves = 1 then None else Some (remove_at index reserves))
                          else Some (reserves[index := (reserves ! index)\<lparr>rs_amount := left\<rparr>]))
                   in (value - actual, s\<lparr>Reserves := (Reserves s)(who := maybe_reserves)\<rparr>)))))"

definition slash_reserved_named :: "config \<Rightarrow> nat \<Rightarrow> 'a \<Rightarrow> nat \<Rightarrow> 'a ledger \<Rightarrow> (nat \<times> nat) \<times> 'a ledger" where
  "slash_reserved_named cfg i who value s =
     (if value = 0 then ((0, 0), s)
      else
        (let reserves = get_list (Reserves s) who in
         case search_key i reserves of
           Inl _ \<Rightarrow> ((0, value), s\<lparr>Reserves := (Reserves s)(who \<mapsto> reserves)\<rparr>)
         | Inr index \<Rightarrow>
             (let to_change = min (rs_amount (reserves ! index)) value;
                  ((imb, remain), s) = slash_reserved cfg who to_change s;
                  actual = sat_sub to_change remain;
                  reserves = reserves[index := (reserves ! index)\<lparr>rs_amount := rs_amount (reserves ! index) - actual\<rparr>];
                  s = deposit_event (Slashed who actual) s
              in ((imb, value - actual), s\<lparr>Reserves := (Reserves s)(who \<mapsto> reserves)\<rparr>))))"

text \<open>The funds moved, recorded under the same name in the beneficiary's reserves.\<close>

definition repatriate_into_named ::
  "config \<Rightarrow> nat \<Rightarrow> 'a \<Rightarrow> 'a \<Rightarrow> nat \<Rightarrow> 'a ledger \<Rightarrow> (dispatch_error, nat) result \<times> 'a ledger" where
  "repatriate_into_named cfg i slashed beneficiary to_change s =
     (let reserves = get_list (Reserves s) beneficiary in
      attempt (repatriate_reserved cfg slashed beneficiary to_change Status_Reserved s) (\<lambda>remain s.
        let actual = sat_sub to_change remain in
        case search_key i reserves of
          Inr index \<Rightarrow>
            (Inr actual, s\<lparr>Reserves := (Reserves s)(beneficiary \<mapsto> reserves[index := (reserves ! index)
               \<lparr>rs_amount := sat_add (max_value cfg) (rs_amount (reserves ! index)) actual\<rparr>])\<rparr>)
        | Inl index \<Rightarrow>
            if length reserves < MaxReserves cfg
            then (Inr actual, s\<lparr>Reserves := (Reserves s)(beneficiary \<mapsto> insert_at index \<lparr>rs_id = i, rs_amount = actual\<rparr> reserves)\<rparr>)
            else (Inl (Module TooManyReserves), s)))"

definition repatriate_reserved_named ::
  "config \<Rightarrow> nat \<Rightarrow> 'a \<Rightarrow> 'a \<Rightarrow> nat \<Rightarrow> status \<Rightarrow> 'a ledger \<Rightarrow> (dispatch_error, nat) result \<times> 'a ledger" where
  "repatriate_reserved_named cfg i slashed beneficiary value st s =
     (if value = 0 then (Inr 0, s)
      else if slashed = beneficiary then
        (case st of
           Status_Free \<Rightarrow> (let (rest, s) = unreserve_named cfg i slashed value s in (Inr rest, s))
         | Status_Reserved \<Rightarrow> (Inr (sat_sub value (reserved_balance_named s i slashed)), s))
      else
        (let reserves = get_list (Reserves s) slashed in
         case search_key i reserves of
           Inl _ \<Rightarrow> (Inr value, s\<lparr>Reserves := (Reserves s)(slashed \<mapsto> reserves)\<rparr>)
         | Inr index \<Rightarrow>
             (let to_change = min (rs_amount (reserves ! index)) value in
              attempt (if st = Status_Reserved then repatriate_into_named cfg i slashed beneficiary to_change s
                       else attempt (repatriate_reserved cfg slashed beneficiary to_change st s) (\<lambda>remain s.
                              (Inr (sat_sub to_change remain), s))) (\<lambda>actual s.
                (Inr (value - actual),
                 s\<lparr>Reserves := (Reserves s)(slashed \<mapsto> reserves[index := (reserves ! index)
                    \<lparr>rs_amount := rs_amount (reserves ! index) - actual\<rparr>])\<rparr>)))))"

section \<open>Locks and freezes\<close>

text \<open>The frozen amount is the greatest of all locks and freezes.\<close>

definition frozen_of :: "BalanceLock list \<Rightarrow> IdAmount list \<Rightarrow> nat" where
  "frozen_of locks freezes = fold max (map ia_amount freezes) (fold max (map lock_amount locks) 0)"

text \<open>
  The closure that sets the frozen amount runs even when the change then fails, so the amounts before
  and after are known, and reported, in either case.
\<close>

definition update_locks :: "config \<Rightarrow> 'a \<Rightarrow> BalanceLock list \<Rightarrow> 'a ledger \<Rightarrow> 'a ledger" where
  "update_locks cfg who locks s =
     (let after_frozen = frozen_of locks (get_list (Freezes s) who);
          prev_frozen = frozen (account s who);
          s = snd (mutate_account cfg who (\<lambda>b. ((), b\<lparr>frozen := after_frozen\<rparr>)) s);
          existed = (Locks s who \<noteq> None);
          s = (if locks = [] then
                 (let s = s\<lparr>Locks := (Locks s)(who := None)\<rparr> in if existed then dec_consumers who s else s)
               else
                 (let s = s\<lparr>Locks := (Locks s)(who \<mapsto> locks)\<rparr>
                  in if \<not> existed then snd (inc_consumers_without_limit who s) else s))
      in if prev_frozen > after_frozen then deposit_event (Unlocked who (sat_sub prev_frozen after_frozen)) s
         else if after_frozen > prev_frozen then deposit_event (Locked who (sat_sub after_frozen prev_frozen)) s
         else s)"

definition update_freezes ::
  "config \<Rightarrow> 'a \<Rightarrow> IdAmount list \<Rightarrow> 'a ledger \<Rightarrow> (dispatch_error, unit) result \<times> 'a ledger" where
  "update_freezes cfg who freezes s =
     attempt (mutate_account cfg who
         (\<lambda>b. let after_frozen = frozen_of (get_list (Locks s) who) freezes
              in ((frozen b, after_frozen), b\<lparr>frozen := after_frozen\<rparr>)) s)
       (\<lambda>((prev_frozen, after_frozen), _) s.
          let s = s\<lparr>Freezes := (Freezes s)(who := (if freezes = [] then None else Some freezes))\<rparr>
          in (Inr (),
              if prev_frozen > after_frozen then deposit_event (Thawed who (sat_sub prev_frozen after_frozen)) s
              else if after_frozen > prev_frozen then deposit_event (Frozen_event who (sat_sub after_frozen prev_frozen)) s
              else s))"

definition remove_lock :: "config \<Rightarrow> nat \<Rightarrow> 'a \<Rightarrow> 'a ledger \<Rightarrow> 'a ledger" where
  "remove_lock cfg i who s =
     update_locks cfg who (filter (\<lambda>l. lock_id l \<noteq> i) (get_list (Locks s) who)) s"

text \<open>The first lock with the identifier is replaced, later ones are dropped; what is left of the new lock is returned.\<close>

fun replace_lock :: "(BalanceLock \<Rightarrow> BalanceLock \<Rightarrow> BalanceLock) \<Rightarrow> nat \<Rightarrow> BalanceLock option \<Rightarrow> BalanceLock list
    \<Rightarrow> BalanceLock list \<times> BalanceLock option" where
  "replace_lock merge i new_lock [] = ([], new_lock)"
| "replace_lock merge i new_lock (l # ls) =
     (if lock_id l = i then
        (case new_lock of
           Some nl \<Rightarrow> (let (rest, left) = replace_lock merge i None ls in (merge l nl # rest, left))
         | None \<Rightarrow> replace_lock merge i None ls)
      else (let (rest, left) = replace_lock merge i new_lock ls in (l # rest, left)))"

definition push_left :: "BalanceLock list \<times> BalanceLock option \<Rightarrow> BalanceLock list" where
  "push_left r = fst r @ (case snd r of Some lock \<Rightarrow> [lock] | None \<Rightarrow> [])"

definition set_lock :: "config \<Rightarrow> nat \<Rightarrow> 'a \<Rightarrow> nat \<Rightarrow> u8 \<Rightarrow> 'a ledger \<Rightarrow> 'a ledger" where
  "set_lock cfg i who amount reasons s =
     (if reasons = 0 \<or> amount = 0 then remove_lock cfg i who s
      else
        (let new_lock = \<lparr>lock_id = i, lock_amount = amount, lock_reasons = reasons_from reasons\<rparr>;
             locks = push_left (replace_lock (\<lambda>l nl. nl) i (Some new_lock) (get_list (Locks s) who))
         in update_locks cfg who locks s))"

definition extend_lock :: "config \<Rightarrow> nat \<Rightarrow> 'a \<Rightarrow> nat \<Rightarrow> u8 \<Rightarrow> 'a ledger \<Rightarrow> 'a ledger" where
  "extend_lock cfg i who amount reasons s =
     (if amount = 0 \<or> reasons = 0 then s
      else
        (let new_lock = \<lparr>lock_id = i, lock_amount = amount, lock_reasons = reasons_from reasons\<rparr>;
             locks = push_left (replace_lock
               (\<lambda>l nl. \<lparr>lock_id = lock_id l, lock_amount = max (lock_amount l) (lock_amount nl),
                         lock_reasons = reasons_bitor (lock_reasons l) (lock_reasons nl)\<rparr>)
               i (Some new_lock) (get_list (Locks s) who))
         in update_locks cfg who locks s))"

definition balance_frozen :: "'a ledger \<Rightarrow> nat \<Rightarrow> 'a \<Rightarrow> nat" where
  "balance_frozen s i who = (case amount_of i (get_list (Freezes s) who) of Some n \<Rightarrow> n | None \<Rightarrow> 0)"

definition can_freeze :: "config \<Rightarrow> 'a ledger \<Rightarrow> nat \<Rightarrow> 'a \<Rightarrow> bool" where
  "can_freeze cfg s i who =
     (let l = get_list (Freezes s) who in length l < MaxFreezes cfg \<or> list_ex (\<lambda>x. ia_id x = i) l)"

definition thaw :: "config \<Rightarrow> nat \<Rightarrow> 'a \<Rightarrow> 'a ledger \<Rightarrow> (dispatch_error, unit) result \<times> 'a ledger" where
  "thaw cfg i who s = update_freezes cfg who (filter (\<lambda>l. ia_id l \<noteq> i) (get_list (Freezes s) who)) s"

text \<open>The freezes with the item changed or pushed, or the error that there are too many.\<close>

definition put_freeze ::
  "config \<Rightarrow> nat \<Rightarrow> nat \<Rightarrow> (nat \<Rightarrow> nat) \<Rightarrow> IdAmount list \<Rightarrow> (dispatch_error, IdAmount list) result" where
  "put_freeze cfg i amount change freezes =
     (case amount_of i freezes of
        Some old \<Rightarrow> Inr (set_amount i (change old) freezes)
      | None \<Rightarrow> if length freezes < MaxFreezes cfg then Inr (freezes @ [\<lparr>ia_id = i, ia_amount = amount\<rparr>])
                else Inl (Module TooManyFreezes))"

definition set_freeze :: "config \<Rightarrow> nat \<Rightarrow> 'a \<Rightarrow> nat \<Rightarrow> 'a ledger \<Rightarrow> (dispatch_error, unit) result \<times> 'a ledger" where
  "set_freeze cfg i who amount s =
     (if amount = 0 then thaw cfg i who s
      else attempt (put_freeze cfg i amount (\<lambda>_. amount) (get_list (Freezes s) who), s) (\<lambda>locks s.
             update_freezes cfg who locks s))"

definition extend_freeze :: "config \<Rightarrow> nat \<Rightarrow> 'a \<Rightarrow> nat \<Rightarrow> 'a ledger \<Rightarrow> (dispatch_error, unit) result \<times> 'a ledger" where
  "extend_freeze cfg i who amount s =
     (if amount = 0 then (Inr (), s)
      else attempt (put_freeze cfg i amount (\<lambda>old. max old amount) (get_list (Freezes s) who), s) (\<lambda>locks s.
             update_freezes cfg who locks s))"

end
