(* ===== verification/Balances_Calls.thy ===== *)
theory Balances_Calls
  imports Balances_Currency
begin

text \<open>
  The genesis state and the dispatchable calls of \<^verbatim>\<open>frame/balances/src/lib.rs\<close>. A call runs in a storage
  layer: an error leaves the state as it was. How a lookup source names an account is the parameter
  \<open>lookup\<close>. \<open>None\<close> is a panic of the genesis build.
\<close>

section \<open>Genesis\<close>

fun endow_all :: "('a \<times> nat) list \<Rightarrow> 'a ledger \<Rightarrow> 'a ledger" where
  "endow_all [] s = s"
| "endow_all ((who, amount) # rest) s =
     endow_all rest (snd (stored_try_mutate_exists who
        (\<lambda>_ s. (Inr () :: (dispatch_error, unit) result, Some (default_data\<lparr>free := amount\<rparr>), s))
        (snd (inc_providers who s))))"

text \<open>The sum of the endowments is computed in the balance type.\<close>

definition genesis_build :: "config \<Rightarrow> ('a \<times> nat) list \<Rightarrow> 'a ledger \<Rightarrow> 'a ledger option" where
  "genesis_build cfg bals s =
     (let total = fold (\<lambda>(_, n) acc. (acc + n) mod (max_value cfg + 1)) bals 0;
          s = s\<lparr>TotalIssuance := total\<rparr>
      in if \<not> list_all (\<lambda>(_, balance). balance \<ge> ExistentialDeposit cfg) bals then None
         else if \<not> distinct (map fst bals) then None
         else Some (endow_all bals s))"

definition empty_ledger :: "'a ledger" where
  "empty_ledger = \<lparr>accounts = Map.empty, block_number_now = 0, events = [], TotalIssuance = 0, InactiveIssuance = 0,
     Locks = Map.empty, Reserves = Map.empty, Holds = Map.empty, Freezes = Map.empty\<rparr>"

section \<open>Calls\<close>

definition transfer_allow_death ::
  "config \<Rightarrow> ('l \<Rightarrow> (dispatch_error, 'a) result) \<Rightarrow> 'a origin \<Rightarrow> 'l \<Rightarrow> nat \<Rightarrow> 'a ledger \<Rightarrow> (dispatch_error, unit) result \<times> 'a ledger" where
  "transfer_allow_death cfg lookup org dest value s =
     attempt (ensure_signed org, s) (\<lambda>source s. attempt (lookup dest, s) (\<lambda>dest s.
       attempt (fungible_transfer (balances cfg) source dest value Expendable s) (\<lambda>_ s. (Inr (), s))))"

text \<open>Settles the issuance after a balance was forced from its old to its new value.\<close>

definition adjust_issuance :: "config \<Rightarrow> nat \<Rightarrow> nat \<Rightarrow> 'a ledger \<Rightarrow> 'a ledger" where
  "adjust_issuance cfg new_free old_free s =
     (if new_free > old_free then drop_positive cfg (new_free - old_free) s
      else if new_free < old_free then drop_negative (old_free - new_free) s else s)"

definition set_balance_deprecated ::
  "config \<Rightarrow> ('l \<Rightarrow> (dispatch_error, 'a) result) \<Rightarrow> 'a origin \<Rightarrow> 'l \<Rightarrow> nat \<Rightarrow> nat \<Rightarrow> 'a ledger \<Rightarrow> (dispatch_error, unit) result \<times> 'a ledger" where
  "set_balance_deprecated cfg lookup org who new_free old_reserved s =
     attempt (ensure_root org, s) (\<lambda>_ s. attempt (lookup who, s) (\<lambda>who s.
       let new_free = (if new_free < ExistentialDeposit cfg then 0 else new_free) in
       attempt (try_mutate_account_handling_dust cfg who
           (\<lambda>account _ s. if reserved account = old_reserved then (Inr (free account), account\<lparr>free := new_free\<rparr>, s)
                          else (Inl (Token Unsupported), account, s)) s) (\<lambda>old_free s.
         (Inr (), deposit_event (BalanceSet who new_free) (adjust_issuance cfg new_free old_free s)))))"

definition force_transfer ::
  "config \<Rightarrow> ('l \<Rightarrow> (dispatch_error, 'a) result) \<Rightarrow> 'a origin \<Rightarrow> 'l \<Rightarrow> 'l \<Rightarrow> nat \<Rightarrow> 'a ledger \<Rightarrow> (dispatch_error, unit) result \<times> 'a ledger" where
  "force_transfer cfg lookup org source dest value s =
     attempt (ensure_root org, s) (\<lambda>_ s. attempt (lookup source, s) (\<lambda>source s. attempt (lookup dest, s) (\<lambda>dest s.
       attempt (fungible_transfer (balances cfg) source dest value Expendable s) (\<lambda>_ s. (Inr (), s)))))"

definition transfer_keep_alive ::
  "config \<Rightarrow> ('l \<Rightarrow> (dispatch_error, 'a) result) \<Rightarrow> 'a origin \<Rightarrow> 'l \<Rightarrow> nat \<Rightarrow> 'a ledger \<Rightarrow> (dispatch_error, unit) result \<times> 'a ledger" where
  "transfer_keep_alive cfg lookup org dest value s =
     attempt (ensure_signed org, s) (\<lambda>source s. attempt (lookup dest, s) (\<lambda>dest s.
       attempt (fungible_transfer (balances cfg) source dest value Preserve s) (\<lambda>_ s. (Inr (), s))))"

definition transfer_all ::
  "config \<Rightarrow> ('l \<Rightarrow> (dispatch_error, 'a) result) \<Rightarrow> 'a origin \<Rightarrow> 'l \<Rightarrow> bool \<Rightarrow> 'a ledger \<Rightarrow> (dispatch_error, unit) result \<times> 'a ledger" where
  "transfer_all cfg lookup org dest keep_alive s =
     attempt (ensure_signed org, s) (\<lambda>transactor s.
       let keep_alive = (if keep_alive then Preserve else Expendable);
           reducible = reducible_balance cfg s transactor keep_alive Polite
       in attempt (lookup dest, s) (\<lambda>dest s.
            attempt (fungible_transfer (balances cfg) transactor dest reducible keep_alive s) (\<lambda>_ s. (Inr (), s))))"

definition force_unreserve ::
  "config \<Rightarrow> ('l \<Rightarrow> (dispatch_error, 'a) result) \<Rightarrow> 'a origin \<Rightarrow> 'l \<Rightarrow> nat \<Rightarrow> 'a ledger \<Rightarrow> (dispatch_error, unit) result \<times> 'a ledger" where
  "force_unreserve cfg lookup org who amount s =
     attempt (ensure_root org, s) (\<lambda>_ s. attempt (lookup who, s) (\<lambda>who s.
       (Inr (), snd (unreserve cfg who amount s))))"

datatype Pays = Pays_Yes | Pays_No

fun upgrade_each :: "config \<Rightarrow> 'a list \<Rightarrow> nat \<Rightarrow> 'a ledger \<Rightarrow> nat \<times> 'a ledger" where
  "upgrade_each cfg [] n s = (n, s)"
| "upgrade_each cfg (who # rest) n s =
     (let (upgraded, s) = ensure_upgraded cfg who s in upgrade_each cfg rest (if upgraded then sat32 (n + 1) else n) s)"

text \<open>The proportion is in parts per billion, rounded down; a quotient by zero is one.\<close>

definition perbill_from_rational :: "nat \<Rightarrow> nat \<Rightarrow> nat" where
  "perbill_from_rational p q = (if q = 0 then 1000000000 else min 1000000000 (p * 1000000000 div q))"

definition upgrade_accounts ::
  "config \<Rightarrow> 'a origin \<Rightarrow> 'a list \<Rightarrow> 'a ledger \<Rightarrow> (dispatch_error, Pays) result \<times> 'a ledger" where
  "upgrade_accounts cfg org who s =
     attempt (ensure_signed org, s) (\<lambda>_ s.
       if who = [] then (Inr Pays_Yes, s)
       else
         (let (upgrade_count, s) = upgrade_each cfg who 0 s;
              proportion_upgraded = perbill_from_rational upgrade_count (length who mod 2 ^ 32)
          in (Inr (if proportion_upgraded \<ge> 900000000 then Pays_No else Pays_Yes), s)))"

definition force_set_balance ::
  "config \<Rightarrow> ('l \<Rightarrow> (dispatch_error, 'a) result) \<Rightarrow> 'a origin \<Rightarrow> 'l \<Rightarrow> nat \<Rightarrow> 'a ledger \<Rightarrow> (dispatch_error, unit) result \<times> 'a ledger" where
  "force_set_balance cfg lookup org who new_free s =
     attempt (ensure_root org, s) (\<lambda>_ s. attempt (lookup who, s) (\<lambda>who s.
       let new_free = (if new_free < ExistentialDeposit cfg then 0 else new_free) in
       attempt (mutate_account_handling_dust cfg who (\<lambda>account. (free account, account\<lparr>free := new_free\<rparr>)) s) (\<lambda>old_free s.
         (Inr (), deposit_event (BalanceSet who new_free) (adjust_issuance cfg new_free old_free s)))))"

text \<open>The calls, dispatched in a storage layer. The deprecated \<^verbatim>\<open>transfer\<close> is \<^verbatim>\<open>transfer_allow_death\<close> under another name.\<close>

datatype ('a, 'l) call =
  Call_transfer_allow_death 'l nat
| Call_set_balance_deprecated 'l nat nat
| Call_force_transfer 'l 'l nat
| Call_transfer_keep_alive 'l nat
| Call_transfer_all 'l bool
| Call_force_unreserve 'l nat
| Call_upgrade_accounts "'a list"
| Call_transfer 'l nat
| Call_force_set_balance 'l nat

definition run_call ::
  "config \<Rightarrow> ('l \<Rightarrow> (dispatch_error, 'a) result) \<Rightarrow> 'a origin \<Rightarrow> ('a, 'l) call \<Rightarrow> 'a ledger \<Rightarrow> (dispatch_error, Pays) result \<times> 'a ledger" where
  "run_call cfg lookup org c s =
     (let pays = (\<lambda>r. attempt r (\<lambda>_ s. (Inr Pays_Yes, s))) in
      case c of
        Call_transfer_allow_death dest value \<Rightarrow> pays (transfer_allow_death cfg lookup org dest value s)
      | Call_set_balance_deprecated who new_free old_reserved \<Rightarrow> pays (set_balance_deprecated cfg lookup org who new_free old_reserved s)
      | Call_force_transfer source dest value \<Rightarrow> pays (force_transfer cfg lookup org source dest value s)
      | Call_transfer_keep_alive dest value \<Rightarrow> pays (transfer_keep_alive cfg lookup org dest value s)
      | Call_transfer_all dest keep_alive \<Rightarrow> pays (transfer_all cfg lookup org dest keep_alive s)
      | Call_force_unreserve who amount \<Rightarrow> pays (force_unreserve cfg lookup org who amount s)
      | Call_upgrade_accounts who \<Rightarrow> upgrade_accounts cfg org who s
      | Call_transfer dest value \<Rightarrow> pays (transfer_allow_death cfg lookup org dest value s)
      | Call_force_set_balance who new_free \<Rightarrow> pays (force_set_balance cfg lookup org who new_free s))"

definition dispatch ::
  "config \<Rightarrow> ('l \<Rightarrow> (dispatch_error, 'a) result) \<Rightarrow> 'a origin \<Rightarrow> ('a, 'l) call \<Rightarrow> 'a ledger \<Rightarrow> (dispatch_error, Pays) result \<times> 'a ledger" where
  "dispatch cfg lookup org c s = with_storage_layer (run_call cfg lookup org c) s"

end
