(* ===== verification/Balances_Account.thy ===== *)
theory Balances_Account
  imports Balances_Calls
begin

text \<open>
  What a change of one account does: the invariant of an account's data and reference counters
  (\<open>acct_ok\<close>), the effect of settling the counters, and the effect of \<^verbatim>\<open>try_mutate_account\<close> on a ledger in
  order. Everything the pallet does to balances goes through these lemmas.
\<close>

named_theorems ledger_simps \<open>how the state changes of the ledger show in its fields\<close>

section \<open>Fields\<close>

lemma get_account_simps [ledger_simps]:
  "get_account (put_account who a s) = (get_account s)(who := a)"
  "get_account (remove_account who s) = (get_account s)(who := default_info)"
  "get_account (deposit_event e s) = get_account s"
  by (auto simp: get_account_def put_account_def remove_account_def deposit_event_def)

lemma finite_simps [ledger_simps]:
  "finite (dom (accounts (put_account who a s))) \<longleftrightarrow> finite (dom (accounts s))"
  "finite (dom (accounts (remove_account who s))) \<longleftrightarrow> finite (dom (accounts s))"
  "finite (dom (accounts (deposit_event e s))) \<longleftrightarrow> finite (dom (accounts s))"
  by (auto simp: put_account_def remove_account_def deposit_event_def)

text \<open>All but accounts and events.\<close>

definition same_rest :: "'a ledger \<Rightarrow> 'a ledger \<Rightarrow> bool" where
  "same_rest s s' \<longleftrightarrow> TotalIssuance s' = TotalIssuance s \<and> InactiveIssuance s' = InactiveIssuance s \<and>
     Locks s' = Locks s \<and> Reserves s' = Reserves s \<and> Holds s' = Holds s \<and> Freezes s' = Freezes s \<and>
     block_number_now s' = block_number_now s"

lemma same_rest_simps [ledger_simps]:
  "same_rest s (put_account who a s') \<longleftrightarrow> same_rest s s'"
  "same_rest s (remove_account who s') \<longleftrightarrow> same_rest s s'"
  "same_rest s (deposit_event e s') \<longleftrightarrow> same_rest s s'"
  by (simp_all add: same_rest_def put_account_def remove_account_def deposit_event_def)

lemma same_rest_refl [simp]: "same_rest s s"
  by (simp add: same_rest_def)

lemma same_rest_trans: "same_rest s s' \<Longrightarrow> same_rest s' s'' \<Longrightarrow> same_rest s s''"
  by (simp add: same_rest_def)

section \<open>The invariant of an account\<close>

definition consumes :: "AccountData \<Rightarrow> bool" where
  "consumes a \<longleftrightarrow> reserved a \<noteq> 0 \<or> frozen a \<noteq> 0"

text \<open>The counters carry at least the references that balances and locks stand for; consumers need a provider.\<close>

definition counters_ok :: "bool \<Rightarrow> bool \<Rightarrow> bool \<Rightarrow> AccountInfo \<Rightarrow> bool" where
  "counters_ok P C locked i \<longleftrightarrow>
     (P \<longrightarrow> 0 < providers i) \<and> of_bool C + of_bool locked \<le> consumers i \<and> (0 < consumers i \<longrightarrow> 0 < providers i)"

definition data_ok :: "config \<Rightarrow> AccountData \<Rightarrow> bool" where
  "data_ok cfg a \<longleftrightarrow> is_new_logic (flags a) \<and> free a \<le> max_value cfg \<and> reserved a \<le> max_value cfg"

definition acct_ok :: "config \<Rightarrow> bool \<Rightarrow> AccountInfo \<Rightarrow> bool" where
  "acct_ok cfg locked i \<longleftrightarrow>
     data_ok cfg (data i) \<and>
     counters_ok (ExistentialDeposit cfg \<le> free (data i)) (consumes (data i)) locked i \<and>
     (free (data i) = 0 \<or> ExistentialDeposit cfg \<le> free (data i) \<or> reserved (data i) \<noteq> 0)"

definition ledger_ok :: "config \<Rightarrow> 'a ledger \<Rightarrow> bool" where
  "ledger_ok cfg s \<longleftrightarrow> 0 < ExistentialDeposit cfg \<and> ExistentialDeposit cfg \<le> max_value cfg \<and>
     finite (dom (accounts s)) \<and> (\<forall>who. acct_ok cfg (Locks s who \<noteq> None) (get_account s who))"

lemma default_simps [simp]:
  "free default_data = 0" "reserved default_data = 0" "frozen default_data = 0" "is_new_logic (flags default_data)"
  "data default_info = default_data" "providers default_info = 0" "consumers default_info = 0" "sufficients default_info = 0"
  "\<not> consumes default_data"
  by (simp_all add: default_data_def default_info_def consumes_def)

lemma data_ok_default [simp]: "data_ok cfg default_data"
  by (simp add: data_ok_def)

lemma counters_default: "counters_ok P C locked default_info \<longleftrightarrow> \<not> P \<and> \<not> C \<and> \<not> locked"
  by (auto simp: counters_ok_def)

lemma sat32_le: "sat32 n \<le> n" "n \<le> 2 ^ 32 - 1 \<Longrightarrow> sat32 n = n" "0 < n \<Longrightarrow> 0 < sat32 n"
  by (simp_all add: sat32_def)

lemma sat32_ge: "m \<le> n \<Longrightarrow> m \<le> 2 \<Longrightarrow> m \<le> sat32 n"
  by (simp add: sat32_def)

section \<open>Settling the counters\<close>

lemma inc_providers_get:
  "\<exists>i'. get_account (snd (inc_providers who s)) = (get_account s)(who := i') \<and> data i' = data (get_account s who) \<and>
     consumers i' = consumers (get_account s who) \<and> 0 < providers i' \<and> sufficients i' = sufficients (get_account s who)"
proof -
  let ?i = "get_account s who"
  have "get_account (snd (inc_providers who s)) =
      (get_account s)(who := ?i\<lparr>providers := (if providers ?i = 0 \<and> sufficients ?i = 0 then 1 else sat32 (providers ?i + 1))\<rparr>)"
    by (simp add: inc_providers_def Let_def on_created_account_def get_account_simps)
  then show ?thesis by (intro exI conjI) (assumption, simp_all add: sat32_le)
qed

lemma inc_providers_frame [ledger_simps]:
  "finite (dom (accounts (snd (inc_providers who s)))) \<longleftrightarrow> finite (dom (accounts s))"
  "same_rest s0 (snd (inc_providers who s')) \<longleftrightarrow> same_rest s0 s'"
  by (simp_all add: inc_providers_def Let_def on_created_account_def ledger_simps)

lemma inc_consumers_get:
  assumes "inc_consumers mx who s = (r, s')"
  shows "(case r of
      Inr _ \<Rightarrow> 0 < providers (get_account s who) \<and>
        get_account s' = (get_account s)(who := (get_account s who)\<lparr>consumers := sat32 (consumers (get_account s who) + 1)\<rparr>)
    | Inl e \<Rightarrow> s' = s)"
    "finite (dom (accounts s')) \<longleftrightarrow> finite (dom (accounts s))"
  using assms by (auto simp: inc_consumers_def Let_def ledger_simps split: if_splits)

lemma inc_consumers_rest: "inc_consumers mx who s = (r, s') \<Longrightarrow> same_rest s0 s' \<longleftrightarrow> same_rest s0 s"
  by (auto simp: inc_consumers_def Let_def ledger_simps split: if_splits)

lemma dec_consumers_get [ledger_simps]:
  "get_account (dec_consumers who s) = (get_account s)(who := (get_account s who)\<lparr>consumers := consumers (get_account s who) - 1\<rparr>)"
  "finite (dom (accounts (dec_consumers who s))) \<longleftrightarrow> finite (dom (accounts s))"
  "same_rest s0 (dec_consumers who s') \<longleftrightarrow> same_rest s0 s'"
  by (auto simp: dec_consumers_def Let_def ledger_simps)

lemma dec_providers_get:
  assumes "dec_providers who s = (r, s')" "0 < providers (get_account s who)"
  shows "(case r of
      Inr Reaped \<Rightarrow> consumers (get_account s who) = 0 \<and> get_account s' = (get_account s)(who := default_info)
    | Inr Exists \<Rightarrow> (1 < providers (get_account s who) \<or> consumers (get_account s who) = 0) \<and>
        get_account s' = (get_account s)(who := (get_account s who)\<lparr>providers := providers (get_account s who) - 1\<rparr>)
    | Inl e \<Rightarrow> s' = s \<and> e = ConsumerRemaining \<and> providers (get_account s who) = 1 \<and> 0 < consumers (get_account s who))"
    "finite (dom (accounts s')) \<longleftrightarrow> finite (dom (accounts s))"
proof -
  obtain x where x: "accounts s who = Some x" "get_account s who = x"
    using assms(2) by (cases "accounts s who") (auto simp: get_account_def)
  show "(case r of
      Inr Reaped \<Rightarrow> consumers (get_account s who) = 0 \<and> get_account s' = (get_account s)(who := default_info)
    | Inr Exists \<Rightarrow> (1 < providers (get_account s who) \<or> consumers (get_account s who) = 0) \<and>
        get_account s' = (get_account s)(who := (get_account s who)\<lparr>providers := providers (get_account s who) - 1\<rparr>)
    | Inl e \<Rightarrow> s' = s \<and> e = ConsumerRemaining \<and> providers (get_account s who) = 1 \<and> 0 < consumers (get_account s who))"
    using assms unfolding x(2) by (auto simp: dec_providers_def x(1) Let_def on_killed_account_def ledger_simps split: if_splits)
  show "finite (dom (accounts s')) \<longleftrightarrow> finite (dom (accounts s))"
    using assms(1) by (auto simp: dec_providers_def x(1) Let_def on_killed_account_def ledger_simps split: if_splits)
qed

lemma dec_providers_rest: "dec_providers who s = (r, s') \<Longrightarrow> same_rest s0 s' \<longleftrightarrow> same_rest s0 s"
  by (auto simp: dec_providers_def Let_def on_killed_account_def ledger_simps split: option.splits if_splits)

text \<open>What a settlement leaves at the account: its own data, or nothing when the account was reaped.\<close>

definition settled :: "bool \<Rightarrow> bool \<Rightarrow> bool \<Rightarrow> bool \<Rightarrow> 'a \<Rightarrow> 'a ledger \<Rightarrow> 'a ledger \<Rightarrow> bool" where
  "settled P C locked alive who s s' \<longleftrightarrow>
     (\<exists>i. get_account s' = (get_account s)(who := i) \<and> counters_ok P C locked i \<and>
        (data i = data (get_account s who) \<or> \<not> alive \<and> i = default_info)) \<and>
     (finite (dom (accounts s')) \<longleftrightarrow> finite (dom (accounts s))) \<and> same_rest s s'"

lemma settledI:
  assumes "get_account s' = (get_account s)(who := i)" "counters_ok P C locked i"
    "data i = data (get_account s who) \<or> \<not> alive \<and> i = default_info"
    "finite (dom (accounts s')) \<longleftrightarrow> finite (dom (accounts s))" "same_rest s s'"
  shows "settled P C locked alive who s s'"
  using assms unfolding settled_def by blast

lemma settled_trans:
  assumes "settled P C locked True who s s1" "settled P' C' locked' alive who s1 s2"
  shows "settled P' C' locked' alive who s s2"
proof -
  obtain i where i: "get_account s1 = (get_account s)(who := i)" "data i = data (get_account s who)"
    using assms(1) by (auto simp: settled_def)
  obtain j where j: "get_account s2 = (get_account s1)(who := j)" "counters_ok P' C' locked' j"
    "data j = data (get_account s1 who) \<or> \<not> alive \<and> j = default_info"
    using assms(2) by (auto simp: settled_def)
  show ?thesis
    by (rule settledI [where i = j]) (use i j assms same_rest_trans in \<open>auto simp: settled_def\<close>)
qed

lemma settled_refl: "counters_ok P C locked (get_account s who) \<Longrightarrow> settled P C locked True who s s"
  by (rule settledI [where i = "get_account s who"]) auto

lemma settled_inc_providers:
  assumes "counters_ok P C locked (get_account s who)"
  shows "settled True C locked True who s (snd (inc_providers who s))"
proof -
  from inc_providers_get [of who s] obtain i' where
    i': "get_account (snd (inc_providers who s)) = (get_account s)(who := i')" "data i' = data (get_account s who)"
      "consumers i' = consumers (get_account s who)" "0 < providers i'" by blast
  show ?thesis
    by (rule settledI [OF i'(1)]) (use i' assms in \<open>auto simp: counters_ok_def ledger_simps\<close>)
qed

lemma settled_dec_consumers:
  assumes "counters_ok P True locked (get_account s who)"
  shows "settled P False locked True who s (dec_consumers who s)"
  by (rule settledI [OF dec_consumers_get(1)]) (use assms in \<open>auto simp: counters_ok_def ledger_simps\<close>)

lemma settled_inc_consumers:
  assumes "counters_ok P False locked (get_account s who)" "inc_consumers mx who s = (Inr x, s')"
  shows "settled P True locked True who s s'"
proof -
  note i = inc_consumers_get [OF assms(2), simplified]
  have "of_bool locked + 1 \<le> consumers (get_account s who) + 1" using assms(1) by (simp add: counters_ok_def)
  then have "1 + of_bool locked \<le> sat32 (consumers (get_account s who) + 1)" by (intro sat32_ge) auto
  then show ?thesis
    by (intro settledI [OF conjunct2 [OF i(1)]])
      (use i assms inc_consumers_rest [OF assms(2), of s] in \<open>auto simp: counters_ok_def\<close>)
qed

lemma settled_dec_providers:
  assumes "counters_ok True C locked (get_account s who)" "dec_providers who s = (Inr x, s')"
  shows "settled False C locked False who s s'"
proof -
  have p: "0 < providers (get_account s who)" using assms(1) by (simp add: counters_ok_def)
  note d = dec_providers_get [OF assms(2) p]
  show ?thesis
  proof (cases x)
    case Reaped
    then have g: "get_account s' = (get_account s)(who := default_info)" "consumers (get_account s who) = 0" using d(1) by auto
    show ?thesis
      by (rule settledI [OF g(1)])
        (use g(2) assms d(2) dec_providers_rest [OF assms(2), of s] in \<open>auto simp: counters_ok_def\<close>)
  next
    case Exists
    then have g: "get_account s' = (get_account s)(who := (get_account s who)\<lparr>providers := providers (get_account s who) - 1\<rparr>)"
      "1 < providers (get_account s who) \<or> consumers (get_account s who) = 0" using d(1) by auto
    show ?thesis
      by (rule settledI [OF g(1)])
        (use g(2) assms d(2) dec_providers_rest [OF assms(2), of s] in \<open>auto simp: counters_ok_def\<close>)
  qed
qed

lemma settled_weaken: "settled P C locked True who s s' \<Longrightarrow> settled P C locked alive who s s'"
  unfolding settled_def by blast

text \<open>The first three adjustments, as one step.\<close>

definition first_refs :: "config \<Rightarrow> 'a \<Rightarrow> bool \<Rightarrow> bool \<Rightarrow> bool \<Rightarrow> bool \<Rightarrow> 'a ledger \<Rightarrow> (dispatch_error, unit) result \<times> 'a ledger" where
  "first_refs cfg who P C P' C' s =
     (let s = (if \<not> P \<and> P' then snd (inc_providers who s) else s);
          s = (if C \<and> \<not> C' then dec_consumers who s else s)
      in if \<not> C \<and> C' then inc_consumers (max_consumers cfg) who s else (Inr (), s))"

lemma settle_refs_first:
  "settle_refs cfg who P C P' C' s =
     attempt (first_refs cfg who P C P' C' s) (\<lambda>_ s.
       if P \<and> \<not> P' then
         (case dec_providers who s of
            (Inr _, s) \<Rightarrow> (Inr (), s)
          | (Inl r, s) \<Rightarrow>
              (let s = (if C \<and> \<not> C' then snd (inc_consumers (max_consumers cfg) who s) else s);
                   s = (if \<not> C \<and> C' then dec_consumers who s else s)
               in (Inl r, s)))
       else (Inr (), s))"
  by (simp add: settle_refs_def first_refs_def Let_def)

lemma first_refs_ok:
  assumes "counters_ok P C locked (get_account s who)" "first_refs cfg who P C P' C' s = (r, s')"
  shows "case r of Inr _ \<Rightarrow> settled (P \<or> P') C' locked True who s s' | Inl _ \<Rightarrow> settled (P \<or> P') C locked True who s s'"
proof -
  define s1 where "s1 = (if \<not> P \<and> P' then snd (inc_providers who s) else s)"
  have 1: "settled (P \<or> P') C locked True who s s1"
    using settled_inc_providers [OF assms(1)] settled_refl [OF assms(1)] by (auto simp: s1_def)
  then have c1: "counters_ok (P \<or> P') C locked (get_account s1 who)" by (auto simp: settled_def)
  define s2 where "s2 = (if C \<and> \<not> C' then dec_consumers who s1 else s1)"
  have 2: "settled (P \<or> P') (C \<and> C') locked True who s1 s2"
    using settled_dec_consumers [of "P \<or> P'" locked s1 who] settled_refl [OF c1] c1 by (cases C; cases C') (auto simp: s2_def)
  have fr: "first_refs cfg who P C P' C' s = (if \<not> C \<and> C' then inc_consumers (max_consumers cfg) who s2 else (Inr (), s2))"
    by (simp add: first_refs_def s1_def s2_def Let_def)
  show ?thesis
  proof (cases "\<not> C \<and> C'")
    case True
    then have ic: "inc_consumers (max_consumers cfg) who s2 = (r, s')" "s2 = s1" using assms(2) fr by (auto simp: s2_def)
    show ?thesis
    proof (cases r)
      case (Inl e)
      then show ?thesis using inc_consumers_get(1) [OF ic(1)] 1 ic(2) by simp
    next
      case (Inr u)
      then have "settled (P \<or> P') True locked True who s1 s'"
        using settled_inc_consumers [of "P \<or> P'" locked s1 who] ic c1 True by auto
      then show ?thesis using settled_trans [OF 1] Inr True by simp
    qed
  next
    case False
    then have "r = Inr ()" "s' = s2" "(C \<and> C') = C'" using assms(2) fr by auto
    then show ?thesis using settled_trans [OF 1 2] by simp
  qed
qed

lemma settle_refs_ok:
  assumes "counters_ok P C locked (get_account s who)" "settle_refs cfg who P C P' C' s = (Inr x, s')"
  shows "settled P' C' locked P' who s s'"
proof -
  obtain r1 s1 where 1: "first_refs cfg who P C P' C' s = (r1, s1)" by fastforce
  with assms(2) obtain u where r1: "r1 = Inr u" by (cases r1) (auto simp: settle_refs_first)
  then have f: "settled (P \<or> P') C' locked True who s s1" using first_refs_ok [OF assms(1) 1] by simp
  show ?thesis
  proof (cases "P \<and> \<not> P'")
    case True
    then obtain y where y: "dec_providers who s1 = (Inr y, s')"
      using assms(2) 1 r1 by (auto simp: settle_refs_first Let_def split: prod.splits sum.splits)
    have "counters_ok True C' locked (get_account s1 who)" using f True by (auto simp: settled_def)
    from settled_trans [OF f settled_dec_providers [OF this y]] show ?thesis using True by simp
  next
    case False
    then show ?thesis using f assms(2) 1 r1 settled_weaken by (cases P; cases P') (auto simp: settle_refs_first)
  qed
qed

lemma settled_mono:
  assumes "settled P C locked alive who s s'" "Q \<Longrightarrow> P"
  shows "settled Q C locked alive who s s'"
proof -
  obtain i where i: "get_account s' = (get_account s)(who := i)" "counters_ok P C locked i"
    "data i = data (get_account s who) \<or> \<not> alive \<and> i = default_info"
    "finite (dom (accounts s')) \<longleftrightarrow> finite (dom (accounts s))" "same_rest s s'"
    using assms(1) by (auto simp: settled_def)
  have "counters_ok Q C locked i" using i(2) assms(2) by (auto simp: counters_ok_def)
  then show ?thesis by (rule settledI [OF i(1) _ i(3-5)])
qed

lemma settle_refs_error:
  assumes "counters_ok P C locked (get_account s who)" "settle_refs cfg who P C P' C' s = (Inl e, s')"
    "P \<Longrightarrow> C \<Longrightarrow> P' \<or> C'"
  shows "settled P C locked True who s s'"
proof -
  obtain r1 s1 where 1: "first_refs cfg who P C P' C' s = (r1, s1)" by fastforce
  show ?thesis
  proof (cases r1)
    case (Inl e')
    then have "settled (P \<or> P') C locked True who s s'" using first_refs_ok [OF assms(1) 1] assms(2) 1 by (simp add: settle_refs_first)
    then show ?thesis by (rule settled_mono) simp
  next
    case (Inr u)
    then have f: "settled (P \<or> P') C' locked True who s s1" using first_refs_ok [OF assms(1) 1] by simp
    have PP: "P \<and> \<not> P'" using assms(2) 1 Inr by (auto simp: settle_refs_first split: if_splits)
    then obtain r2 s2 where 2: "dec_providers who s1 = (Inl r2, s2)" "s' = (if \<not> C \<and> C' then dec_consumers who s2 else s2)"
      using assms(2,3) 1 Inr by (auto simp: settle_refs_first Let_def split: prod.splits sum.splits)
    have c1: "counters_ok True C' locked (get_account s1 who)" using f PP by (auto simp: settled_def)
    then have "s2 = s1" using dec_providers_get(1) [OF 2(1)] by (simp add: counters_ok_def)
    show ?thesis
    proof (cases "\<not> C \<and> C'")
      case True
      have "settled True False locked True who s (dec_consumers who s1)"
        using settled_trans [OF f settled_dec_consumers] c1 True by simp
      then show ?thesis using True 2(2) \<open>s2 = s1\<close> PP by simp
    next
      case False
      then have "C' = C" "s' = s1" using PP assms(3) 2(2) \<open>s2 = s1\<close> by auto
      then show ?thesis using f PP by simp
    qed
  qed
qed

section \<open>Changing one account\<close>

definition untouched :: "'a ledger \<Rightarrow> 'a ledger \<Rightarrow> bool" where
  "untouched s s' \<longleftrightarrow> get_account s' = get_account s \<and> (finite (dom (accounts s')) \<longleftrightarrow> finite (dom (accounts s))) \<and> same_rest s s'"

lemma untouched_refl [simp]: "untouched s s"
  by (simp add: untouched_def)

lemma untouched_event [simp]: "untouched s (deposit_event e s)"
  by (simp add: untouched_def ledger_simps)

lemma untouched_ok: "untouched s s' \<Longrightarrow> ledger_ok cfg s' \<longleftrightarrow> ledger_ok cfg s"
  by (simp add: untouched_def ledger_ok_def same_rest_def)

lemma untouched_account: "untouched s s' \<Longrightarrow> account s' = account s"
  by (simp add: untouched_def account_def [abs_def] stored_get_def)

text \<open>What is kept of an account after a change, and what is dust.\<close>

definition kept :: "config \<Rightarrow> AccountData \<Rightarrow> AccountData" where
  "kept cfg a = (if free a < ExistentialDeposit cfg \<and> reserved a = 0 then default_data else a)"

definition dust_of :: "config \<Rightarrow> AccountData \<Rightarrow> nat option" where
  "dust_of cfg a = (if free a < ExistentialDeposit cfg \<and> reserved a = 0 \<and> free a \<noteq> 0 then Some (free a) else None)"

lemma account_data: "account s who = data (get_account s who)"
  by (simp add: account_def stored_get_def)

lemma ensure_upgraded_ok: "ledger_ok cfg s \<Longrightarrow> ensure_upgraded cfg who s = (False, s)"
  by (simp add: ensure_upgraded_def ledger_ok_def acct_ok_def data_ok_def stored_get_def)

lemma mutate_body_account:
  "mutate_body cfg who f (if account s who = default_data then None else Some (account s who)) s =
     (case f (account s who) (account s who = default_data) s of
        (Inl e, _, s1) \<Rightarrow> (Inl e, None, s1)
      | (Inr r, a, s1) \<Rightarrow>
          (case settle_refs cfg who (ExistentialDeposit cfg \<le> free (account s who)) (consumes (account s who))
                  (ExistentialDeposit cfg \<le> free a) (consumes a) s1 of
             (Inl e, s2) \<Rightarrow> (Inl e, None, s2)
           | (Inr _, s2) \<Rightarrow>
               (Inr (if account s who = default_data then Some (free a) else None, dust_of cfg a, r),
                if free a < ExistentialDeposit cfg \<and> reserved a = 0 then None else Some a, s2)))"
proof -
  obtain fr fa s1 where f: "f (account s who) (account s who = default_data) s = (fr, fa, s1)" by (metis prod_cases3)
  show ?thesis
  proof (cases fr)
    case (Inl e)
    then show ?thesis using f by (auto simp: mutate_body_def Let_def)
  next
    case (Inr r)
    let ?P = "ExistentialDeposit cfg \<le> free (account s who)" and ?C = "consumes (account s who)"
    obtain sr s2 where st: "settle_refs cfg who ?P ?C (ExistentialDeposit cfg \<le> free fa) (consumes fa) s1 = (sr, s2)" by fastforce
    have eq: "(account s who \<noteq> default_data \<and> (reserved (account s who) \<noteq> 0 \<or> frozen (account s who) \<noteq> 0)) = ?C"
      "(reserved fa \<noteq> 0 \<or> frozen fa \<noteq> 0) = consumes fa"
      by (auto simp: consumes_def)
    have m: "(case if account s who = default_data then None else Some (account s who) of Some a \<Rightarrow> a | None \<Rightarrow> default_data) = account s who"
      "((if account s who = default_data then None else Some (account s who)) = None) = (account s who = default_data)" by simp_all
    show ?thesis
      unfolding mutate_body_def Let_def m eq f Inr prod.case sum.case st
      by (cases sr) (simp_all add: dust_of_def)
  qed
qed

lemma stored_account:
  "stored_try_mutate_exists who g s =
     (case g (if account s who = default_data then None else Some (account s who)) s of
        (Inl e, _, s1) \<Rightarrow> (Inl e, s1)
      | (Inr r, d, s1) \<Rightarrow>
          (Inr r, if providers_of s1 who > 0 \<or> sufficients_of s1 who > 0
                  then put_account who ((get_account s1 who)\<lparr>data := (case d of Some d \<Rightarrow> d | None \<Rightarrow> default_data)\<rparr>) s1
                  else remove_account who s1))"
  unfolding stored_try_mutate_exists_def Let_def account_data ..

text \<open>Writing the data back after the counters are settled.\<close>

lemma write_back_ok:
  assumes ok: "ledger_ok cfg s" and nl: "data_ok cfg a"
    and st: "settled (ExistentialDeposit cfg \<le> free a) (consumes a) (Locks s who \<noteq> None) (ExistentialDeposit cfg \<le> free a) who s s1"
    and s2: "s2 = (if providers_of s1 who > 0 \<or> sufficients_of s1 who > 0
        then put_account who ((get_account s1 who)\<lparr>data := kept cfg a\<rparr>) s1 else remove_account who s1)"
  shows "account s2 = (account s)(who := kept cfg a)" "ledger_ok cfg s2" "same_rest s s2"
proof -
  obtain i where i: "get_account s1 = (get_account s)(who := i)"
    "counters_ok (ExistentialDeposit cfg \<le> free a) (consumes a) (Locks s who \<noteq> None) i"
    "finite (dom (accounts s1)) \<longleftrightarrow> finite (dom (accounts s))" "same_rest s s1"
    using st by (auto simp: settled_def)
  have pos: "0 < ExistentialDeposit cfg" using ok by (simp add: ledger_ok_def)
  have dead: "kept cfg a = default_data \<and> \<not> consumes a \<and> Locks s who = None" if "providers i = 0"
    using i(2) that by (auto simp: counters_ok_def kept_def consumes_def)
  have g2: "\<exists>j. get_account s2 = (get_account s)(who := j) \<and> data j = kept cfg a \<and>
      counters_ok (ExistentialDeposit cfg \<le> free a) (consumes a) (Locks s who \<noteq> None) j"
  proof (cases "providers i > 0 \<or> sufficients i > 0")
    case True
    then have "get_account s2 = (get_account s)(who := i\<lparr>data := kept cfg a\<rparr>)"
      using s2 i(1) by (simp add: providers_of_def sufficients_of_def ledger_simps)
    moreover have "counters_ok (ExistentialDeposit cfg \<le> free a) (consumes a) (Locks s who \<noteq> None) (i\<lparr>data := kept cfg a\<rparr>)"
      using i(2) by (simp add: counters_ok_def)
    ultimately show ?thesis by (intro exI conjI) (assumption, simp_all)
  next
    case False
    then have "get_account s2 = (get_account s)(who := default_info)"
      using s2 i(1) by (simp add: providers_of_def sufficients_of_def ledger_simps)
    then show ?thesis using dead False i(2) by (intro exI [of _ default_info]) (auto simp: counters_ok_def)
  qed
  then obtain j where j: "get_account s2 = (get_account s)(who := j)" "data j = kept cfg a"
    "counters_ok (ExistentialDeposit cfg \<le> free a) (consumes a) (Locks s who \<noteq> None) j" by blast
  show "account s2 = (account s)(who := kept cfg a)"
    using j(1,2) by (auto simp: account_data fun_eq_iff)
  show rest: "same_rest s s2" using s2 i(4) by (simp add: ledger_simps)
  have "counters_ok (ExistentialDeposit cfg \<le> free (kept cfg a)) (consumes (kept cfg a)) (Locks s who \<noteq> None) j"
    using j(3) pos by (auto simp: counters_ok_def kept_def)
  then have "acct_ok cfg (Locks s who \<noteq> None) j" using j(2) nl by (auto simp: acct_ok_def kept_def)
  moreover have "finite (dom (accounts s2))" using s2 i(3) ok by (simp add: ledger_simps ledger_ok_def)
  moreover have "Locks s2 = Locks s" using rest by (simp add: same_rest_def)
  ultimately show "ledger_ok cfg s2" using ok j(1) by (simp add: ledger_ok_def)
qed

lemma settled_untouched:
  assumes "untouched s s1" "settled P C locked alive who s1 s2"
  shows "settled P C locked alive who s s2"
  using assms same_rest_trans unfolding untouched_def settled_def by auto

lemma try_mutate_account_ok:
  assumes ok: "ledger_ok cfg s" and f: "f (account s who) (account s who = default_data) s = (Inr r, a, s1)"
    and fr: "untouched s s1" and nl: "data_ok cfg a"
    and run: "try_mutate_account cfg who f s = (Inr (r', dust), s')"
  shows "r' = r" "dust = dust_of cfg a" "account s' = (account s)(who := kept cfg a)" "ledger_ok cfg s'" "same_rest s s'"
proof -
  let ?P = "ExistentialDeposit cfg \<le> free (account s who)" and ?C = "consumes (account s who)"
  obtain sr s2 where st: "settle_refs cfg who ?P ?C (ExistentialDeposit cfg \<le> free a) (consumes a) s1 = (sr, s2)" by fastforce
  define s3 where "s3 = (if providers_of s2 who > 0 \<or> sufficients_of s2 who > 0
      then put_account who ((get_account s2 who)\<lparr>data := kept cfg a\<rparr>) s2 else remove_account who s2)"
  have d: "(case if free a < ExistentialDeposit cfg \<and> reserved a = 0 then None else Some a of Some d \<Rightarrow> d | None \<Rightarrow> default_data) = kept cfg a"
    by (simp add: kept_def)
  note run' = run [unfolded try_mutate_account_def ensure_upgraded_ok [OF ok] snd_conv stored_account mutate_body_account f
      prod.case sum.case st]
  obtain u where u: "sr = Inr u" using run' by (cases sr) auto
  have ev: "untouched s3 s'" "r' = r" "dust = dust_of cfg a"
    using run' unfolding u prod.case sum.case d s3_def [symmetric]
    by (auto simp: Let_def untouched_def ledger_simps split: option.splits if_splits)
  have c1: "counters_ok ?P ?C (Locks s who \<noteq> None) (get_account s1 who)"
    using ok fr by (simp add: ledger_ok_def acct_ok_def account_data untouched_def)
  note s = settled_untouched [OF fr settle_refs_ok [OF c1 st [unfolded u]]]
  note w = write_back_ok [OF ok nl s s3_def]
  show "r' = r" "dust = dust_of cfg a" by (rule ev(2,3))+
  show "account s' = (account s)(who := kept cfg a)" using w(1) untouched_account [OF ev(1)] by simp
  show "ledger_ok cfg s'" using w(2) untouched_ok [OF ev(1)] by simp
  show "same_rest s s'" using w(3) ev(1) same_rest_trans by (auto simp: untouched_def)
qed

lemma try_mutate_account_error:
  assumes ok: "ledger_ok cfg s" and f: "f (account s who) (account s who = default_data) s = (Inr r, a, s1)"
    and fr: "untouched s s1"
    and q: "ExistentialDeposit cfg \<le> free (account s who) \<Longrightarrow> consumes (account s who) \<Longrightarrow> ExistentialDeposit cfg \<le> free a \<or> consumes a"
    and run: "try_mutate_account cfg who f s = (Inl e, s')"
  shows "account s' = account s" "ledger_ok cfg s'" "same_rest s s'"
proof -
  let ?P = "ExistentialDeposit cfg \<le> free (account s who)" and ?C = "consumes (account s who)"
  obtain sr s2 where st: "settle_refs cfg who ?P ?C (ExistentialDeposit cfg \<le> free a) (consumes a) s1 = (sr, s2)" by fastforce
  note run' = run [unfolded try_mutate_account_def ensure_upgraded_ok [OF ok] snd_conv stored_account mutate_body_account f
      prod.case sum.case st]
  have u: "sr = Inl e" "s' = s2" using run' by (cases sr; simp add: Let_def)+
  have c1: "counters_ok ?P ?C (Locks s who \<noteq> None) (get_account s1 who)"
    using ok fr by (simp add: ledger_ok_def acct_ok_def account_data untouched_def)
  note s = settled_untouched [OF fr settle_refs_error [OF c1 st [unfolded u(1)] q]]
  then obtain i where i: "get_account s' = (get_account s)(who := i)" "counters_ok ?P ?C (Locks s who \<noteq> None) i"
    "data i = data (get_account s who)" "finite (dom (accounts s')) \<longleftrightarrow> finite (dom (accounts s))" "same_rest s s'"
    unfolding u(2) settled_def by blast
  show "account s' = account s" using i(1,3) by (auto simp: account_data fun_eq_iff)
  show "same_rest s s'" by (rule i(5))
  have "acct_ok cfg (Locks s who \<noteq> None) (get_account s who)" "Locks s' = Locks s" using ok i(5) by (auto simp: ledger_ok_def same_rest_def)
  then have "acct_ok cfg (Locks s who \<noteq> None) i" using i(2,3) by (simp add: acct_ok_def account_data)
  then show "ledger_ok cfg s'" using ok i(1,4) \<open>Locks s' = Locks s\<close> by (simp add: ledger_ok_def)
qed

lemma try_mutate_account_fail:
  assumes ok: "ledger_ok cfg s" and f: "f (account s who) (account s who = default_data) s = (Inl e, a, s1)"
  shows "try_mutate_account cfg who f s = (Inl e, s1)"
  unfolding try_mutate_account_def ensure_upgraded_ok [OF ok] snd_conv stored_account mutate_body_account f by simp

text \<open>
  A change that does not start to consume and does not give up the last provider of a consumed account
  goes through.
\<close>

lemma try_mutate_account_total:
  assumes ok: "ledger_ok cfg s" and f: "f (account s who) (account s who = default_data) s = (Inr r, a, s1)"
    and fr: "untouched s s1" and con: "consumes a \<Longrightarrow> consumes (account s who)"
    and prov: "ExistentialDeposit cfg \<le> free (account s who) \<Longrightarrow> free a < ExistentialDeposit cfg \<Longrightarrow> can_dec_provider s who"
  shows "\<exists>s'. try_mutate_account cfg who f s = (Inr (r, dust_of cfg a), s')"
proof -
  let ?P = "ExistentialDeposit cfg \<le> free (account s who)" and ?C = "consumes (account s who)"
  define s1' where "s1' = (if ?C \<and> \<not> consumes a then dec_consumers who s1 else s1)"
  have g: "providers (get_account s1' who) = providers (get_account s who)" "consumers (get_account s1' who) \<le> consumers (get_account s who)"
    using fr by (auto simp: s1'_def untouched_def ledger_simps)
  have pr: "?P \<Longrightarrow> 0 < providers (get_account s1' who)"
    using ok g(1) by (simp add: ledger_ok_def acct_ok_def counters_ok_def account_data)
  have "\<exists>x s2. dec_providers who s1' = (Inr x, s2)" if "?P" "\<not> ExistentialDeposit cfg \<le> free a"
  proof -
    obtain x s2 where d: "dec_providers who s1' = (x, s2)" by fastforce
    have "can_dec_provider s1' who" using prov that g by (auto simp: can_dec_provider_def Let_def)
    then show ?thesis using dec_providers_get(1) [OF d pr [OF that(1)]] d by (cases x) (auto simp: can_dec_provider_def Let_def)
  qed
  moreover have "settle_refs cfg who ?P ?C (ExistentialDeposit cfg \<le> free a) (consumes a) s1 =
      (let s = (if \<not> ?P \<and> ExistentialDeposit cfg \<le> free a then snd (inc_providers who s1) else s1);
           s = (if ?C \<and> \<not> consumes a then dec_consumers who s else s)
       in if ?P \<and> \<not> ExistentialDeposit cfg \<le> free a then
             (case dec_providers who s of
                (Inr _, s) \<Rightarrow> (Inr (), s)
              | (Inl r, s) \<Rightarrow> (Inl r, if ?C \<and> \<not> consumes a then snd (inc_consumers (max_consumers cfg) who s) else s))
           else (Inr (), s))"
    using con by (auto simp: settle_refs_def Let_def split: prod.splits sum.splits)
  ultimately have "\<exists>s2. settle_refs cfg who ?P ?C (ExistentialDeposit cfg \<le> free a) (consumes a) s1 = (Inr (), s2)"
    by (cases "?P \<and> \<not> ExistentialDeposit cfg \<le> free a") (auto simp: s1'_def Let_def split: if_splits)
  then obtain s2 where st: "settle_refs cfg who ?P ?C (ExistentialDeposit cfg \<le> free a) (consumes a) s1 = (Inr (), s2)" by blast
  show ?thesis
    unfolding try_mutate_account_def ensure_upgraded_ok [OF ok] snd_conv stored_account mutate_body_account f prod.case sum.case st
    by (simp add: Let_def)
qed

end
