(* ===== verification/Balances_Ledger.thy ===== *)
theory Balances_Ledger
  imports Balances_Account
begin

text \<open>
  The balances pallet as an implementation of the fungible traits: the funds of a ledger, and the
  interpretation of the contract \<open>fungible\<close> on the pallet's operations for ledgers in order.
\<close>

section \<open>Funds\<close>

definition funds_of :: "AccountData \<Rightarrow> nat" where
  "funds_of a = free a + reserved a"

definition funds :: "'a ledger \<Rightarrow> nat" where
  "funds s = (\<Sum>who \<in> dom (accounts s). funds_of (account s who))"

lemma funds_default [simp]: "funds_of default_data = 0"
  by (simp add: funds_of_def)

lemma funds_superset:
  assumes "finite D" "dom (accounts s) \<subseteq> D"
  shows "funds s = (\<Sum>who \<in> D. funds_of (account s who))"
  unfolding funds_def
  by (rule sum.mono_neutral_left [OF assms]) (auto simp: account_data get_account_def dom_def)

lemma funds_update:
  assumes "finite (dom (accounts s))" "finite (dom (accounts s'))" "account s' = (account s)(who := a)"
  shows "funds s' + funds_of (account s who) = funds s + funds_of a"
proof -
  let ?D = "insert who (dom (accounts s) \<union> dom (accounts s'))"
  have D: "finite ?D" "dom (accounts s) \<subseteq> ?D" "dom (accounts s') \<subseteq> ?D" using assms(1,2) by auto
  have c: "(\<Sum>w \<in> ?D - {who}. funds_of (account s' w)) = (\<Sum>w \<in> ?D - {who}. funds_of (account s w))"
    by (rule sum.cong) (simp_all add: assms(3))
  have r: "(\<Sum>w \<in> ?D. funds_of (account t w)) = funds_of (account t who) + (\<Sum>w \<in> ?D - {who}. funds_of (account t w))" for t
    by (rule sum.remove [OF D(1)]) simp
  have "account s' who = a" by (simp add: assms(3))
  then have "funds s' = funds_of a + (\<Sum>w \<in> ?D - {who}. funds_of (account s w))"
    unfolding funds_superset [OF D(1,3)] r c by (rule arg_cong)
  moreover have "funds s = funds_of (account s who) + (\<Sum>w \<in> ?D - {who}. funds_of (account s w))"
    unfolding funds_superset [OF D(1,2)] by (rule r)
  ultimately show ?thesis by linarith
qed

lemma funds_same:
  assumes "finite (dom (accounts s))" "finite (dom (accounts s'))" "account s' = account s"
  shows "funds s' = funds s"
  using funds_update [OF assms(1,2), of undefined "account s undefined"] assms(3) by simp

lemma funds_ge: "finite (dom (accounts s)) \<Longrightarrow> funds_of (account s who) \<le> funds s"
proof -
  assume f: "finite (dom (accounts s))"
  have "funds s = (\<Sum>w \<in> insert who (dom (accounts s)). funds_of (account s w))" by (rule funds_superset) (use f in auto)
  then show ?thesis using member_le_sum [of who "insert who (dom (accounts s))" "\<lambda>w. funds_of (account s w)"] f by simp
qed

lemma untouched_funds: "untouched s s' \<Longrightarrow> ledger_ok cfg s \<Longrightarrow> funds s' = funds s"
  by (rule funds_same) (auto simp: untouched_account ledger_ok_def untouched_def)

lemma ledger_finite: "ledger_ok cfg s \<Longrightarrow> finite (dom (accounts s))"
  by (simp add: ledger_ok_def)

lemma ledger_data_ok: "ledger_ok cfg s \<Longrightarrow> data_ok cfg (account s who)"
  by (simp add: ledger_ok_def acct_ok_def account_data)

lemma ledger_solid: "ledger_ok cfg s \<Longrightarrow> free (account s who) = 0 \<or> ExistentialDeposit cfg \<le> free (account s who) \<or> reserved (account s who) \<noteq> 0"
  by (simp add: ledger_ok_def acct_ok_def account_data)

lemma ledger_config: "ledger_ok cfg s \<Longrightarrow> 0 < ExistentialDeposit cfg \<and> ExistentialDeposit cfg \<le> max_value cfg"
  by (simp add: ledger_ok_def)

lemma kept_same: "ledger_ok cfg s \<Longrightarrow> free (kept cfg (account s who)) = free (account s who) \<and> reserved (kept cfg (account s who)) = reserved (account s who)"
  using ledger_solid [of cfg s who] by (auto simp: kept_def)

lemma no_provider_no_consumer: "ledger_ok cfg s \<Longrightarrow> 0 < consumers (get_account s who) \<Longrightarrow> 0 < providers (get_account s who)"
  by (simp add: ledger_ok_def acct_ok_def counters_ok_def)

section \<open>Writing a balance\<close>

definition write_closure :: "nat \<Rightarrow> nat \<Rightarrow> AccountData \<Rightarrow> (dispatch_error, unit) result \<times> AccountData" where
  "write_closure mx n a =
     (if sat_sub (free a) n \<le> mx then (Inr (), a\<lparr>free := n\<rparr>) else (Inl (Module InsufficientBalance), a))"

lemma write_balance_closure:
  "write_balance cfg who n s =
     attempt (try_mutate_account cfg who
         (\<lambda>a _ s. let (r, a) = write_closure (reducible_balance cfg s0 who Expendable Force) n a in (Inr r, a, s)) s)
       (\<lambda>(r, d) s. attempt (r, s) (\<lambda>_ s. (Inr d, s)))" if "s0 = s"
  using that by (simp add: write_balance_def mutate_account_def write_closure_def [abs_def] Let_def)

lemma write_balance_ok:
  assumes ok: "ledger_ok cfg s" and n: "n \<le> max_value cfg" and w: "write_balance cfg who n s = (Inr d, s')"
  shows "ledger_ok cfg s'" "same_rest s s'" "d = dust_of cfg ((account s who)\<lparr>free := n\<rparr>)"
    "account s' = (account s)(who := kept cfg ((account s who)\<lparr>free := n\<rparr>))"
    "sat_sub (free (account s who)) n \<le> reducible_balance cfg s who Expendable Force"
proof -
  let ?a = "account s who" and ?mx = "reducible_balance cfg s who Expendable Force"
  obtain r d' s1 where r: "try_mutate_account cfg who (\<lambda>a _ s. let (r, a) = write_closure ?mx n a in (Inr r, a, s)) s = (Inr (r, d'), s1)"
    "attempt (r, s1) (\<lambda>_ s. (Inr d', s)) = (Inr d, s')"
    using w unfolding write_balance_closure [OF refl] by (auto simp: attempt_ok)
  have d: "data_ok cfg (?a\<lparr>free := n\<rparr>)" "data_ok cfg ?a" using ledger_data_ok [OF ok, of who] n by (auto simp: data_ok_def)
  then have da: "data_ok cfg (snd (write_closure ?mx n ?a))" by (simp add: write_closure_def)
  note t = try_mutate_account_ok [OF ok _ untouched_refl da r(1), of "fst (write_closure ?mx n ?a)"]
  have rr: "r = Inr ()" "s' = s1" "d = d'" using r(2) by (cases r; simp)+
  then have le: "sat_sub (free ?a) n \<le> ?mx" using t(1) by (auto simp: write_closure_def split: if_splits)
  then have c: "write_closure ?mx n ?a = (Inr (), ?a\<lparr>free := n\<rparr>)" by (simp add: write_closure_def)
  show "ledger_ok cfg s'" "same_rest s s'" "d = dust_of cfg (?a\<lparr>free := n\<rparr>)" "account s' = (account s)(who := kept cfg (?a\<lparr>free := n\<rparr>))"
    using t(2-) rr c by auto
  show "sat_sub (free ?a) n \<le> ?mx" by (rule le)
qed

lemma write_balance_total:
  assumes ok: "ledger_ok cfg s" and le: "sat_sub (free (account s who)) n \<le> reducible_balance cfg s who Expendable Force"
    and prov: "ExistentialDeposit cfg \<le> free (account s who) \<Longrightarrow> n < ExistentialDeposit cfg \<Longrightarrow> can_dec_provider s who"
  shows "\<exists>s'. write_balance cfg who n s = (Inr (dust_of cfg ((account s who)\<lparr>free := n\<rparr>)), s')"
proof -
  let ?a = "account s who" and ?mx = "reducible_balance cfg s who Expendable Force"
  have c: "write_closure ?mx n ?a = (Inr (), ?a\<lparr>free := n\<rparr>)" using le by (simp add: write_closure_def)
  have "\<exists>s'. try_mutate_account cfg who (\<lambda>a _ s. let (r, a) = write_closure ?mx n a in (Inr r, a, s)) s =
      (Inr (Inr (), dust_of cfg (?a\<lparr>free := n\<rparr>)), s')"
    by (rule try_mutate_account_total [OF ok _ untouched_refl]) (use c prov in \<open>auto simp: consumes_def\<close>)
  then show ?thesis unfolding write_balance_closure [OF refl] by auto
qed

lemma write_balance_error:
  assumes ok: "ledger_ok cfg s" and n: "n \<le> max_value cfg" and w: "write_balance cfg who n s = (Inl e, s')"
  shows "ledger_ok cfg s'" "same_rest s s'" "\<And>w. free (account s' w) = free (account s w)" "funds s' = funds s"
proof -
  let ?a = "account s who" and ?mx = "reducible_balance cfg s who Expendable Force"
  let ?f = "\<lambda>a (_ :: bool) s. let (r, a) = write_closure ?mx n a in (Inr r, a, s)"
  have d: "data_ok cfg (?a\<lparr>free := n\<rparr>)" "data_ok cfg ?a" using ledger_data_ok [OF ok, of who] n by (auto simp: data_ok_def)
  then have da: "data_ok cfg (snd (write_closure ?mx n ?a))" by (simp add: write_closure_def)
  consider "try_mutate_account cfg who ?f s = (Inl e, s')"
    | d' where "try_mutate_account cfg who ?f s = (Inr (Inl e, d'), s')"
    using w unfolding write_balance_closure [OF refl] by (auto simp: attempt_error)
  then have "ledger_ok cfg s' \<and> same_rest s s' \<and> (\<forall>w. free (account s' w) = free (account s w)) \<and> funds s' = funds s"
  proof cases
    case 1
    have q: "consumes ?a \<Longrightarrow> consumes (snd (write_closure ?mx n ?a))" by (simp add: write_closure_def consumes_def)
    note t = try_mutate_account_error [OF ok _ untouched_refl _ 1, of "fst (write_closure ?mx n ?a)" "snd (write_closure ?mx n ?a)"]
    have "account s' = account s" "ledger_ok cfg s'" "same_rest s s'" using t q by (auto simp: case_prod_beta Let_def)
    then show ?thesis using funds_same [OF ledger_finite [OF ok] ledger_finite] by metis
  next
    case 2
    note t = try_mutate_account_ok [OF ok _ untouched_refl da 2, of "fst (write_closure ?mx n ?a)"]
    have c: "write_closure ?mx n ?a = (Inl e, ?a)" using t(1) by (auto simp: write_closure_def case_prod_beta Let_def split: if_splits)
    then have acc: "account s' = (account s)(who := kept cfg ?a)" "ledger_ok cfg s'" "same_rest s s'" using t(3-) by (auto simp: case_prod_beta Let_def)
    have "funds s' + funds_of ?a = funds s + funds_of (kept cfg ?a)"
      by (rule funds_update [OF ledger_finite [OF ok] ledger_finite [OF acc(2)] acc(1)])
    then show ?thesis using acc kept_same [OF ok, of who] by (auto simp: funds_of_def)
  qed
  then show "ledger_ok cfg s'" "same_rest s s'" "\<And>w. free (account s' w) = free (account s w)" "funds s' = funds s" by auto
qed

section \<open>The contract holds\<close>

lemma reducible_le_free: "reducible_balance cfg s who p f \<le> free (account s who)"
  by (simp add: reducible_balance_def Let_def sat_sub_def)

lemma can_dec_not: "ledger_ok cfg s \<Longrightarrow> \<not> can_dec_provider s who \<Longrightarrow> providers_of s who = 1"
  using no_provider_no_consumer [of cfg s who] by (auto simp: can_dec_provider_def providers_of_def Let_def)

lemma reducible_le_forced:
  "ledger_ok cfg s \<Longrightarrow> reducible_balance cfg s who p f \<le> reducible_balance cfg s who Expendable Force"
  using can_dec_not [of cfg s who] by (cases p) (auto simp: reducible_balance_def Let_def sat_sub_def)

lemma reducible_keeps_provider:
  assumes "n \<le> reducible_balance cfg s who Expendable Force" "ExistentialDeposit cfg \<le> free (account s who)"
    "free (account s who) - n < ExistentialDeposit cfg" "0 < ExistentialDeposit cfg"
  shows "can_dec_provider s who"
  using assms by (auto simp: reducible_balance_def Let_def sat_sub_def split: if_splits)

lemma can_withdraw_facts:
  assumes "withdraw_into_result (can_withdraw cfg s who n) keep = Inr x" "n \<noteq> 0"
  shows "n \<le> free (account s who)" "n \<le> reducible_balance cfg s who Expendable Polite"
    "keep \<Longrightarrow> ExistentialDeposit cfg \<le> free (account s who) - n" "n \<le> TotalIssuance s"
    "frozen (account s who) \<le> sat_add (max_value cfg) (free (account s who) - n) (reserved (account s who))"
  using assms by (simp_all add: can_withdraw_def Let_def checked_sub_def not_less split: if_splits)

lemma reducible_unfrozen:
  "reducible_balance cfg s who p Polite \<le> free (account s who) - (frozen (account s who) - reserved (account s who))"
  unfolding reducible_balance_def Let_def sat_sub_def by (auto intro: diff_le_mono2)

lemma can_withdraw_reducible:
  assumes "withdraw_into_result (can_withdraw cfg s who n) (p \<noteq> Expendable) = Inr x"
  shows "n \<le> reducible_balance cfg s who p Polite"
proof (cases "n = 0 \<or> p = Expendable")
  case True
  then show ?thesis using can_withdraw_facts(2) [OF assms] by auto
next
  case False
  let ?a = "account s who"
  have w: "n \<le> free ?a" "ExistentialDeposit cfg \<le> free ?a - n" "n \<le> free ?a - (frozen ?a - reserved ?a)"
    using can_withdraw_facts(1-3) [OF assms] False reducible_unfrozen [of cfg s who Expendable] by auto
  then have m: "n \<le> free ?a - max (frozen ?a - reserved ?a) (ExistentialDeposit cfg)" by linarith
  show ?thesis unfolding reducible_balance_def Let_def sat_sub_def using m w(3) by simp
qed

lemma ledger_event: "ledger_ok cfg s \<Longrightarrow> ledger_ok cfg (deposit_event e s) \<and> account (deposit_event e s) = account s \<and>
    funds (deposit_event e s) = funds s \<and> TotalIssuance (deposit_event e s) = TotalIssuance s"
proof -
  assume ok: "ledger_ok cfg s"
  have u: "untouched s (deposit_event e s)" by simp
  then have "same_rest s (deposit_event e s)" by (simp add: untouched_def)
  then show ?thesis using untouched_ok [OF u, of cfg] untouched_account [OF u] untouched_funds [OF u ok] ok by (simp add: same_rest_def)
qed

lemma issuance_frame [ledger_simps]:
  "ledger_ok cfg (s\<lparr>TotalIssuance := n\<rparr>) \<longleftrightarrow> ledger_ok cfg s" "account (s\<lparr>TotalIssuance := n\<rparr>) = account s"
  "funds (s\<lparr>TotalIssuance := n\<rparr>) = funds s"
proof -
  have g: "get_account (s\<lparr>TotalIssuance := n\<rparr>) = get_account s" by (simp add: get_account_def [abs_def])
  then show "ledger_ok cfg (s\<lparr>TotalIssuance := n\<rparr>) \<longleftrightarrow> ledger_ok cfg s" by (simp add: ledger_ok_def)
  from g show "account (s\<lparr>TotalIssuance := n\<rparr>) = account s" by (simp add: account_data fun_eq_iff)
  then show "funds (s\<lparr>TotalIssuance := n\<rparr>) = funds s" by (simp add: funds_def)
qed

lemma balances_sel [simp]:
  "fg_max (balances cfg) = max_value cfg" "fg_minimum_balance (balances cfg) = ExistentialDeposit cfg"
  "fg_total_issuance (balances cfg) = TotalIssuance" "fg_balance (balances cfg) = balance"
  "fg_reducible_balance (balances cfg) = reducible_balance cfg" "fg_can_deposit (balances cfg) = can_deposit cfg"
  "fg_can_withdraw (balances cfg) = can_withdraw cfg" "fg_handle_dust (balances cfg) = handle_dust"
  "fg_write_balance (balances cfg) = write_balance cfg" "fg_set_total_issuance (balances cfg) = set_total_issuance"
  "fg_done_mint_into (balances cfg) = done_mint_into" "fg_done_burn_from (balances cfg) = done_burn_from"
  "fg_done_shelve (balances cfg) = done_shelve" "fg_done_restore (balances cfg) = done_restore"
  "fg_done_transfer (balances cfg) = done_transfer"
  "hd_balance_on_hold (balances cfg) = balance_on_hold" "hd_hold_available (balances cfg) = hold_available cfg"
  "hd_set_balance_on_hold (balances cfg) = set_balance_on_hold cfg"
  "hd_reducible_total_balance_on_hold (balances cfg) = reducible_total_balance_on_hold"
  by (simp_all add: balances_def)

lemma neutral_event: "neutral (balances cfg) (ledger_ok cfg) funds (deposit_event e)"
  unfolding neutral_def balances_sel
proof (intro allI impI)
  fix s :: "'a ledger" assume "ledger_ok cfg s"
  from ledger_event [OF this, of e] show "ledger_ok cfg (deposit_event e s) \<and> balance (deposit_event e s) = balance s \<and>
      funds (deposit_event e s) = funds s \<and> TotalIssuance (deposit_event e s) = TotalIssuance s"
    by (simp add: balance_def fun_eq_iff)
qed

lemma write_balance_law:
  assumes ok: "ledger_ok cfg s" and n: "n \<le> max_value cfg" and w: "write_balance cfg who n s = (Inr d, s')"
  shows "ledger_ok cfg s' \<and> TotalIssuance s' = TotalIssuance s \<and>
    balance s' = (balance s)(who := (case d of None \<Rightarrow> n | Some _ \<Rightarrow> 0)) \<and>
    funds s' + balance s who = funds s + (case d of None \<Rightarrow> n | Some _ \<Rightarrow> 0) \<and>
    (d = None \<or> d = Some n \<and> n < ExistentialDeposit cfg)"
proof -
  note t = write_balance_ok [OF assms]
  let ?a = "(account s who)\<lparr>free := n\<rparr>"
  have f: "funds s' + funds_of (account s who) = funds s + funds_of (kept cfg ?a)"
    by (rule funds_update [OF ledger_finite [OF ok] ledger_finite [OF t(1)] t(4)])
  have k: "free (kept cfg ?a) = (case d of None \<Rightarrow> n | Some _ \<Rightarrow> 0)" "reserved (kept cfg ?a) = reserved (account s who)"
    "d = None \<or> d = Some n \<and> n < ExistentialDeposit cfg"
    using t(3) by (auto simp: kept_def dust_of_def)
  have "balance s' = (balance s)(who := (case d of None \<Rightarrow> n | Some _ \<Rightarrow> 0))"
    using t(4) k(1) by (auto simp: balance_def fun_eq_iff)
  then show ?thesis using t(1,2) f k by (simp add: funds_of_def balance_def same_rest_def)
qed

interpretation bal: fungible "balances cfg" "ledger_ok cfg" funds for cfg
proof (unfold_locales, unfold balances_sel)
  fix s s' :: "'a ledger" and who n d
  show "ledger_ok cfg s \<Longrightarrow> n \<le> max_value cfg \<Longrightarrow> write_balance cfg who n s = (Inr d, s') \<Longrightarrow>
      ledger_ok cfg s' \<and> TotalIssuance s' = TotalIssuance s \<and>
      balance s' = (balance s)(who := (case d of None \<Rightarrow> n | Some _ \<Rightarrow> 0)) \<and>
      funds s' + balance s who = funds s + (case d of None \<Rightarrow> n | Some _ \<Rightarrow> 0) \<and>
      (d = None \<or> d = Some n \<and> n < ExistentialDeposit cfg)" by (rule write_balance_law)
next
  fix s :: "'a ledger" and who n
  assume "ledger_ok cfg s" "balance s who \<le> n" "ExistentialDeposit cfg \<le> n" "n \<le> max_value cfg"
  then show "\<exists>s'. write_balance cfg who n s = (Inr None, s')"
    using write_balance_total [of cfg s who n] by (simp add: balance_def sat_sub_def dust_of_def)
next
  fix s :: "'a ledger" and who n p f
  assume ok: "ledger_ok cfg s" and n: "n \<le> reducible_balance cfg s who p f"
  have m: "n \<le> reducible_balance cfg s who Expendable Force" using n reducible_le_forced [OF ok, of who p f] by linarith
  then have "sat_sub (free (account s who)) (free (account s who) - n) \<le> reducible_balance cfg s who Expendable Force"
    using reducible_le_free [of cfg s who Expendable Force] by (simp add: sat_sub_def)
  note wt = write_balance_total [OF ok this]
  have "\<exists>s'. write_balance cfg who (free (account s who) - n) s =
      (Inr (dust_of cfg ((account s who)\<lparr>free := free (account s who) - n\<rparr>)), s')"
    by (rule wt, rule reducible_keeps_provider [OF m]) (use ledger_config [OF ok] in simp_all)
  then show "\<exists>d s'. write_balance cfg who (balance s who - n) s = (Inr d, s')" unfolding balance_def by blast
next
  fix s s' :: "'a ledger" and who n e
  assume "ledger_ok cfg s" "n \<le> max_value cfg" "write_balance cfg who n s = (Inl e, s')"
  from write_balance_error [OF this] show "ledger_ok cfg s' \<and> TotalIssuance s' = TotalIssuance s \<and> balance s' = balance s \<and> funds s' = funds s"
    by (simp add: same_rest_def balance_def fun_eq_iff)
next
  fix s :: "'a ledger" and who
  assume ok: "ledger_ok cfg s"
  show "balance s who \<le> funds s" using funds_ge [OF ledger_finite [OF ok], of who] by (simp add: balance_def funds_of_def)
  show "balance s who \<le> max_value cfg" using ledger_data_ok [OF ok, of who] by (simp add: balance_def data_ok_def)
  show "reducible_balance cfg s who p f \<le> balance s who" for p f using reducible_le_free by (simp add: balance_def)
next
  fix s :: "'a ledger" and who n p x
  assume "withdraw_into_result (can_withdraw cfg s who n) (p \<noteq> Expendable) = Inr x"
  then show "n \<le> reducible_balance cfg s who p Polite" by (rule can_withdraw_reducible)
next
  fix s :: "'a ledger" and who n
  assume "can_deposit cfg s who n Extant = DC_Success"
  then show "n = 0 \<or> ExistentialDeposit cfg \<le> balance s who + n \<and> balance s who + n \<le> max_value cfg"
    by (auto simp: can_deposit_def Let_def checked_add_def balance_def split: if_splits)
next
  fix s :: "'a ledger" and n
  assume "ledger_ok cfg s"
  then show "ledger_ok cfg (set_total_issuance n s) \<and> TotalIssuance (set_total_issuance n s) = n \<and>
      balance (set_total_issuance n s) = balance s \<and> funds (set_total_issuance n s) = funds s"
    by (simp add: set_total_issuance_def ledger_simps balance_def fun_eq_iff)
next
  fix s :: "'a ledger" and n
  assume "ledger_ok cfg s"
  then show "ledger_ok cfg (handle_dust n s) \<and> TotalIssuance (handle_dust n s) = TotalIssuance s - n \<and>
      balance (handle_dust n s) = balance s \<and> funds (handle_dust n s) = funds s"
    by (simp add: handle_dust_def set_total_issuance_def ledger_simps balance_def fun_eq_iff sat_sub_def)
next
  fix who dest :: 'a and n
  show "neutral (balances cfg) (ledger_ok cfg) funds (done_mint_into who n)"
    "neutral (balances cfg) (ledger_ok cfg) funds (done_burn_from who n)"
    "neutral (balances cfg) (ledger_ok cfg) funds (done_shelve who n)"
    "neutral (balances cfg) (ledger_ok cfg) funds (done_restore who n)"
    "neutral (balances cfg) (ledger_ok cfg) funds (done_transfer who dest n)"
    unfolding done_mint_into_def [abs_def] done_burn_from_def [abs_def] done_shelve_def [abs_def] done_restore_def [abs_def]
      done_transfer_def [abs_def] by (rule neutral_event)+
qed

end
