(* ===== verification/Balances_Steps.thy ===== *)
theory Balances_Steps
  imports Balances_Ledger
begin

text \<open>
  Every operation of the balances pallet keeps the ledger in order and the issuance equal to the funds
  of all accounts: the operations of the currency, reserves, locks and freezes, holds, the genesis build
  and the dispatchable calls.
\<close>

definition ledger_inv :: "config \<Rightarrow> 'a ledger \<Rightarrow> bool" where
  "ledger_inv cfg s \<longleftrightarrow> ledger_ok cfg s \<and> TotalIssuance s = funds s \<and> TotalIssuance s \<le> max_value cfg"

definition dust_amount :: "config \<Rightarrow> AccountData \<Rightarrow> nat" where
  "dust_amount cfg a = (case dust_of cfg a of None \<Rightarrow> 0 | Some d \<Rightarrow> d)"

lemma funds_kept: "funds_of (kept cfg a) + dust_amount cfg a = funds_of a"
  by (simp add: funds_of_def kept_def dust_amount_def dust_of_def)

section \<open>Changes whose dust is handled\<close>

lemma handle_maybe_dust_eq:
  assumes "0 < ExistentialDeposit cfg"
  shows "handle_maybe_dust cfg (dust_of cfg a) s = handle_dust (dust_amount cfg a) s"
  using assms by (auto simp: handle_maybe_dust_def dust_amount_def dust_of_def handle_raw_dust_def handle_dust_def sat_sub_def min_def)

definition same_maps :: "'a ledger \<Rightarrow> 'a ledger \<Rightarrow> bool" where
  "same_maps s s' \<longleftrightarrow> Locks s' = Locks s \<and> Reserves s' = Reserves s \<and> Holds s' = Holds s \<and> Freezes s' = Freezes s"

text \<open>A change of one account, with its dust, as one step: the outcome with what it does to the ledger.\<close>

definition changed :: "config \<Rightarrow> 'a \<Rightarrow> AccountData \<Rightarrow> 'a ledger \<Rightarrow> 'a ledger \<Rightarrow> bool" where
  "changed cfg who a s s' \<longleftrightarrow> ledger_ok cfg s' \<and> account s' = (account s)(who := kept cfg a) \<and>
     funds s' + funds_of (account s who) + dust_amount cfg a = funds s + funds_of a \<and>
     TotalIssuance s' = TotalIssuance s - dust_amount cfg a \<and> same_maps s s'"

definition kept_ledger :: "config \<Rightarrow> 'a ledger \<Rightarrow> 'a ledger \<Rightarrow> bool" where
  "kept_ledger cfg s s' \<longleftrightarrow> ledger_ok cfg s' \<and> account s' = account s \<and> funds s' = funds s \<and> TotalIssuance s' = TotalIssuance s \<and> same_maps s s'"

lemma kept_ledger_inv: "kept_ledger cfg s s' \<Longrightarrow> ledger_inv cfg s \<Longrightarrow> ledger_inv cfg s'"
  by (simp add: kept_ledger_def ledger_inv_def)

lemma changed_inv:
  assumes "changed cfg who a s s'" "ledger_inv cfg s" "funds_of a = funds_of (account s who)"
  shows "ledger_inv cfg s'"
  using assms by (auto simp: changed_def ledger_inv_def)

lemma changed_event: "changed cfg who a s s' \<Longrightarrow> changed cfg who a s (deposit_event e s')"
proof -
  assume c: "changed cfg who a s s'"
  then have "ledger_ok cfg s'" by (simp add: changed_def)
  from ledger_event [OF this, of e] c show ?thesis
    by (simp add: changed_def same_maps_def deposit_event_def)
qed

lemma kept_ledger_event: "kept_ledger cfg s s' \<Longrightarrow> kept_ledger cfg s (deposit_event e s')"
proof -
  assume c: "kept_ledger cfg s s'"
  then have "ledger_ok cfg s'" by (simp add: kept_ledger_def)
  from ledger_event [OF this, of e] c show ?thesis
    by (simp add: kept_ledger_def same_maps_def deposit_event_def)
qed

lemma kept_ledger_refl: "ledger_ok cfg s \<Longrightarrow> kept_ledger cfg s s"
  by (simp add: kept_ledger_def same_maps_def)

lemma kept_ledger_untouched: "ledger_ok cfg s \<Longrightarrow> untouched s s' \<Longrightarrow> kept_ledger cfg s s'"
  using untouched_ok [of s s' cfg] untouched_account [of s s'] untouched_funds [of s s' cfg]
  by (simp add: kept_ledger_def same_maps_def untouched_def same_rest_def)

lemma change_ok:
  assumes ok: "ledger_ok cfg s" and f: "f (account s who) (account s who = default_data) s = (Inr r, a, s1)"
    and fr: "untouched s s1" and da: "data_ok cfg a"
    and run: "try_mutate_account_handling_dust cfg who f s = (Inr r', s')"
  shows "r' = r" "changed cfg who a s s'"
proof -
  obtain d s2 where r: "try_mutate_account cfg who f s = (Inr (r', d), s2)" "s' = handle_maybe_dust cfg d s2"
    using run by (auto simp: try_mutate_account_handling_dust_def attempt_ok)
  note t = try_mutate_account_ok [OF ok f fr da r(1)]
  have s': "s' = handle_dust (dust_amount cfg a) s2" using r(2) t(2) ledger_config [OF ok] by (simp add: handle_maybe_dust_eq)
  have f2: "funds s2 + funds_of (account s who) = funds s + funds_of (kept cfg a)"
    by (rule funds_update [OF ledger_finite [OF ok] ledger_finite [OF t(4)] t(3)])
  show "r' = r" by (rule t(1))
  show "changed cfg who a s s'"
    using t(3-5) f2 funds_kept [of cfg a] unfolding s' changed_def handle_dust_def set_total_issuance_def sat_sub_def
    by (auto simp: ledger_simps same_rest_def same_maps_def)
qed

lemma change_error:
  assumes ok: "ledger_ok cfg s" and f: "f (account s who) (account s who = default_data) s = (r, a, s1)"
    and fr: "untouched s s1"
    and q: "\<And>x. r = Inr x \<Longrightarrow> ExistentialDeposit cfg \<le> free (account s who) \<Longrightarrow> consumes (account s who) \<Longrightarrow>
      ExistentialDeposit cfg \<le> free a \<or> consumes a"
    and run: "try_mutate_account_handling_dust cfg who f s = (Inl e, s')"
  shows "kept_ledger cfg s s'"
proof -
  have r: "try_mutate_account cfg who f s = (Inl e, s')"
    using run by (auto simp: try_mutate_account_handling_dust_def attempt_error)
  show ?thesis
  proof (cases r)
    case (Inl e')
    then show ?thesis using try_mutate_account_fail [of cfg s f who, OF ok f [unfolded Inl]] r kept_ledger_untouched [OF ok fr] by simp
  next
    case (Inr x)
    note t = try_mutate_account_error [of cfg s f who, OF ok f [unfolded Inr] fr q [OF Inr] r]
    then show ?thesis using funds_same [OF ledger_finite [OF ok] ledger_finite [OF t(2)] t(1)]
      by (simp add: kept_ledger_def same_rest_def same_maps_def)
  qed
qed

lemma mutate_handling:
  "mutate_account_handling_dust cfg who g s =
     try_mutate_account_handling_dust cfg who (\<lambda>a _ s. (Inr (fst (g a)), snd (g a), s)) s"
  by (simp add: mutate_account_handling_dust_def try_mutate_account_handling_dust_def mutate_account_def case_prod_beta Let_def)

section \<open>Reserves and slashes\<close>

lemma unreserve_inv:
  assumes "ledger_inv cfg s"
  shows "ledger_inv cfg (snd (unreserve cfg who value s))"
proof -
  have ok: "ledger_ok cfg s" and ti: "TotalIssuance s = funds s" "funds s \<le> max_value cfg" using assms by (auto simp: ledger_inv_def)
  let ?a = "account s who"
  let ?g = "\<lambda>account. let actual = min (reserved account) value
      in (actual, account\<lparr>reserved := reserved account - actual, free := sat_add (max_value cfg) (free account) actual\<rparr>)"
  have fit: "free ?a + reserved ?a \<le> max_value cfg" using funds_ge [OF ledger_finite [OF ok], of who] ti by (simp add: funds_of_def)
  then have fo: "funds_of (snd (?g ?a)) = funds_of ?a" and da: "data_ok cfg (snd (?g ?a))"
    using ledger_data_ok [OF ok, of who] by (auto simp: funds_of_def Let_def sat_add_def data_ok_def)
  obtain r s' where run: "mutate_account_handling_dust cfg who ?g s = (r, s')" by fastforce
  have "ledger_inv cfg s'"
  proof (cases r)
    case (Inr x)
    then show ?thesis using change_ok(2) [OF ok refl untouched_refl da run [unfolded mutate_handling Inr]] changed_inv [OF _ assms fo] by blast
  next
    case (Inl e)
    have q: "ExistentialDeposit cfg \<le> free ?a \<Longrightarrow> ExistentialDeposit cfg \<le> free (snd (?g ?a))"
      using ledger_config [OF ok] fit by (auto simp: Let_def sat_add_def)
    have "kept_ledger cfg s s'"
      by (rule change_error [OF ok refl untouched_refl _ run [unfolded mutate_handling Inl]]) (use q in blast)
    then show ?thesis by (rule kept_ledger_inv [OF _ assms])
  qed
  moreover have "ledger_inv cfg s' \<Longrightarrow> ledger_inv cfg (deposit_event e s')" for e
    using ledger_event [of cfg s' e] by (auto simp: ledger_inv_def)
  ultimately show ?thesis using assms run by (auto simp: unreserve_def split: sum.splits)
qed

lemma event_inv: "ledger_inv cfg s \<Longrightarrow> ledger_inv cfg (deposit_event e s)"
  using ledger_event [of cfg s e] by (auto simp: ledger_inv_def)

lemma reserve_inv:
  assumes "ledger_inv cfg s" "value \<noteq> 0"
  shows "ledger_inv cfg (snd (reserve cfg who value s))"
proof -
  have ok: "ledger_ok cfg s" using assms by (auto simp: ledger_inv_def)
  let ?a = "account s who"
  let ?f = "\<lambda>account (_ :: bool) s. case checked_sub (free account) value of
                  None \<Rightarrow> (Inl (Module InsufficientBalance), account, s)
                | Some f \<Rightarrow>
                    (case checked_add (max_value cfg) (reserved account) value of
                       None \<Rightarrow> (Inl (Arithmetic Overflow), account\<lparr>free := f\<rparr>, s)
                     | Some r \<Rightarrow> (ensure_can_withdraw who value RESERVE f s, account\<lparr>free := f, reserved := r\<rparr>, s))"
  define y where "y = ?f ?a (?a = default_data) s"
  have "snd (snd y) = s" by (simp add: y_def split: option.splits)
  then obtain e b where "y = (e, b, s)" by (cases y) auto
  then have f: "?f ?a (?a = default_data) s = (e, b, s)" unfolding y_def by simp
  have b: "b = ?a\<lparr>free := free ?a - value, reserved := reserved ?a + value\<rparr> \<and> value \<le> free ?a \<and> reserved ?a + value \<le> max_value cfg"
    if "e = Inr x" for x
    using f that by (auto simp: checked_sub_def checked_add_def split: option.splits if_splits)
  obtain r s' where run: "try_mutate_account_handling_dust cfg who ?f s = (r, s')" by fastforce
  have "ledger_inv cfg s'"
  proof (cases r)
    case (Inr x)
    have "e = Inr ()"
    proof (cases e)
      case (Inl e')
      then show ?thesis using try_mutate_account_fail [of cfg s ?f who, OF ok f [unfolded Inl]] run [unfolded Inr]
        by (auto simp: try_mutate_account_handling_dust_def attempt_ok)
    qed simp
    note b = b [OF this] and f = f [unfolded this]
    have "data_ok cfg b" using b ledger_data_ok [OF ok, of who] by (auto simp: data_ok_def)
    note c = change_ok(2) [of cfg s ?f who, OF ok f untouched_refl this run [unfolded Inr]]
    show ?thesis by (rule changed_inv [OF c assms(1)]) (use b in \<open>simp add: funds_of_def\<close>)
  next
    case (Inl e')
    have "kept_ledger cfg s s'"
      by (rule change_error [of cfg s ?f who, OF ok f untouched_refl _ run [unfolded Inl]])
        (use b assms(2) in \<open>auto simp: consumes_def\<close>)
    then show ?thesis by (rule kept_ledger_inv [OF _ assms(1)])
  qed
  then show ?thesis using run assms(2) by (cases r) (auto simp: reserve_def attempt_def intro!: event_inv)
qed

text \<open>A slash whose imbalance is dropped.\<close>

lemma changed_drop:
  assumes "changed cfg who a s s'" "ledger_inv cfg s" "funds_of a + n = funds_of (account s who)"
  shows "ledger_inv cfg (drop_negative n s')"
  using assms by (auto simp: changed_def ledger_inv_def drop_negative_def ledger_simps sat_sub_def)

lemma drop_zero: "ledger_inv cfg s \<Longrightarrow> ledger_inv cfg (drop_negative 0 s)"
  by (simp add: ledger_inv_def drop_negative_def ledger_simps sat_sub_def)

lemma drop_event: "drop_negative n (deposit_event e s) = deposit_event e (drop_negative n s)"
  by (simp add: drop_negative_def deposit_event_def)

text \<open>What both slashes do with the outcome of the change.\<close>

definition report_slash :: "'a \<Rightarrow> nat \<Rightarrow> (dispatch_error, nat \<times> nat) result \<times> 'a ledger \<Rightarrow> (nat \<times> nat) \<times> 'a ledger" where
  "report_slash who value r =
     (case r of (Inr (imbalance, remaining), s) \<Rightarrow> ((imbalance, remaining), deposit_event (Slashed who (sat_sub value remaining)) s)
              | (Inl _, s) \<Rightarrow> ((0, value), s))"

lemma report_slash_inv:
  assumes inv: "ledger_inv cfg s" and f: "f (account s who) (account s who = default_data) s = (Inr (n, m), a, s)"
    and a: "data_ok cfg a" "funds_of a + n = funds_of (account s who)"
    and q: "ExistentialDeposit cfg \<le> free (account s who) \<Longrightarrow> consumes (account s who) \<Longrightarrow>
      ExistentialDeposit cfg \<le> free a \<or> consumes a"
    and run: "report_slash who value (try_mutate_account_handling_dust cfg who f s) = ((imbalance, rest), s')"
  shows "ledger_inv cfg (drop_negative imbalance s')"
proof -
  have ok: "ledger_ok cfg s" using inv by (auto simp: ledger_inv_def)
  obtain r s1 where r: "try_mutate_account_handling_dust cfg who f s = (r, s1)" by fastforce
  show ?thesis
  proof (cases r)
    case (Inr x)
    note c = change_ok [of cfg s f who, OF ok f untouched_refl a(1) r [unfolded Inr]]
    have "ledger_inv cfg (drop_negative n s1)" by (rule changed_drop [OF c(2) inv a(2)])
    then have ev: "ledger_inv cfg (drop_negative n (deposit_event (Slashed who (sat_sub value m)) s1))"
      unfolding drop_event by (rule event_inv)
    have "imbalance = n" "s' = deposit_event (Slashed who (sat_sub value m)) s1"
      using run unfolding r Inr c(1) report_slash_def by auto
    with ev show ?thesis by (simp only:)
  next
    case (Inl e)
    have "kept_ledger cfg s s1"
      by (rule change_error [of cfg s f who, OF ok f untouched_refl _ r [unfolded Inl]]) (use q in blast)
    note k = drop_zero [OF kept_ledger_inv [OF this inv]]
    have "imbalance = 0" "s' = s1" using run unfolding r Inl report_slash_def by auto
    with k show ?thesis by (simp only:)
  qed
qed

lemma slash_inv:
  assumes "ledger_inv cfg s" "currency_slash cfg who value s = ((imbalance, rest), s')"
  shows "ledger_inv cfg (drop_negative imbalance s')"
proof (cases "value = 0 \<or> total_balance cfg s who = 0")
  case True
  then have "imbalance = 0" "s' = s" using assms(2) unfolding currency_slash_def by (auto split: if_splits)
  then show ?thesis using drop_zero [OF assms(1)] by simp
next
  case False
  let ?a = "account s who"
  let ?f = "\<lambda>account (_ :: bool) s. let actual = (if can_dec_provider s who then min value (free account)
                                 else min value (sat_sub (free account) (ExistentialDeposit cfg)))
                   in (Inr (actual, sat_sub value actual), account\<lparr>free := sat_sub (free account) actual\<rparr>, s)"
  define n where "n = (if can_dec_provider s who then min value (free ?a) else min value (sat_sub (free ?a) (ExistentialDeposit cfg)))"
  have f: "?f ?a (?a = default_data) s = (Inr (n, sat_sub value n), ?a\<lparr>free := free ?a - n\<rparr>, s)"
    unfolding Let_def n_def sat_sub_def by (rule refl)
  have "n \<le> free ?a" by (auto simp: n_def sat_sub_def)
  moreover have "data_ok cfg (?a\<lparr>free := free ?a - n\<rparr>)"
    using ledger_data_ok [of cfg s who] assms(1) by (auto simp: data_ok_def ledger_inv_def)
  moreover have "report_slash who value (try_mutate_account_handling_dust cfg who ?f s) = ((imbalance, rest), s')"
    using assms(2) False unfolding currency_slash_def report_slash_def by (simp only: de_Morgan_disj if_False simp_thms)
  ultimately show ?thesis
    by (intro report_slash_inv [of cfg s ?f who, OF assms(1) f]) (auto simp: funds_of_def consumes_def)
qed

lemma slash_reserved_inv:
  assumes "ledger_inv cfg s" "slash_reserved cfg who value s = ((imbalance, rest), s')"
  shows "ledger_inv cfg (drop_negative imbalance s')"
proof (cases "value = 0 \<or> total_balance cfg s who = 0")
  case True
  then have "imbalance = 0" "s' = s" using assms(2) unfolding slash_reserved_def by (auto split: if_splits)
  then show ?thesis using drop_zero [OF assms(1)] by simp
next
  case False
  let ?a = "account s who"
  let ?g = "\<lambda>account. let actual = min value (reserved account)
                   in ((actual, sat_sub value actual), account\<lparr>reserved := sat_sub (reserved account) actual\<rparr>)"
  let ?f = "\<lambda>a (_ :: bool) s. (Inr (fst (?g a)), snd (?g a), s)"
  define n where "n = min value (reserved ?a)"
  have f: "?f ?a (?a = default_data) s = (Inr (n, sat_sub value n), ?a\<lparr>reserved := reserved ?a - n\<rparr>, s)"
    by (simp add: n_def sat_sub_def Let_def)
  have "n \<le> reserved ?a" by (simp add: n_def)
  moreover have "data_ok cfg (?a\<lparr>reserved := reserved ?a - n\<rparr>)"
    using ledger_data_ok [of cfg s who] assms(1) by (auto simp: data_ok_def ledger_inv_def)
  moreover have "report_slash who value (try_mutate_account_handling_dust cfg who ?f s) = ((imbalance, rest), s')"
    using assms(2) False unfolding slash_reserved_def report_slash_def mutate_handling by (simp only: de_Morgan_disj if_False simp_thms)
  ultimately show ?thesis
    by (intro report_slash_inv [of cfg s ?f who, OF assms(1) f]) (auto simp: funds_of_def consumes_def)
qed

section \<open>Transfers, minting and burning\<close>

lemma transfer_inv:
  assumes "ledger_inv cfg s" "source \<noteq> dest" "fungible_transfer (balances cfg) source dest n p s = (Inr x, s')"
  shows "ledger_inv cfg s'"
proof -
  have ok: "ledger_ok cfg s" "TotalIssuance s = funds s" using assms(1) by (auto simp: ledger_inv_def)
  obtain w where w: "withdraw_into_result (can_withdraw cfg s source n) (p \<noteq> Expendable) = Inr w" "can_deposit cfg s dest n Extant = DC_Success"
    using assms(3) by (cases "can_deposit cfg s dest n Extant") (auto simp: fungible_transfer_def attempt_ok)
  have "\<exists>dust. ledger_ok cfg s' \<and> funds s' + dust = funds s \<and> TotalIssuance s' = TotalIssuance s - dust"
    using bal.transfer_ok [unfolded balances_sel, OF ok(1) assms(2) w] assms(3) by auto
  then show ?thesis using assms(1) ok by (auto simp: ledger_inv_def)
qed

lemma mint_inv:
  assumes "ledger_inv cfg s" "mint_into (balances cfg) who n s = (Inr x, s')"
  shows "ledger_inv cfg s'"
proof -
  have ok: "ledger_ok cfg s" "TotalIssuance s = funds s" using assms(1) by (auto simp: ledger_inv_def)
  have "TotalIssuance s + n \<le> max_value cfg"
    using assms(2) by (auto simp: mint_into_def ok_or_def checked_add_def split: if_splits)
  then show ?thesis using bal.mint_ok [unfolded balances_sel, OF ok assms(2)] by (auto simp: ledger_inv_def)
qed

lemma burn_inv:
  assumes "ledger_inv cfg s" "burn_from (balances cfg) who n prec fo s = (Inr x, s')"
  shows "ledger_inv cfg s'"
proof -
  have ok: "ledger_ok cfg s" "TotalIssuance s = funds s" using assms(1) by (auto simp: ledger_inv_def)
  show ?thesis using bal.burn_ok(3) [unfolded balances_sel, OF ok assms(2)] assms(1) by (auto simp: ledger_inv_def)
qed

section \<open>Forced balances\<close>

lemma forced_inv:
  assumes inv: "ledger_inv cfg s" and fits: "TotalIssuance s + n \<le> max_value cfg" "n = 0 \<or> ExistentialDeposit cfg \<le> n"
    and f: "f (account s who) (account s who = default_data) s = (Inr (free (account s who)), (account s who)\<lparr>free := n\<rparr>, s)"
    and run: "try_mutate_account_handling_dust cfg who f s = (Inr old, s')"
  shows "ledger_inv cfg (adjust_issuance cfg n old s')"
proof -
  have ok: "ledger_ok cfg s" using inv by (auto simp: ledger_inv_def)
  have da: "data_ok cfg ((account s who)\<lparr>free := n\<rparr>)" using ledger_data_ok [OF ok, of who] fits by (simp add: data_ok_def)
  note c = change_ok [of cfg s f who, OF ok f untouched_refl da run]
  have "dust_amount cfg ((account s who)\<lparr>free := n\<rparr>) = 0" using fits(2) by (auto simp: dust_amount_def dust_of_def)
  then have "ledger_ok cfg s'" "funds s' + free (account s who) = funds s + n" "TotalIssuance s' = TotalIssuance s"
    using c(2) by (simp_all add: changed_def funds_of_def)
  then show ?thesis using inv fits(1) c(1)
    by (auto simp: adjust_issuance_def drop_positive_def drop_negative_def ledger_inv_def ledger_simps sat_add_def sat_sub_def)
qed

section \<open>Locks and freezes\<close>

lemma frozen_change:
  assumes ok: "ledger_ok cfg s" and run: "mutate_account cfg who (\<lambda>b. (g b, b\<lparr>frozen := n\<rparr>)) s = (r, s')"
  shows "ledger_ok cfg s'" "funds s' = funds s" "same_rest s s'" "\<And>w. free (account s' w) = free (account s w) \<and> reserved (account s' w) = reserved (account s w)"
    "r = Inr x \<Longrightarrow> free (account s who) \<noteq> 0 \<or> reserved (account s who) \<noteq> 0 \<Longrightarrow> frozen (account s' who) = n"
proof -
  let ?a = "(account s who)\<lparr>frozen := n\<rparr>"
  let ?f = "\<lambda>a (_ :: bool) s. (Inr (g a), a\<lparr>frozen := n\<rparr>, s)"
  have da: "data_ok cfg ?a" using ledger_data_ok [OF ok, of who] by (simp add: data_ok_def)
  have run: "try_mutate_account cfg who ?f s = (r, s')" using run by (simp add: mutate_account_def Let_def)
  have "ledger_ok cfg s' \<and> funds s' = funds s \<and> same_rest s s' \<and> (\<forall>w. free (account s' w) = free (account s w) \<and> reserved (account s' w) = reserved (account s w)) \<and>
    (r = Inr x \<longrightarrow> free (account s who) \<noteq> 0 \<or> reserved (account s who) \<noteq> 0 \<longrightarrow> frozen (account s' who) = n)"
  proof (cases r)
    case (Inr y)
    obtain r' d where y: "y = (r', d)" by fastforce
    note t = try_mutate_account_ok [of cfg s ?f who, OF ok refl untouched_refl da run [unfolded Inr y]]
    have k: "free (kept cfg ?a) = free (account s who)" "reserved (kept cfg ?a) = reserved (account s who)"
      "free (account s who) \<noteq> 0 \<or> reserved (account s who) \<noteq> 0 \<Longrightarrow> frozen (kept cfg ?a) = n"
      using ledger_solid [OF ok, of who] by (auto simp: kept_def)
    have "funds s' = funds s"
      using funds_update [OF ledger_finite [OF ok] ledger_finite [OF t(4)] t(3)] k by (simp add: funds_of_def)
    then show ?thesis using t k by simp
  next
    case (Inl e)
    note t = try_mutate_account_error [of cfg s ?f who, OF ok refl untouched_refl _ run [unfolded Inl]]
    have e: "account s' = account s" "ledger_ok cfg s'" "same_rest s s'" by (rule t; simp)+
    then show ?thesis using funds_same [OF ledger_finite [OF ok] ledger_finite [OF e(2)] e(1)] Inl by simp
  qed
  then show "ledger_ok cfg s'" "funds s' = funds s" "same_rest s s'" "\<And>w. free (account s' w) = free (account s w) \<and> reserved (account s' w) = reserved (account s w)"
    "r = Inr x \<Longrightarrow> free (account s who) \<noteq> 0 \<or> reserved (account s who) \<noteq> 0 \<Longrightarrow> frozen (account s' who) = n" by blast+
qed

text \<open>A change of the locks of an account, with the consumer reference that stands for having any.\<close>

definition relock :: "'a \<Rightarrow> BalanceLock list \<Rightarrow> 'a ledger \<Rightarrow> 'a ledger" where
  "relock who locks s =
     (let existed = (Locks s who \<noteq> None) in
      if locks = [] then
        (let s = s\<lparr>Locks := (Locks s)(who := None)\<rparr> in if existed then dec_consumers who s else s)
      else
        (let s = s\<lparr>Locks := (Locks s)(who \<mapsto> locks)\<rparr>
         in if \<not> existed then snd (inc_consumers_without_limit who s) else s))"

lemma locks_frame [ledger_simps]:
  "get_account (s\<lparr>Locks := l\<rparr>) = get_account s" "account (s\<lparr>Locks := l\<rparr>) = account s" "funds (s\<lparr>Locks := l\<rparr>) = funds s"
proof -
  show g: "get_account (s\<lparr>Locks := l\<rparr>) = get_account s" by (simp add: get_account_def [abs_def])
  then show "account (s\<lparr>Locks := l\<rparr>) = account s" by (simp add: account_data fun_eq_iff)
  then show "funds (s\<lparr>Locks := l\<rparr>) = funds s" by (simp add: funds_def)
qed

lemma relock_account:
  assumes ok: "ledger_ok cfg s"
    and funded: "locks = [] \<or> Locks s who \<noteq> None \<or> ExistentialDeposit cfg \<le> free (account s who)"
  shows "\<exists>i. get_account (relock who locks s) = (get_account s)(who := i) \<and> data i = data (get_account s who) \<and>
      acct_ok cfg (locks \<noteq> []) i"
    "Locks (relock who locks s) = (Locks s)(who := (if locks = [] then None else Some locks))"
    "finite (dom (accounts (relock who locks s)))" "TotalIssuance (relock who locks s) = TotalIssuance s"
proof -
  let ?i = "get_account s who"
  have i: "acct_ok cfg (Locks s who \<noteq> None) ?i" using ok by (simp add: ledger_ok_def)
  have fin: "finite (dom (accounts s))" by (rule ledger_finite [OF ok])
  consider (drop) "locks = []" "Locks s who \<noteq> None" | (none) "locks = []" "Locks s who = None"
    | (change) "locks \<noteq> []" "Locks s who \<noteq> None" | (new) "locks \<noteq> []" "Locks s who = None" by blast
  then have "(\<exists>i. get_account (relock who locks s) = (get_account s)(who := i) \<and> data i = data ?i \<and> acct_ok cfg (locks \<noteq> []) i) \<and>
    Locks (relock who locks s) = (Locks s)(who := (if locks = [] then None else Some locks)) \<and>
    finite (dom (accounts (relock who locks s))) \<and> TotalIssuance (relock who locks s) = TotalIssuance s"
  proof cases
    case drop
    then have "get_account (relock who locks s) = (get_account s)(who := ?i\<lparr>consumers := consumers ?i - 1\<rparr>)"
      by (auto simp: relock_def Let_def ledger_simps)
    moreover have "acct_ok cfg False (?i\<lparr>consumers := consumers ?i - 1\<rparr>)"
      using i drop by (auto simp: acct_ok_def counters_ok_def)
    ultimately show ?thesis using drop fin
      by (intro conjI exI [of _ "?i\<lparr>consumers := consumers ?i - 1\<rparr>"])
        (auto simp: relock_def Let_def dec_consumers_def put_account_def)
  next
    case none
    then have "relock who locks s = s" by (simp add: relock_def Let_def fun_upd_idem)
    then show ?thesis using i none fin by (intro conjI exI [of _ ?i]) auto
  next
    case change
    then have "get_account (relock who locks s) = (get_account s)(who := ?i)" by (auto simp: relock_def Let_def ledger_simps)
    then show ?thesis using i change fin by (intro conjI exI [of _ ?i]) (auto simp: relock_def Let_def)
  next
    case new
    let ?j = "?i\<lparr>consumers := sat32 (consumers ?i + 1)\<rparr>"
    have p: "0 < providers ?i" using funded new i by (auto simp: acct_ok_def counters_ok_def account_data)
    then have "relock who locks s = put_account who ?j (s\<lparr>Locks := (Locks s)(who \<mapsto> locks)\<rparr>)"
      using new by (simp add: relock_def Let_def inc_consumers_without_limit_def ledger_simps)
    moreover have "acct_ok cfg True ?j" using i new p sat32_ge [of "1 + of_bool (consumes (data ?i))" "consumers ?i + 1"]
      by (auto simp: acct_ok_def counters_ok_def)
    ultimately show ?thesis using new fin
      by (intro conjI exI [of _ ?j]) (auto simp: ledger_simps, simp_all add: put_account_def)
  qed
  then show "\<exists>i. get_account (relock who locks s) = (get_account s)(who := i) \<and> data i = data (get_account s who) \<and> acct_ok cfg (locks \<noteq> []) i"
    "Locks (relock who locks s) = (Locks s)(who := (if locks = [] then None else Some locks))"
    "finite (dom (accounts (relock who locks s)))" "TotalIssuance (relock who locks s) = TotalIssuance s" by auto
qed

lemma relock_ok:
  assumes ok: "ledger_ok cfg s"
    and funded: "locks = [] \<or> Locks s who \<noteq> None \<or> ExistentialDeposit cfg \<le> free (account s who)"
  shows "ledger_ok cfg (relock who locks s)" "account (relock who locks s) = account s" "funds (relock who locks s) = funds s"
proof -
  note r = relock_account [OF assms]
  from r(1) obtain i where i: "get_account (relock who locks s) = (get_account s)(who := i)" "data i = data (get_account s who)"
    "acct_ok cfg (locks \<noteq> []) i" by blast
  show "ledger_ok cfg (relock who locks s)"
    using ok r(2,3) i by (auto simp: ledger_ok_def)
  show a: "account (relock who locks s) = account s" using i(1,2) by (auto simp: account_data fun_eq_iff)
  show "funds (relock who locks s) = funds s" by (rule funds_same [OF ledger_finite [OF ok] r(3) a])
qed

lemma update_locks_relock:
  "update_locks cfg who locks s =
     (let after_frozen = frozen_of locks (get_list (Freezes s) who); prev_frozen = frozen (account s who);
          s = relock who locks (snd (mutate_account cfg who (\<lambda>b. ((), b\<lparr>frozen := after_frozen\<rparr>)) s))
      in if prev_frozen > after_frozen then deposit_event (Unlocked who (sat_sub prev_frozen after_frozen)) s
         else if after_frozen > prev_frozen then deposit_event (Locked who (sat_sub after_frozen prev_frozen)) s
         else s)"
  by (simp add: update_locks_def relock_def Let_def)

lemma update_locks_inv:
  assumes inv: "ledger_inv cfg s"
    and funded: "locks = [] \<or> Locks s who \<noteq> None \<or> ExistentialDeposit cfg \<le> free (account s who)"
  shows "ledger_inv cfg (update_locks cfg who locks s)"
proof -
  have ok: "ledger_ok cfg s" using inv by (simp add: ledger_inv_def)
  let ?n = "frozen_of locks (get_list (Freezes s) who)"
  obtain r s1 where run: "mutate_account cfg who (\<lambda>b. ((), b\<lparr>frozen := ?n\<rparr>)) s = (r, s1)" by fastforce
  note f = frozen_change [OF ok run]
  have funded1: "locks = [] \<or> Locks s1 who \<noteq> None \<or> ExistentialDeposit cfg \<le> free (account s1 who)"
    using funded f(3,4) by (simp add: same_rest_def)
  have "ledger_inv cfg (relock who locks s1)"
    using relock_ok [OF f(1) funded1] relock_account(4) [OF f(1) funded1] inv f(2,3) by (simp add: ledger_inv_def same_rest_def)
  then show ?thesis unfolding update_locks_relock Let_def run by (simp add: event_inv)
qed

lemma freezes_frame [ledger_simps]:
  "get_account (s\<lparr>Freezes := l\<rparr>) = get_account s" "account (s\<lparr>Freezes := l\<rparr>) = account s" "funds (s\<lparr>Freezes := l\<rparr>) = funds s"
  "ledger_ok cfg (s\<lparr>Freezes := l\<rparr>) \<longleftrightarrow> ledger_ok cfg s"
proof -
  show g: "get_account (s\<lparr>Freezes := l\<rparr>) = get_account s" by (simp add: get_account_def [abs_def])
  then show "ledger_ok cfg (s\<lparr>Freezes := l\<rparr>) \<longleftrightarrow> ledger_ok cfg s" by (simp add: ledger_ok_def)
  show "account (s\<lparr>Freezes := l\<rparr>) = account s" using g by (simp add: account_data fun_eq_iff)
  then show "funds (s\<lparr>Freezes := l\<rparr>) = funds s" by (simp add: funds_def)
qed

lemma update_freezes_inv:
  assumes inv: "ledger_inv cfg s"
  shows "ledger_inv cfg (snd (update_freezes cfg who freezes s))"
proof -
  have ok: "ledger_ok cfg s" using inv by (simp add: ledger_inv_def)
  let ?n = "frozen_of (get_list (Locks s) who) freezes"
  obtain r s1 where run: "mutate_account cfg who (\<lambda>b. ((frozen b, ?n), b\<lparr>frozen := ?n\<rparr>)) s = (r, s1)" by fastforce
  note f = frozen_change [OF ok run]
  have i1: "ledger_inv cfg (s1\<lparr>Freezes := l\<rparr>)" for l
    using inv f(1-3) by (simp add: ledger_inv_def ledger_simps same_rest_def)
  have i2: "ledger_inv cfg s1" using inv f(1-3) by (simp add: ledger_inv_def same_rest_def)
  show ?thesis unfolding update_freezes_def Let_def run
    by (cases r) (auto simp: i2 i1 event_inv split: prod.splits)
qed

section \<open>Genesis\<close>

lemma endow_one:
  assumes ok: "ledger_ok cfg s" and n: "ExistentialDeposit cfg \<le> n" "n \<le> max_value cfg"
    and s': "s' = snd (stored_try_mutate_exists who
        (\<lambda>_ s. (Inr () :: (dispatch_error, unit) result, Some (default_data\<lparr>free := n\<rparr>), s)) (snd (inc_providers who s)))"
  shows "account s' = (account s)(who := default_data\<lparr>free := n\<rparr>)" "ledger_ok cfg s'" "same_rest s s'"
proof -
  let ?a = "default_data\<lparr>free := n\<rparr>"
  have c: "counters_ok (ExistentialDeposit cfg \<le> free (account s who)) False (Locks s who \<noteq> None) (get_account s who)"
    using ok unfolding ledger_ok_def acct_ok_def counters_ok_def account_data by (metis add_leD2 add_0 of_bool_eq(1))
  have st: "settled (ExistentialDeposit cfg \<le> free ?a) (consumes ?a) (Locks s who \<noteq> None) (ExistentialDeposit cfg \<le> free ?a) who s
      (snd (inc_providers who s))"
    using settled_inc_providers [OF c] n by (simp add: consumes_def)
  have k: "kept cfg ?a = ?a" using n by (simp add: kept_def)
  have da: "data_ok cfg ?a" using n by (simp add: data_ok_def)
  have "s' = (if providers_of (snd (inc_providers who s)) who > 0 \<or> sufficients_of (snd (inc_providers who s)) who > 0
        then put_account who ((get_account (snd (inc_providers who s)) who)\<lparr>data := kept cfg ?a\<rparr>) (snd (inc_providers who s))
        else remove_account who (snd (inc_providers who s)))"
    unfolding s' stored_account k by simp
  note w = write_back_ok [OF ok da st this]
  then show "account s' = (account s)(who := ?a)" "ledger_ok cfg s'" "same_rest s s'" by (simp_all add: k)
qed

lemma endow_all_ok:
  assumes "ledger_ok cfg s" "list_all (\<lambda>(_, n). ExistentialDeposit cfg \<le> n \<and> n \<le> max_value cfg) bals"
    "distinct (map fst bals)" "\<And>w. w \<in> fst ` set bals \<Longrightarrow> account s w = default_data"
  shows "ledger_ok cfg (endow_all bals s) \<and> same_rest s (endow_all bals s) \<and>
    funds (endow_all bals s) = funds s + sum_list (map snd bals) \<and>
    account (endow_all bals s) = (\<lambda>w. case map_of bals w of Some n \<Rightarrow> default_data\<lparr>free := n\<rparr> | None \<Rightarrow> account s w)"
  using assms
proof (induction bals arbitrary: s)
  case Nil
  then show ?case by simp
next
  case (Cons b bals)
  obtain who n where b: "b = (who, n)" by fastforce
  define s1 where "s1 = snd (stored_try_mutate_exists who
        (\<lambda>_ s. (Inr () :: (dispatch_error, unit) result, Some (default_data\<lparr>free := n\<rparr>), s)) (snd (inc_providers who s)))"
  have n: "ExistentialDeposit cfg \<le> n" "n \<le> max_value cfg" using Cons.prems(2) b by auto
  note e = endow_one [OF Cons.prems(1) n s1_def]
  have d: "account s who = default_data" using Cons.prems(4) b by simp
  have "account s1 w = default_data" if "w \<in> fst ` set bals" for w
    using Cons.prems(3,4) b that e(1) by auto
  with Cons.IH [OF e(2)] Cons.prems(2,3)
  have ih: "ledger_ok cfg (endow_all bals s1)" "same_rest s1 (endow_all bals s1)" "funds (endow_all bals s1) = funds s1 + sum_list (map snd bals)"
    "account (endow_all bals s1) = (\<lambda>w. case map_of bals w of Some n \<Rightarrow> default_data\<lparr>free := n\<rparr> | None \<Rightarrow> account s1 w)" by auto
  have "funds s1 = funds s + n"
    using funds_update [OF ledger_finite [OF Cons.prems(1)] ledger_finite [OF e(2)] e(1)] d by (simp add: funds_of_def)
  moreover have "map_of bals who = None" using Cons.prems(3) b by (simp add: map_of_eq_None_iff)
  moreover have "endow_all (b # bals) s = endow_all bals s1" by (simp add: b s1_def)
  ultimately show ?case using ih e same_rest_trans [OF e(3) ih(2)] b by (auto simp: fun_eq_iff split: option.splits)
qed

lemma fold_total:
  fixes m :: nat
  assumes "acc + sum_list (map snd bals) \<le> m"
  shows "fold (\<lambda>(_, n) acc. (acc + n) mod (m + 1)) bals acc = acc + sum_list (map snd bals)"
  using assms
proof (induction bals arbitrary: acc)
  case (Cons b bals)
  then have "acc + snd b < m + 1" by simp
  then have "(acc + snd b) mod (m + 1) = acc + snd b" by (rule mod_less)
  then show ?case using Cons by (simp add: case_prod_beta)
qed simp

lemma genesis_inv:
  assumes cfg: "0 < ExistentialDeposit cfg" "ExistentialDeposit cfg \<le> max_value cfg" and run: "genesis_build cfg bals empty_ledger = Some s"
    and fits: "sum_list (map snd bals) \<le> max_value cfg"
  shows "ledger_inv cfg s" "account s = (\<lambda>w. case map_of bals w of Some n \<Rightarrow> default_data\<lparr>free := n\<rparr> | None \<Rightarrow> default_data)"
    "TotalIssuance s = sum_list (map snd bals)"
proof -
  let ?s = "empty_ledger\<lparr>TotalIssuance := sum_list (map snd bals)\<rparr> :: 'a ledger"
  have c: "list_all (\<lambda>(_, balance). balance \<ge> ExistentialDeposit cfg) bals" "distinct (map fst bals)" "s = endow_all bals ?s"
    using run fold_total [of 0 bals "max_value cfg"] fits by (auto simp: genesis_build_def Let_def split: if_splits)
  have g: "get_account ?s = (\<lambda>_. default_info)" by (auto simp: get_account_def empty_ledger_def)
  then have a: "account ?s = (\<lambda>_. default_data)" by (auto simp: account_data)
  have ok: "ledger_ok cfg ?s" using cfg g by (simp add: ledger_ok_def acct_ok_def counters_ok_def empty_ledger_def default_info_def)
  have "n \<le> max_value cfg" if "(w, n) \<in> set bals" for w n
    using member_le_sum_list [of n "map snd bals"] that fits by force
  then have l: "list_all (\<lambda>(_, n). ExistentialDeposit cfg \<le> n \<and> n \<le> max_value cfg) bals" using c(1) by (auto simp: list_all_iff)
  have f: "funds ?s = 0" by (simp add: funds_def empty_ledger_def)
  note e = endow_all_ok [OF ok l c(2), unfolded a]
  then show "ledger_inv cfg s" "TotalIssuance s = sum_list (map snd bals)"
    "account s = (\<lambda>w. case map_of bals w of Some n \<Rightarrow> default_data\<lparr>free := n\<rparr> | None \<Rightarrow> default_data)"
    using c(3) f fits by (simp_all add: ledger_inv_def same_rest_def)
qed

section \<open>Calls\<close>

lemma upgrade_each_ok: "ledger_ok cfg s \<Longrightarrow> upgrade_each cfg who n s = (n, s)"
  by (induction who arbitrary: n) (simp_all add: ensure_upgraded_ok)

text \<open>
  What keeps a call within the bounds under which the issuance is exact: the parties of a transfer
  differ, and a forced balance fits into the issuance on top of what there is.
\<close>

definition call_ok :: "config \<Rightarrow> ('l \<Rightarrow> (dispatch_error, 'a) result) \<Rightarrow> 'a origin \<Rightarrow> ('a, 'l) call \<Rightarrow> 'a ledger \<Rightarrow> bool" where
  "call_ok cfg lookup org c s =
     (case c of
        Call_transfer_allow_death dest value \<Rightarrow> ensure_signed org \<noteq> lookup dest
      | Call_set_balance_deprecated who new_free old_reserved \<Rightarrow> TotalIssuance s + new_free \<le> max_value cfg
      | Call_force_transfer source dest value \<Rightarrow> lookup source \<noteq> lookup dest
      | Call_transfer_keep_alive dest value \<Rightarrow> ensure_signed org \<noteq> lookup dest
      | Call_transfer_all dest keep_alive \<Rightarrow> ensure_signed org \<noteq> lookup dest
      | Call_force_unreserve who amount \<Rightarrow> True
      | Call_upgrade_accounts who \<Rightarrow> True
      | Call_transfer dest value \<Rightarrow> ensure_signed org \<noteq> lookup dest
      | Call_force_set_balance who new_free \<Rightarrow> TotalIssuance s + new_free \<le> max_value cfg)"

lemma transfer_allow_death_inv:
  assumes "ledger_inv cfg s" "ensure_signed org \<noteq> lookup dest" "transfer_allow_death cfg lookup org dest value s = (Inr x, s')"
  shows "ledger_inv cfg s'"
  using assms(2,3) by (auto simp: transfer_allow_death_def attempt_ok intro: transfer_inv [OF assms(1)])

lemma transfer_keep_alive_inv:
  assumes "ledger_inv cfg s" "ensure_signed org \<noteq> lookup dest" "transfer_keep_alive cfg lookup org dest value s = (Inr x, s')"
  shows "ledger_inv cfg s'"
  using assms(2,3) by (auto simp: transfer_keep_alive_def attempt_ok intro: transfer_inv [OF assms(1)])

lemma transfer_all_inv:
  assumes "ledger_inv cfg s" "ensure_signed org \<noteq> lookup dest" "transfer_all cfg lookup org dest keep s = (Inr x, s')"
  shows "ledger_inv cfg s'"
  using assms(2,3) by (auto simp: transfer_all_def Let_def attempt_ok intro: transfer_inv [OF assms(1)])

lemma force_transfer_inv:
  assumes "ledger_inv cfg s" "lookup source \<noteq> lookup dest" "force_transfer cfg lookup org source dest value s = (Inr x, s')"
  shows "ledger_inv cfg s'"
  using assms(2,3) by (auto simp: force_transfer_def attempt_ok intro: transfer_inv [OF assms(1)])

lemma set_balance_deprecated_inv:
  assumes inv: "ledger_inv cfg s" and fits: "TotalIssuance s + new_free \<le> max_value cfg"
    and run: "set_balance_deprecated cfg lookup org who new_free old_reserved s = (Inr x, s')"
  shows "ledger_inv cfg s'"
proof -
  let ?n = "if new_free < ExistentialDeposit cfg then 0 else new_free"
  let ?f = "\<lambda>account (_ :: bool) s. if reserved account = old_reserved then (Inr (free account), account\<lparr>free := ?n\<rparr>, s)
                          else (Inl (Token Unsupported), account, s)"
  obtain w old s1 where r: "try_mutate_account_handling_dust cfg w ?f s = (Inr old, s1)"
    "s' = deposit_event (BalanceSet w ?n) (adjust_issuance cfg ?n old s1)"
    using run by (auto simp: set_balance_deprecated_def Let_def attempt_ok)
  have ok: "ledger_ok cfg s" using inv by (simp add: ledger_inv_def)
  have res: "reserved (account s w) = old_reserved"
  proof (rule ccontr)
    assume ne: "reserved (account s w) \<noteq> old_reserved"
    have "try_mutate_account cfg w ?f s = (Inl (Token Unsupported), s)"
      by (rule try_mutate_account_fail [of cfg s ?f w, OF ok]) (use ne in simp)
    then show False using r(1) by (simp add: try_mutate_account_handling_dust_def)
  qed
  have "ledger_inv cfg (adjust_issuance cfg ?n old s1)"
    by (rule forced_inv [of cfg s ?n ?f w, OF inv _ _ _ r(1)]) (use fits res in auto)
  then show ?thesis unfolding r(2) by (rule event_inv)
qed

lemma force_set_balance_inv:
  assumes inv: "ledger_inv cfg s" and fits: "TotalIssuance s + new_free \<le> max_value cfg"
    and run: "force_set_balance cfg lookup org who new_free s = (Inr x, s')"
  shows "ledger_inv cfg s'"
proof -
  let ?n = "if new_free < ExistentialDeposit cfg then 0 else new_free"
  let ?g = "\<lambda>account. (free account, account\<lparr>free := ?n\<rparr>)"
  obtain w old s1 where r: "mutate_account_handling_dust cfg w ?g s = (Inr old, s1)"
    "s' = deposit_event (BalanceSet w ?n) (adjust_issuance cfg ?n old s1)"
    using run by (auto simp: force_set_balance_def Let_def attempt_ok)
  have "ledger_inv cfg (adjust_issuance cfg ?n old s1)"
    by (rule forced_inv [OF inv _ _ _ r(1) [unfolded mutate_handling]]) (use fits in auto)
  then show ?thesis unfolding r(2) by (rule event_inv)
qed

lemma run_call_inv:
  assumes inv: "ledger_inv cfg s" and c: "call_ok cfg lookup org c s" and run: "run_call cfg lookup org c s = (Inr x, s')"
  shows "ledger_inv cfg s'"
proof (cases c)
  case (Call_force_unreserve who amount)
  then show ?thesis using run by (auto simp: run_call_def force_unreserve_def attempt_ok intro: unreserve_inv [OF inv])
next
  case (Call_upgrade_accounts who)
  then show ?thesis using run inv
    by (auto simp: run_call_def upgrade_accounts_def attempt_ok upgrade_each_ok ledger_inv_def split: if_splits)
qed (use run c transfer_allow_death_inv [OF inv] transfer_keep_alive_inv [OF inv] transfer_all_inv [OF inv] force_transfer_inv [OF inv]
    set_balance_deprecated_inv [OF inv] force_set_balance_inv [OF inv]
  in \<open>auto simp: run_call_def call_ok_def Let_def attempt_ok\<close>)

lemma storage_layer_inv:
  assumes "ledger_inv cfg s" "\<And>x s'. f s = (Inr x, s') \<Longrightarrow> ledger_inv cfg s'"
  shows "ledger_inv cfg (snd (with_storage_layer f s))"
  using assms by (auto simp: with_storage_layer_def split: prod.splits sum.splits)

lemma dispatch_inv:
  assumes "ledger_inv cfg s" "call_ok cfg lookup org c s"
  shows "ledger_inv cfg (snd (dispatch cfg lookup org c s))"
  unfolding dispatch_def by (rule storage_layer_inv [OF assms(1) run_call_inv [OF assms]])

end
