(* ===== verification/Balances_Holds.thy ===== *)
theory Balances_Holds
  imports Balances_Steps
begin

text \<open>
  Balances on hold: what setting a hold does to the account, and that holding funds and releasing them
  again is exact. The amounts on hold are part of the reserved balance, with one item per reason.
\<close>

definition holds_ok :: "'a ledger \<Rightarrow> 'a \<Rightarrow> bool" where
  "holds_ok s who \<longleftrightarrow> distinct (map ia_id (get_list (Holds s) who)) \<and> (\<forall>reason. balance_on_hold s reason who \<le> reserved (account s who))"

section \<open>The items of a hold list\<close>

lemma amount_of_Nil [simp]: "amount_of i [] = None"
  by (simp add: amount_of_def)

lemma amount_of_Cons [simp]: "amount_of i (x # xs) = (if ia_id x = i then Some (ia_amount x) else amount_of i xs)"
  by (simp add: amount_of_def)

lemma amount_of_append: "amount_of i (xs @ ys) = (case amount_of i xs of Some n \<Rightarrow> Some n | None \<Rightarrow> amount_of i ys)"
  by (induction xs) auto

lemma amount_of_None: "amount_of i xs = None \<longleftrightarrow> i \<notin> ia_id ` set xs"
  by (induction xs) auto

lemma set_amount_ids [simp]: "map ia_id (set_amount i n xs) = map ia_id xs"
  by (induction xs) auto

lemma amount_of_set_amount:
  "amount_of j (set_amount i n xs) = (if i = j \<and> amount_of i xs \<noteq> None then Some n else amount_of j xs)"
  by (induction xs) auto

text \<open>The list a hold leaves, and the amounts it shows.\<close>

definition hold_list :: "nat \<Rightarrow> nat \<Rightarrow> IdAmount list \<Rightarrow> IdAmount list" where
  "hold_list reason n xs =
     (case amount_of reason xs of
        Some _ \<Rightarrow> filter (\<lambda>x. ia_amount x \<noteq> 0) (set_amount reason n xs)
      | None \<Rightarrow> if n = 0 then xs else xs @ [\<lparr>ia_id = reason, ia_amount = n\<rparr>])"

definition held :: "nat \<Rightarrow> IdAmount list \<Rightarrow> nat" where
  "held i xs = (case amount_of i xs of Some n \<Rightarrow> n | None \<Rightarrow> 0)"

lemma balance_on_hold_held: "balance_on_hold s reason who = held reason (get_list (Holds s) who)"
  by (simp add: balance_on_hold_def held_def)

lemma held_filter: "distinct (map ia_id xs) \<Longrightarrow> held i (filter (\<lambda>x. ia_amount x \<noteq> 0) xs) = held i xs"
proof (induction xs)
  case (Cons x xs)
  have "ia_id x = i \<Longrightarrow> amount_of i (filter (\<lambda>x. ia_amount x \<noteq> 0) xs) = None" using Cons.prems by (auto simp: amount_of_None)
  with Cons show ?case by (auto simp: held_def)
qed simp

lemma held_hold_list:
  assumes d: "distinct (map ia_id xs)"
  shows "held i (hold_list reason n xs) = (if i = reason then n else held i xs)"
proof (cases "amount_of reason xs")
  case None
  then show ?thesis by (auto simp: hold_list_def held_def amount_of_append split: option.splits)
next
  case (Some k)
  have "held i (hold_list reason n xs) = held i (set_amount reason n xs)"
    unfolding hold_list_def Some option.case by (rule held_filter) (simp add: d)
  then show ?thesis using Some by (simp add: held_def amount_of_set_amount)
qed

lemma distinct_hold_list: "distinct (map ia_id xs) \<Longrightarrow> distinct (map ia_id (hold_list reason n xs))"
proof (cases "amount_of reason xs")
  case None
  assume "distinct (map ia_id xs)"
  then show ?thesis using None [folded amount_of_None] by (simp add: hold_list_def None) (simp add: None [unfolded amount_of_None])
next
  case (Some k)
  assume "distinct (map ia_id xs)"
  then have "distinct (map ia_id (set_amount reason n xs))" by simp
  then show ?thesis using Some by (simp add: hold_list_def distinct_map_filter)
qed

section \<open>Setting a hold\<close>

lemma set_balance_on_hold_eq:
  assumes "balance_on_hold s reason who \<le> reserved (account s who)"
  shows "set_balance_on_hold cfg reason who n s =
    (let r = reserved (account s who) + n - balance_on_hold s reason who; holds = get_list (Holds s) who in
     if amount_of reason holds = None \<and> n \<noteq> 0 \<and> MaxHolds cfg \<le> length holds then (Inl (Module TooManyHolds), s)
     else if max_value cfg < r \<and> balance_on_hold s reason who < n then (Inl (Arithmetic Overflow), s)
     else if max_value cfg < r \<and> amount_of reason holds = None then (Inl (Arithmetic Overflow), s)
     else attempt (try_mutate_account cfg who (\<lambda>_ _ t. (Inr (), (account s who)\<lparr>reserved := r\<rparr>, t)) s)
       (\<lambda>(result, _) s. (Inr result, s\<lparr>Holds := (Holds s)(who \<mapsto> hold_list reason n holds)\<rparr>)))"
proof (cases "amount_of reason (get_list (Holds s) who)")
  case None
  then show ?thesis
    by (auto simp: set_balance_on_hold_def balance_on_hold_def hold_list_def Let_def ok_or_def checked_add_def)
next
  case (Some k)
  have k: "k \<le> reserved (account s who)" using assms Some by (simp add: balance_on_hold_def)
  have r: "k < n \<Longrightarrow> reserved (account s who) + (max k n - min k n) = reserved (account s who) + n - k"
    "\<not> k < n \<Longrightarrow> reserved (account s who) - (max k n - min k n) = reserved (account s who) + n - k" using k by auto
  show ?thesis
    using Some k unfolding set_balance_on_hold_def Let_def
    by (auto simp: balance_on_hold_def hold_list_def ok_or_def checked_add_def checked_sub_def r)
qed

lemma holds_frame [ledger_simps]:
  "get_account (s\<lparr>Holds := l\<rparr>) = get_account s" "account (s\<lparr>Holds := l\<rparr>) = account s" "funds (s\<lparr>Holds := l\<rparr>) = funds s"
  "ledger_ok cfg (s\<lparr>Holds := l\<rparr>) \<longleftrightarrow> ledger_ok cfg s"
proof -
  show g: "get_account (s\<lparr>Holds := l\<rparr>) = get_account s" by (simp add: get_account_def [abs_def])
  then show "ledger_ok cfg (s\<lparr>Holds := l\<rparr>) \<longleftrightarrow> ledger_ok cfg s" by (simp add: ledger_ok_def)
  show "account (s\<lparr>Holds := l\<rparr>) = account s" using g by (simp add: account_data fun_eq_iff)
  then show "funds (s\<lparr>Holds := l\<rparr>) = funds s" by (simp add: funds_def)
qed

text \<open>The outcome of setting a hold to an amount: the reserved balance moves with it, nothing else does.\<close>

definition held_change :: "config \<Rightarrow> nat \<Rightarrow> 'a \<Rightarrow> nat \<Rightarrow> 'a ledger \<Rightarrow> 'a ledger \<Rightarrow> bool" where
  "held_change cfg reason who n s s' \<longleftrightarrow> ledger_ok cfg s' \<and> holds_ok s' who \<and> balance s' = balance s \<and>
     (\<forall>w. reserved (account s' w) = (if w = who then reserved (account s who) + n - balance_on_hold s reason who else reserved (account s w))) \<and>
     (\<forall>r. balance_on_hold s' r who = (if r = reason then n else balance_on_hold s r who)) \<and>
     (\<forall>w r. w \<noteq> who \<longrightarrow> balance_on_hold s' r w = balance_on_hold s r w) \<and>
     TotalIssuance s' = TotalIssuance s \<and> funds s' + balance_on_hold s reason who = funds s + n"

lemma set_balance_on_hold_ok:
  assumes ok: "ledger_ok cfg s" and ho: "holds_ok s who" and run: "set_balance_on_hold cfg reason who n s = (Inr x, s')"
    and others: "\<And>r. r \<noteq> reason \<Longrightarrow> balance_on_hold s r who \<le> reserved (account s who) + n - balance_on_hold s reason who"
    and solid: "n \<noteq> 0 \<or> free (account s who) = 0 \<or> ExistentialDeposit cfg \<le> free (account s who)"
  shows "held_change cfg reason who n s s'"
proof -
  let ?old = "balance_on_hold s reason who" and ?holds = "get_list (Holds s) who"
  define r where "r = reserved (account s who) + n - ?old"
  let ?a = "(account s who)\<lparr>reserved := r\<rparr>" and ?f = "\<lambda>(_ :: AccountData) (_ :: bool) t. (Inr (), (account s who)\<lparr>reserved := r\<rparr>, t)"
  have le: "?old \<le> reserved (account s who)" using ho by (simp add: holds_ok_def)
  have mx: "reserved (account s who) \<le> max_value cfg" using ledger_data_ok [OF ok, of who] by (simp add: data_ok_def)
  obtain d s1 where m: "try_mutate_account cfg who ?f s = (Inr (x, d), s1)" "r \<le> max_value cfg"
    "s' = s1\<lparr>Holds := (Holds s1)(who \<mapsto> hold_list reason n ?holds)\<rparr>"
    using run mx le unfolding set_balance_on_hold_eq [OF le] Let_def r_def [symmetric]
    by (auto simp: attempt_ok r_def balance_on_hold_def split: if_splits option.splits)
  have da: "data_ok cfg ?a" using ledger_data_ok [OF ok, of who] m(2) by (simp add: data_ok_def)
  note t = try_mutate_account_ok [of cfg s ?f who, OF ok refl untouched_refl da m(1)]
  have k: "free (kept cfg ?a) = free (account s who)" "reserved (kept cfg ?a) = r"
    using solid le by (auto simp: kept_def r_def)
  have H: "Holds s' = (Holds s)(who \<mapsto> hold_list reason n ?holds)" using m(3) t(5) by (simp add: same_rest_def)
  have gl: "get_list (Holds s') w = (if w = who then hold_list reason n ?holds else get_list (Holds s) w)" for w
    using H by (simp add: get_list_def)
  have dis: "distinct (map ia_id ?holds)" using ho by (simp add: holds_ok_def)
  have b: "balance_on_hold s' q who = (if q = reason then n else balance_on_hold s q who)" for q
    by (simp add: balance_on_hold_held gl held_hold_list [OF dis])
  have acc: "account s' = (account s)(who := kept cfg ?a)" using t(3) m(3) by (simp add: ledger_simps)
  have "funds s1 + funds_of (account s who) = funds s + funds_of (kept cfg ?a)"
    by (rule funds_update [OF ledger_finite [OF ok] ledger_finite [OF t(4)] t(3)])
  then have fu: "funds s' + ?old = funds s + n" using m(3) k le by (simp add: funds_of_def r_def ledger_simps)
  have ho': "holds_ok s' who"
    using distinct_hold_list [OF dis] b acc k others le by (auto simp: holds_ok_def gl r_def)
  show ?thesis unfolding held_change_def r_def [symmetric]
    using t m(3) acc k b gl fu ho' by (auto simp: ledger_simps same_rest_def balance_def balance_on_hold_held fun_eq_iff)
qed

text \<open>Lowering a hold goes through.\<close>

lemma set_balance_on_hold_down:
  assumes ok: "ledger_ok cfg s" and ho: "holds_ok s who" and n: "n \<le> balance_on_hold s reason who"
  shows "\<exists>s'. set_balance_on_hold cfg reason who n s = (Inr (), s')"
proof -
  let ?old = "balance_on_hold s reason who" and ?a = "account s who"
  let ?f = "\<lambda>(_ :: AccountData) (_ :: bool) t. (Inr (), ?a\<lparr>reserved := reserved ?a + n - ?old\<rparr>, t)"
  have le: "?old \<le> reserved ?a" using ho by (simp add: holds_ok_def)
  have mx: "reserved ?a + n - ?old \<le> max_value cfg" using ledger_data_ok [OF ok, of who] n le unfolding data_ok_def by linarith
  have "\<exists>s'. try_mutate_account cfg who ?f s = (Inr ((), dust_of cfg (?a\<lparr>reserved := reserved ?a + n - ?old\<rparr>)), s')"
    by (rule try_mutate_account_total [of cfg s ?f who, OF ok refl untouched_refl]) (use n le in \<open>auto simp: consumes_def\<close>)
  moreover have "amount_of reason (get_list (Holds s) who) = None \<Longrightarrow> n = 0" using n by (simp add: balance_on_hold_def)
  ultimately show ?thesis using mx n unfolding set_balance_on_hold_eq [OF le] Let_def by auto
qed

section \<open>Holding and releasing\<close>

lemma handle_dust_frame [ledger_simps]:
  "account (handle_dust n s) = account s" "same_maps s (handle_dust n s')  \<longleftrightarrow> same_maps s s'"
  by (simp_all add: handle_dust_def set_total_issuance_def ledger_simps same_maps_def)

lemma dust_of_write_frame [ledger_simps]:
  "account (dust_of_write (balances cfg) d s) = account s" "same_maps s (dust_of_write (balances cfg) d s') \<longleftrightarrow> same_maps s s'"
  by (cases d; simp add: dust_of_write_def ledger_simps)+

lemma decrease_account:
  assumes ok: "ledger_ok cfg s" and run: "decrease_balance (balances cfg) who n prec p fo s = (Inr x, s')"
  shows "account s' = (account s)(who := kept cfg ((account s who)\<lparr>free := free (account s who) - x\<rparr>))" "same_maps s s'"
proof -
  obtain d s1 where w: "write_balance cfg who (free (account s who) - x) s = (Inr d, s1)" "s' = dust_of_write (balances cfg) d s1"
    using run by (auto simp: decrease_balance_def balance_def Let_def attempt_ok ok_or_def checked_sub_def sat_sub_def split: if_splits)
  have "free (account s who) - x \<le> max_value cfg" using ledger_data_ok [OF ok, of who] unfolding data_ok_def by linarith
  note t = write_balance_ok [OF ok this w(1)]
  then show "account s' = (account s)(who := kept cfg ((account s who)\<lparr>free := free (account s who) - x\<rparr>))" "same_maps s s'"
    unfolding w(2) by (simp_all add: ledger_simps) (simp add: same_rest_def same_maps_def)
qed

lemma increase_account:
  assumes ok: "ledger_ok cfg s" and run: "increase_balance (balances cfg) who n prec s = (Inr x, s')"
  shows "reserved (account s' w) = reserved (account s w)" "same_maps s s'"
proof -
  have "reserved (account s' w) = reserved (account s w) \<and> same_maps s s'"
  proof (cases "s' = s")
    case True
    then show ?thesis by (simp add: same_maps_def)
  next
    case False
    have "\<exists>m d s1. write_balance cfg who m s = (Inr d, s1) \<and> s' = dust_of_write (balances cfg) d s1 \<and> m \<le> max_value cfg \<and> ExistentialDeposit cfg \<le> m"
    proof (cases prec)
      case Exact
      then show ?thesis using run False
        by (intro exI [of _ "free (account s who) + n"])
          (auto simp: increase_balance_def balance_def Let_def attempt_ok ok_or_def checked_add_def split: if_splits)
    next
      case BestEffort
      then show ?thesis using run False
        by (intro exI [of _ "sat_add (max_value cfg) (free (account s who)) n"])
          (auto simp: increase_balance_def balance_def Let_def attempt_ok sat_add_def split: if_splits)
    qed
    then obtain m d s1 where w: "write_balance cfg who m s = (Inr d, s1)" "s' = dust_of_write (balances cfg) d s1" "m \<le> max_value cfg" "ExistentialDeposit cfg \<le> m"
      by blast
    note t = write_balance_ok [OF ok w(3,1)]
    then show ?thesis unfolding w(2) using w(4) by (simp_all add: ledger_simps kept_def) (simp add: same_rest_def same_maps_def)
  qed
  then show "reserved (account s' w) = reserved (account s w)" "same_maps s s'" by blast+
qed

lemma same_maps_hold: "same_maps s s' \<Longrightarrow> balance_on_hold s' = balance_on_hold s"
  by (rule ext)+ (simp add: same_maps_def balance_on_hold_def)

lemma same_maps_holds_ok:
  "same_maps s s' \<Longrightarrow> reserved (account s' who) = reserved (account s who) \<Longrightarrow> holds_ok s who \<Longrightarrow> holds_ok s' who"
  by (auto simp: holds_ok_def same_maps_hold) (simp add: same_maps_def)

definition held_moved :: "config \<Rightarrow> nat \<Rightarrow> 'a \<Rightarrow> nat \<Rightarrow> nat \<Rightarrow> 'a ledger \<Rightarrow> 'a ledger \<Rightarrow> bool" where
  "held_moved cfg reason who n dust s s' \<longleftrightarrow> ledger_inv cfg s' \<and> holds_ok s' who \<and>
     balance s' = (balance s)(who := balance s who - n - dust) \<and>
     (\<forall>w. reserved (account s' w) = (if w = who then reserved (account s who) + n else reserved (account s w))) \<and>
     (\<forall>w r. balance_on_hold s' r w = (if w = who \<and> r = reason then balance_on_hold s reason who + n else balance_on_hold s r w)) \<and>
     TotalIssuance s' = TotalIssuance s - dust \<and> n + dust \<le> balance s who \<and>
     (dust = 0 \<or> dust = balance s who - n \<and> dust < ExistentialDeposit cfg)"

lemma hold_ok:
  assumes inv: "ledger_inv cfg s" and ho: "holds_ok s who" and n: "n \<noteq> 0" and run: "hold (balances cfg) reason who n s = (Inr x, s')"
  shows "\<exists>dust. held_moved cfg reason who n dust s s'"
proof -
  have ok: "ledger_ok cfg s" and ti: "TotalIssuance s = funds s" "funds s \<le> max_value cfg" using inv by (simp_all add: ledger_inv_def)
  let ?h = "balance_on_hold s reason who" and ?a = "account s who"
  obtain y z s1 where d: "decrease_balance (balances cfg) who n Exact Protect Force s = (Inr y, s1)"
    and i: "increase_balance_on_hold (balances cfg) reason who n BestEffort s1 = (Inr z, s')"
    using run by (auto simp: hold_def attempt_ok ensure_can_hold_def ensure_def split: if_splits)
  note b = bal.decrease_ok [of cfg s, OF ok d, unfolded balances_sel, simplified]
  note da = decrease_account [OF ok d]
  from b obtain dust where dust: "dust = 0 \<or> dust = balance s who - n \<and> dust < ExistentialDeposit cfg" "ledger_ok cfg s1"
    "balance s1 = (balance s)(who := balance s who - n - dust)" "funds s1 + n + dust = funds s" "TotalIssuance s1 = TotalIssuance s - dust"
    "n \<le> balance s who" by auto
  have res: "reserved (account s1 w) = reserved (account s w)" for w using da(1) by (simp add: kept_def)
  have ho1: "holds_ok s1 who" by (rule same_maps_holds_ok [OF da(2) res ho])
  have h1: "balance_on_hold s1 = balance_on_hold s" by (rule same_maps_hold [OF da(2)])
  have le: "?h \<le> reserved ?a" using ho by (simp add: holds_ok_def)
  have "?h + n \<le> max_value cfg"
    using funds_ge [OF ledger_finite [OF ok], of who] ti le dust(6) by (simp add: funds_of_def balance_def)
  then have "set_balance_on_hold cfg reason who (?h + n) s1 = (Inr (), s')"
    using i n by (auto simp: increase_balance_on_hold_def h1 sat_add_def sat_sub_def Let_def attempt_ok split: if_splits)
  then have c: "held_change cfg reason who (?h + n) s1 s'"
    by (rule set_balance_on_hold_ok [OF dust(2) ho1]) (use ho n h1 res in \<open>auto simp: holds_ok_def intro: le_trans [OF _ le_add1]\<close>)
  have bh: "balance_on_hold s' r w = (if w = who \<and> r = reason then ?h + n else balance_on_hold s r w)" for r w
    using c h1 by (cases "w = who") (auto simp: held_change_def)
  have "held_moved cfg reason who n dust s s'"
    using c dust res h1 le ti bh unfolding held_moved_def held_change_def ledger_inv_def by (auto simp: balance_def)
  then show ?thesis by blast
qed

text \<open>On an account with reserved funds a hold goes through whenever the checks pass.\<close>

lemma hold_total:
  assumes inv: "ledger_inv cfg s" and ho: "holds_ok s who" and av: "hold_available cfg s reason who"
    and red: "n \<le> reducible_balance cfg s who Protect Force" and res: "reserved (account s who) \<noteq> 0"
  shows "\<exists>s'. hold (balances cfg) reason who n s = (Inr (), s')"
proof -
  have ok: "ledger_ok cfg s" and ti: "TotalIssuance s = funds s" "funds s \<le> max_value cfg" using inv by (simp_all add: ledger_inv_def)
  let ?h = "balance_on_hold s reason who"
  have nf: "n \<le> free (account s who)" using red reducible_le_free [of cfg s who Protect Force] by linarith
  obtain s1 where d: "decrease_balance (balances cfg) who n Exact Protect Force s = (Inr n, s1)"
    using bal.decrease_total [of cfg s n who Protect Force Exact, unfolded balances_sel, OF ok red] by blast
  note da = decrease_account [OF ok d]
  have ok1: "ledger_ok cfg s1" using bal.decrease_ok(3) [of cfg s, OF ok d] by auto
  let ?a = "account s1 who"
  have res1: "reserved ?a = reserved (account s who)" using da(1) res by (simp add: kept_def)
  have h1: "balance_on_hold s1 = balance_on_hold s" by (rule same_maps_hold [OF da(2)])
  have le: "?h \<le> reserved (account s who)" using ho by (simp add: holds_ok_def)
  then have le1: "balance_on_hold s1 reason who \<le> reserved ?a" by (simp add: h1 res1)
  have mx: "reserved (account s who) + n \<le> max_value cfg" "?h + n \<le> max_value cfg"
    using funds_ge [OF ledger_finite [OF ok], of who] ti le nf by (simp_all add: funds_of_def)
  let ?f = "\<lambda>(_ :: AccountData) (_ :: bool) t. (Inr (), ?a\<lparr>reserved := reserved ?a + (?h + n) - balance_on_hold s1 reason who\<rparr>, t)"
  have "\<exists>d s2. try_mutate_account cfg who ?f s1 = (Inr ((), d), s2)"
    using try_mutate_account_total [of cfg s1 ?f who, OF ok1 refl untouched_refl] res res1 by (auto simp: consumes_def)
  moreover have "length (get_list (Holds s1) who) < MaxHolds cfg" if "amount_of reason (get_list (Holds s1) who) = None"
    using av that da(2) by (auto simp: hold_available_def Let_def same_maps_def amount_of_None list_ex_iff image_iff split: if_splits)
  ultimately have "\<exists>s2. set_balance_on_hold cfg reason who (?h + n) s1 = (Inr (), s2)"
    using mx unfolding set_balance_on_hold_eq [OF le1] Let_def h1 res1 by (fastforce simp: h1 res1)
  then have "\<exists>z s2. increase_balance_on_hold (balances cfg) reason who n BestEffort s1 = (Inr z, s2)"
    using mx by (auto simp: increase_balance_on_hold_def h1 sat_add_def sat_sub_def Let_def)
  then show ?thesis using d av red by (auto simp: hold_def ensure_can_hold_def ensure_def)
qed

text \<open>
  Releasing what can be deposited: the check counts the amount on top of the funds that hold it, and the
  free balance stays at the existential deposit or above when anything is released.
\<close>

lemma release_ok:
  assumes inv: "ledger_inv cfg s" and ho: "holds_ok s who" and n: "n \<le> balance_on_hold s reason who"
    and fits: "balance s who + n + reserved (account s who) \<le> max_value cfg" and alive: "ExistentialDeposit cfg \<le> balance s who"
    and others: "\<And>r. r \<noteq> reason \<Longrightarrow> balance_on_hold s r who + n \<le> reserved (account s who)"
  shows "\<exists>s'. release (balances cfg) reason who n Exact s = (Inr n, s') \<and> ledger_inv cfg s' \<and> holds_ok s' who \<and>
    balance s' = (balance s)(who := balance s who + n) \<and>
    (\<forall>w. reserved (account s' w) = (if w = who then reserved (account s who) - n else reserved (account s w))) \<and>
    (\<forall>w r. balance_on_hold s' r w = (if w = who \<and> r = reason then balance_on_hold s reason who - n else balance_on_hold s r w)) \<and>
    TotalIssuance s' = TotalIssuance s"
proof -
  have ok: "ledger_ok cfg s" and ti: "TotalIssuance s = funds s" "funds s \<le> max_value cfg" using inv by (simp_all add: ledger_inv_def)
  let ?h = "balance_on_hold s reason who" and ?a = "account s who"
  have le: "?h \<le> reserved ?a" using ho by (simp add: holds_ok_def)
  have dep: "can_deposit cfg s who n Extant = DC_Success"
    using fits alive by (auto simp: can_deposit_def balance_def checked_add_def Let_def)
  obtain s1 where s1: "set_balance_on_hold cfg reason who (?h - n) s = (Inr (), s1)"
    using set_balance_on_hold_down [OF ok ho, of "?h - n" reason] by auto
  have c: "held_change cfg reason who (?h - n) s s1"
  proof (rule set_balance_on_hold_ok [OF ok ho s1])
    fix r assume "r \<noteq> reason"
    from others [OF this] show "balance_on_hold s r who \<le> reserved ?a + (?h - n) - ?h" using n le by linarith
  qed (use alive in \<open>simp add: balance_def\<close>)
  have ok1: "ledger_ok cfg s1" and b1: "balance s1 = balance s" using c by (simp_all add: held_change_def)
  obtain s2 where s2: "increase_balance (balances cfg) who n BestEffort s1 = (Inr n, s2)"
    using bal.increase_total [of cfg s1 who n BestEffort, unfolded balances_sel, OF ok1] b1 fits alive by auto
  note a2 = bal.increase_ok [of cfg s1, OF ok1 s2, unfolded balances_sel] and m2 = increase_account [OF ok1 s2]
  have run: "release (balances cfg) reason who n Exact s = (Inr n, s2)"
    using dep s1 s2 n by (simp add: release_def ensure_def decrease_balance_on_hold_def ok_or_def checked_sub_def Let_def)
  have bh: "balance_on_hold s2 r w = (if w = who \<and> r = reason then ?h - n else balance_on_hold s r w)" for r w
    using c same_maps_hold [OF m2(2)] by (cases "w = who") (auto simp: held_change_def)
  have res: "reserved (account s2 w) = (if w = who then reserved ?a - n else reserved (account s w))" for w
    using m2(1) [of w] c n le by (auto simp: held_change_def)
  have "funds s1 + ?h = funds s + (?h - n)" using c by (simp only: held_change_def)
  then have "funds s2 = funds s" using a2(3) n by simp
  then have "ledger_inv cfg s2" using a2 c ti by (simp add: ledger_inv_def held_change_def)
  moreover have "holds_ok s2 who" using c by (intro same_maps_holds_ok [OF m2(2,1)]) (simp add: held_change_def)
  ultimately show ?thesis using run a2 b1 bh res c by (intro exI [of _ s2]) (simp add: held_change_def)
qed

end
