(* ===== verification/Balances_Properties.thy ===== *)
theory Balances_Properties
  imports Balances_Holds
begin

text \<open>
  What the balances pallet guarantees: conservation of the issuance along every run from genesis, the
  shape of every account on the way, exact transfers, respect for freezes, exact holds; and what it does
  not: a transfer to oneself, and locks that are recorded but have no effect.
\<close>

section \<open>Runs\<close>

text \<open>
  A run starts from a genesis state whose endowments fit into the balance type. Its steps are the
  dispatched calls and what other pallets do through the interfaces: minting and burning in a storage
  layer, reserving, unreserving and slashing with the imbalance dropped, locks on funded accounts, freezes.
\<close>

inductive ledger_run :: "config \<Rightarrow> ('l \<Rightarrow> (dispatch_error, 'a) result) \<Rightarrow> 'a ledger \<Rightarrow> bool" for cfg lookup where
  genesis: "\<lbrakk>0 < ExistentialDeposit cfg; ExistentialDeposit cfg \<le> max_value cfg; sum_list (map snd bals) \<le> max_value cfg;
    genesis_build cfg bals empty_ledger = Some s\<rbrakk> \<Longrightarrow> ledger_run cfg lookup s"
| call: "\<lbrakk>ledger_run cfg lookup s; call_ok cfg lookup org c s\<rbrakk> \<Longrightarrow> ledger_run cfg lookup (snd (dispatch cfg lookup org c s))"
| next_block: "ledger_run cfg lookup s \<Longrightarrow> ledger_run cfg lookup (s\<lparr>block_number_now := n, events := []\<rparr>)"
| mint: "ledger_run cfg lookup s \<Longrightarrow> ledger_run cfg lookup (snd (with_storage_layer (mint_into (balances cfg) who n) s))"
| burn: "ledger_run cfg lookup s \<Longrightarrow> ledger_run cfg lookup (snd (with_storage_layer (burn_from (balances cfg) who n prec fo) s))"
| reserve: "ledger_run cfg lookup s \<Longrightarrow> ledger_run cfg lookup (snd (reserve cfg who n s))"
| unreserve: "ledger_run cfg lookup s \<Longrightarrow> ledger_run cfg lookup (snd (unreserve cfg who n s))"
| slash: "\<lbrakk>ledger_run cfg lookup s; currency_slash cfg who n s = ((imbalance, rest), s')\<rbrakk> \<Longrightarrow> ledger_run cfg lookup (drop_negative imbalance s')"
| slash_reserved: "\<lbrakk>ledger_run cfg lookup s; slash_reserved cfg who n s = ((imbalance, rest), s')\<rbrakk> \<Longrightarrow> ledger_run cfg lookup (drop_negative imbalance s')"
| set_lock: "\<lbrakk>ledger_run cfg lookup s; ExistentialDeposit cfg \<le> balance s who\<rbrakk> \<Longrightarrow> ledger_run cfg lookup (set_lock cfg i who n reasons s)"
| extend_lock: "\<lbrakk>ledger_run cfg lookup s; ExistentialDeposit cfg \<le> balance s who\<rbrakk> \<Longrightarrow> ledger_run cfg lookup (extend_lock cfg i who n reasons s)"
| remove_lock: "ledger_run cfg lookup s \<Longrightarrow> ledger_run cfg lookup (remove_lock cfg i who s)"
| set_freeze: "ledger_run cfg lookup s \<Longrightarrow> ledger_run cfg lookup (snd (set_freeze cfg i who n s))"
| extend_freeze: "ledger_run cfg lookup s \<Longrightarrow> ledger_run cfg lookup (snd (extend_freeze cfg i who n s))"
| thaw: "ledger_run cfg lookup s \<Longrightarrow> ledger_run cfg lookup (snd (thaw cfg i who s))"

lemma remove_lock_inv:
  assumes "ledger_inv cfg s"
  shows "ledger_inv cfg (remove_lock cfg i who s)"
  unfolding remove_lock_def by (rule update_locks_inv [OF assms]) (auto simp: get_list_def split: option.splits)

lemma set_lock_inv:
  assumes "ledger_inv cfg s" "ExistentialDeposit cfg \<le> balance s who"
  shows "ledger_inv cfg (set_lock cfg i who n reasons s)"
  using assms(2) by (simp add: set_lock_def Let_def balance_def remove_lock_inv [OF assms(1)] update_locks_inv [OF assms(1)])

lemma extend_lock_inv:
  assumes "ledger_inv cfg s" "ExistentialDeposit cfg \<le> balance s who"
  shows "ledger_inv cfg (extend_lock cfg i who n reasons s)"
  using assms(2) by (simp add: extend_lock_def Let_def balance_def assms(1) update_locks_inv [OF assms(1)])

lemma thaw_inv: "ledger_inv cfg s \<Longrightarrow> ledger_inv cfg (snd (thaw cfg i who s))"
  by (simp add: thaw_def update_freezes_inv)

lemma put_freeze_inv:
  assumes "ledger_inv cfg s"
  shows "ledger_inv cfg (snd (attempt (put_freeze cfg i n g l, s) (\<lambda>locks s. update_freezes cfg who locks s)))"
  using assms by (cases "put_freeze cfg i n g l") (simp_all add: update_freezes_inv)

lemma set_freeze_inv: "ledger_inv cfg s \<Longrightarrow> ledger_inv cfg (snd (set_freeze cfg i who n s))"
  by (simp add: set_freeze_def thaw_inv put_freeze_inv)

lemma extend_freeze_inv: "ledger_inv cfg s \<Longrightarrow> ledger_inv cfg (snd (extend_freeze cfg i who n s))"
  by (simp add: extend_freeze_def put_freeze_inv)

lemma next_block_inv: "ledger_inv cfg s \<Longrightarrow> ledger_inv cfg (s\<lparr>block_number_now := n, events := []\<rparr>)"
proof -
  assume inv: "ledger_inv cfg s"
  have g: "get_account (s\<lparr>block_number_now := n, events := []\<rparr>) = get_account s" by (simp add: get_account_def [abs_def])
  then have "account (s\<lparr>block_number_now := n, events := []\<rparr>) = account s" by (simp add: account_data fun_eq_iff)
  with g inv show ?thesis by (simp add: ledger_inv_def ledger_ok_def funds_def)
qed

lemma ledger_run_inv: "ledger_run cfg lookup s \<Longrightarrow> ledger_inv cfg s"
proof (induction rule: ledger_run.induct)
  case (genesis bals s)
  from genesis_inv(1) [OF genesis(1,2,4,3)] show ?case .
next
  case (reserve s who n)
  then show ?case by (cases "n = 0") (simp_all add: reserve_inv reserve_def [of cfg who 0])
next
  case (mint s who n)
  show ?case by (rule storage_layer_inv [OF mint.IH mint_inv [OF mint.IH]])
next
  case (burn s who n prec fo)
  show ?case by (rule storage_layer_inv [OF burn.IH burn_inv [OF burn.IH]])
qed (simp_all add: dispatch_inv next_block_inv unreserve_inv slash_inv slash_reserved_inv set_lock_inv extend_lock_inv
    remove_lock_inv set_freeze_inv extend_freeze_inv thaw_inv)

section \<open>A small ledger\<close>

definition sample_cfg :: config where
  "sample_cfg = \<lparr>ExistentialDeposit = 10, max_value = 1000, MaxLocks = 5, MaxReserves = 5, MaxHolds = 5, MaxFreezes = 5, max_consumers = 2\<rparr>"

definition sample_lookup :: "nat \<Rightarrow> (dispatch_error, nat) result" where
  "sample_lookup who = Inr who"

definition sample_ledger :: "nat ledger" where
  "sample_ledger = the (genesis_build sample_cfg [(3, 100), (2, 50)] empty_ledger)"

lemma sample_cfg_sel [simp]: "ExistentialDeposit sample_cfg = 10" "max_value sample_cfg = 1000"
  by (simp_all add: sample_cfg_def)

lemma sample_genesis: "genesis_build sample_cfg [(3, 100), (2, 50)] empty_ledger = Some sample_ledger"
  by (simp add: sample_ledger_def genesis_build_def sample_cfg_def Let_def)

lemma sample_run: "ledger_run sample_cfg sample_lookup sample_ledger"
  by (rule genesis [OF _ _ _ sample_genesis]) (simp_all add: sample_cfg_def)

lemma sample_account: "account sample_ledger = (\<lambda>w. if w = 3 then default_data\<lparr>free := 100\<rparr> else if w = 2 then default_data\<lparr>free := 50\<rparr> else default_data)"
  and sample_issuance: "TotalIssuance sample_ledger = 150"
  using genesis_inv(2,3) [OF _ _ sample_genesis] by (auto simp: sample_cfg_def)

section \<open>Guarantees\<close>





text \<open>
  C11. A dispatched transfer between two different accounts is decided by the two checks alone: the first
  that fails gives the error and leaves the state as it was; when both pass, the source loses the amount
  and the dust a rest below the existential deposit may leave, the destination gains the amount, no other
  balance changes and the issuance loses the dust.
\<close>

theorem transfer_allow_death_correct:
  assumes ok: "ledger_ok cfg s" and d: "lookup l = Inr dest" and ne: "source \<noteq> dest"
  shows "case withdraw_into_result (can_withdraw cfg s source n) False of
      Inl e \<Rightarrow> dispatch cfg lookup (Signed source) (Call_transfer_allow_death l n) s = (Inl e, s)
    | Inr _ \<Rightarrow>
        (case deposit_into_result (can_deposit cfg s dest n Extant) of
           Inl e \<Rightarrow> dispatch cfg lookup (Signed source) (Call_transfer_allow_death l n) s = (Inl e, s)
         | Inr _ \<Rightarrow> \<exists>s' dust. dispatch cfg lookup (Signed source) (Call_transfer_allow_death l n) s = (Inr Pays_Yes, s') \<and>
             (dust = 0 \<or> dust = balance s source - n \<and> dust < ExistentialDeposit cfg) \<and> n + dust \<le> balance s source \<and>
             balance s' = (balance s)(source := balance s source - n - dust, dest := balance s dest + n) \<and>
             TotalIssuance s' = TotalIssuance s - dust)"
proof -
  let ?t = "fungible_transfer (balances cfg) source dest n Expendable s"
  have run: "dispatch cfg lookup (Signed source) (Call_transfer_allow_death l n) s =
      with_storage_layer (\<lambda>_. attempt ?t (\<lambda>_ s. (Inr Pays_Yes, s))) s"
    by (simp add: dispatch_def run_call_def transfer_allow_death_def ensure_signed_def d with_storage_layer_def attempt_def
        split: prod.splits sum.splits)
  show ?thesis
  proof (cases "withdraw_into_result (can_withdraw cfg s source n) False")
    case (Inl e)
    then show ?thesis using bal.transfer_refused [of cfg s source n Expendable e dest] unfolding run
      by (simp add: with_storage_layer_def)
  next
    case w: (Inr w)
    show ?thesis
    proof (cases "deposit_into_result (can_deposit cfg s dest n Extant)")
      case (Inl e)
      then show ?thesis using bal.transfer_refused [of cfg s source n Expendable e dest] w unfolding run
        by (simp add: with_storage_layer_def)
    next
      case (Inr u)
      then have "can_deposit cfg s dest n Extant = DC_Success" by (cases "can_deposit cfg s dest n Extant") auto
      then obtain s' dust where "?t = (Inr n, s')" "dust = 0 \<or> dust = balance s source - n \<and> dust < ExistentialDeposit cfg"
        "n + dust \<le> balance s source"
        "balance s' = (balance s)(source := balance s source - n - dust, dest := balance s dest + n)"
        "TotalIssuance s' = TotalIssuance s - dust"
        using bal.transfer_ok [of cfg s source dest n Expendable w, unfolded balances_sel, OF ok ne] w by auto
      then show ?thesis unfolding run w Inr sum.case by (intro exI [of _ s'] exI [of _ dust]) (simp add: with_storage_layer_def)
    qed
  qed
qed

lemma sample_ok: "ledger_ok sample_cfg sample_ledger" "ledger_inv sample_cfg sample_ledger"
  using ledger_run_inv [OF sample_run] by (simp_all add: ledger_inv_def)

theorem transfer_allow_death_correct_witness:
  "\<exists>s'. dispatch sample_cfg sample_lookup (Signed 3) (Call_transfer_allow_death 2 95) sample_ledger = (Inr Pays_Yes, s') \<and>
     balance s' = (balance sample_ledger)(3 := 0, 2 := 145) \<and> TotalIssuance s' = 145"
proof -
  have c: "withdraw_into_result (can_withdraw sample_cfg sample_ledger 3 95) False = Inr 5"
    "can_deposit sample_cfg sample_ledger 2 95 Extant = DC_Success" "TotalIssuance sample_ledger = 150"
    "TotalIssuance (snd (dispatch sample_cfg sample_lookup (Signed 3) (Call_transfer_allow_death 2 95) sample_ledger)) = 145"
    by code_simp+
  have b: "balance sample_ledger 3 = 100" "balance sample_ledger 2 = 50" by (simp_all add: balance_def sample_account)
  have "sample_lookup 2 = Inr 2" by (simp add: sample_lookup_def)
  from transfer_allow_death_correct [of sample_cfg sample_ledger sample_lookup 2 2 3 95, OF sample_ok(1) this]
  obtain s' dust where s': "dispatch sample_cfg sample_lookup (Signed 3) (Call_transfer_allow_death 2 95) sample_ledger = (Inr Pays_Yes, s')"
    "balance s' = (balance sample_ledger)(3 := 5 - dust, 2 := 145)" "TotalIssuance s' = 150 - dust" "dust \<le> 5"
    by (auto simp: c b)
  then have "dust = 5" using c(4) by simp
  then show ?thesis using s' by (intro exI [of _ s']) simp
qed

text \<open>
  C21. A transfer that keeps the source alive leaves it the existential deposit and the frozen amount: when
  it succeeds, the source has lost exactly the amount, its free balance is at least the existential
  deposit, its free and reserved balances together cover what is frozen, and no dust is lost.
\<close>

theorem transfer_keep_alive_safe:
  assumes ok: "ledger_ok cfg s" and ne: "lookup l = Inr dest" "source \<noteq> dest" and n: "n \<noteq> 0"
    and run: "dispatch cfg lookup (Signed source) (Call_transfer_keep_alive l n) s = (Inr x, s')"
  shows "ExistentialDeposit cfg \<le> balance s' source \<and> balance s' source + n = balance s source \<and>
    balance s' dest = balance s dest + n \<and> frozen (account s source) \<le> balance s' source + reserved (account s source) \<and>
    TotalIssuance s' = TotalIssuance s"
proof -
  let ?t = "fungible_transfer (balances cfg) source dest n Preserve s"
  obtain y where t: "?t = (Inr y, s')"
    using run ne(1) by (auto simp: dispatch_def run_call_def transfer_keep_alive_def ensure_signed_def with_storage_layer_def attempt_def
        split: prod.splits sum.splits)
  obtain w where w: "withdraw_into_result (can_withdraw cfg s source n) True = Inr w" "can_deposit cfg s dest n Extant = DC_Success"
    using t by (cases "can_deposit cfg s dest n Extant") (auto simp: fungible_transfer_def attempt_ok)
  note f = can_withdraw_facts [OF w(1) n]
  have k: "ExistentialDeposit cfg \<le> free (account s source) - n" by (rule f(3)) simp
  obtain dust where d: "dust = 0 \<or> dust = balance s source - n \<and> dust < ExistentialDeposit cfg"
    "balance s' = (balance s)(source := balance s source - n - dust, dest := balance s dest + n)" "TotalIssuance s' = TotalIssuance s - dust"
    using bal.transfer_ok [of cfg s source dest n Preserve w, unfolded balances_sel, OF ok ne(2)] w t by auto
  have "dust = 0" using d(1) k by (auto simp: balance_def)
  moreover have "frozen (account s source) \<le> free (account s source) - n + reserved (account s source)"
    using f(5) by (simp add: sat_add_def)
  ultimately show ?thesis using d k f(1) ne(2) by (simp add: balance_def)
qed

theorem transfer_keep_alive_safe_witness:
  "let s' = snd (dispatch sample_cfg sample_lookup (Signed 3) (Call_transfer_keep_alive 2 90) sample_ledger)
   in 10 \<le> balance s' 3 \<and> balance s' 2 = 140"
proof -
  let ?r = "dispatch sample_cfg sample_lookup (Signed 3) (Call_transfer_keep_alive 2 90) sample_ledger"
  have "fst ?r = Inr Pays_Yes" by code_simp
  then have r: "?r = (Inr Pays_Yes, snd ?r)" by (metis prod.collapse)
  have b: "balance sample_ledger 2 = 50" by (simp add: balance_def sample_account)
  show ?thesis using transfer_keep_alive_safe [OF sample_ok(1) _ _ _ r, of 2] b
    by (simp add: sample_lookup_def Let_def)
qed






section \<open>Gaps\<close>




text \<open>
  A lock on an account whose consumer references are used up is recorded and reported, but the frozen
  amount is not raised: the lock does not restrict the account.
\<close>

lemma lock_not_enforced:
  assumes ok: "ledger_ok cfg s" and c: "\<not> consumes (account s who)" "max_consumers cfg \<le> consumers (get_account s who)"
    and l: "Locks s who = None" "get_list (Freezes s) who = []" and n: "n \<noteq> 0" "reasons \<noteq> 0" and f: "ExistentialDeposit cfg \<le> free (account s who)"
  shows "Locks (set_lock cfg i who n reasons s) who = Some [\<lparr>lock_id = i, lock_amount = n, lock_reasons = reasons_from reasons\<rparr>] \<and>
    frozen (account (set_lock cfg i who n reasons s) who) = 0"
proof -
  let ?locks = "[\<lparr>lock_id = i, lock_amount = n, lock_reasons = reasons_from reasons\<rparr>]"
  have z: "frozen (account s who) = 0" using c(1) by (simp add: consumes_def)
  have nl: "get_list (Locks s) who = []" using l by (simp add: get_list_def)
  have fr: "frozen_of ?locks [] = n" by (simp add: frozen_of_def)
  let ?f = "\<lambda>a (_ :: bool) s. (Inr (), a\<lparr>frozen := n\<rparr>, s)"
  obtain r s1 where run: "try_mutate_account cfg who ?f s = (r, s1)" by fastforce
  have st: "settle_refs cfg who (ExistentialDeposit cfg \<le> free (account s who)) (consumes (account s who))
      (ExistentialDeposit cfg \<le> free ((account s who)\<lparr>frozen := n\<rparr>)) (consumes ((account s who)\<lparr>frozen := n\<rparr>)) s = (Inl TooManyConsumers, s)"
    using c n f ok by (auto simp: settle_refs_def inc_consumers_def Let_def consumes_def ledger_ok_def acct_ok_def counters_ok_def account_data)
  have r: "r = Inl TooManyConsumers" "s1 = s"
    using run unfolding try_mutate_account_def ensure_upgraded_ok [OF ok] snd_conv stored_account mutate_body_account prod.case sum.case st by auto
  have m: "mutate_account cfg who (\<lambda>b. ((), b\<lparr>frozen := n\<rparr>)) s = (Inl TooManyConsumers, s)"
    using run r by (simp add: mutate_account_def)
  have "set_lock cfg i who n reasons s = deposit_event (Locked who n) (relock who ?locks s)"
    using n nl l fr z unfolding set_lock_def by (simp add: push_left_def update_locks_relock m Let_def sat_sub_def)
  moreover have "ledger_ok cfg (relock who ?locks s)" "account (relock who ?locks s) = account s" "Locks (relock who ?locks s) who = Some ?locks"
    using relock_ok [OF ok, of ?locks who] relock_account(2) [OF ok, of ?locks who] f by auto
  ultimately show ?thesis using ledger_event [of cfg "relock who ?locks s"] z by (simp add: deposit_event_def)
qed

text \<open>
  A lock on an account without providers is recorded although its consumer reference could not be taken;
  removing the lock later gives back a reference that some other use of the account holds.
\<close>

lemma lock_without_provider:
  assumes ok: "ledger_ok cfg s" and p: "providers (get_account s who) = 0" and n: "n \<noteq> 0" "reasons \<noteq> 0"
    and l: "Locks s who = None" "get_list (Freezes s) who = []"
  shows "Locks (set_lock cfg i who n reasons s) who = Some [\<lparr>lock_id = i, lock_amount = n, lock_reasons = reasons_from reasons\<rparr>] \<and>
    consumers (get_account (set_lock cfg i who n reasons s) who) = 0 \<and> \<not> ledger_ok cfg (set_lock cfg i who n reasons s)"
proof -
  let ?locks = "[\<lparr>lock_id = i, lock_amount = n, lock_reasons = reasons_from reasons\<rparr>]"
  have a: "consumers (get_account s who) = 0" "\<not> consumes (account s who)" "\<not> ExistentialDeposit cfg \<le> free (account s who)"
  proof -
    have "acct_ok cfg (Locks s who \<noteq> None) (get_account s who)" using ok by (simp add: ledger_ok_def)
    then show "consumers (get_account s who) = 0" "\<not> consumes (account s who)" "\<not> ExistentialDeposit cfg \<le> free (account s who)"
      using p by (auto simp: acct_ok_def counters_ok_def account_data)
  qed
  have z: "frozen (account s who) = 0" using a(2) by (simp add: consumes_def)
  let ?f = "\<lambda>a (_ :: bool) s. (Inr (), a\<lparr>frozen := n\<rparr>, s)"
  have st: "settle_refs cfg who (ExistentialDeposit cfg \<le> free (account s who)) (consumes (account s who))
      (ExistentialDeposit cfg \<le> free ((account s who)\<lparr>frozen := n\<rparr>)) (consumes ((account s who)\<lparr>frozen := n\<rparr>)) s = (Inl NoProviders, s)"
    using a n p by (auto simp: settle_refs_def inc_consumers_def Let_def consumes_def)
  obtain r s1 where run: "try_mutate_account cfg who ?f s = (r, s1)" by fastforce
  have "r = Inl NoProviders" "s1 = s"
    using run unfolding try_mutate_account_def ensure_upgraded_ok [OF ok] snd_conv stored_account mutate_body_account prod.case sum.case st by auto
  then have m: "mutate_account cfg who (\<lambda>b. ((), b\<lparr>frozen := n\<rparr>)) s = (Inl NoProviders, s)" using run by (simp add: mutate_account_def)
  have nl: "get_list (Locks s) who = []" using l by (simp add: get_list_def)
  have fr: "frozen_of ?locks [] = n" by (simp add: frozen_of_def)
  have "relock who ?locks s = s\<lparr>Locks := (Locks s)(who \<mapsto> ?locks)\<rparr>"
    using l p by (simp add: relock_def inc_consumers_without_limit_def Let_def ledger_simps)
  then have e: "set_lock cfg i who n reasons s = deposit_event (Locked who n) (s\<lparr>Locks := (Locks s)(who \<mapsto> ?locks)\<rparr>)"
    using n nl l fr z unfolding set_lock_def by (simp add: push_left_def update_locks_relock m Let_def sat_sub_def)
  have g: "get_account (set_lock cfg i who n reasons s) = get_account s" unfolding e by (simp add: ledger_simps)
  have "Locks (set_lock cfg i who n reasons s) who = Some ?locks" unfolding e by (simp add: deposit_event_def)
  moreover from this have "\<not> acct_ok cfg (Locks (set_lock cfg i who n reasons s) who \<noteq> None) (get_account (set_lock cfg i who n reasons s) who)"
    using a(1) by (simp add: acct_ok_def counters_ok_def g)
  ultimately show ?thesis using a(1) unfolding ledger_ok_def [of cfg "set_lock cfg i who n reasons s"] by (metis g)
qed

end
