(* ===== verification/Bags_List.thy ===== *)
theory Bags_List
  imports System_Accounts
begin

text \<open>
  The bags list (\<^verbatim>\<open>frame/bags-list/src/list/mod.rs\<close>): a semi-sorted list of accounts, kept as one doubly
  linked list per range of scores in two storage maps, one of nodes and one of bags with their head and
  tail; and the pallet around it (\<^verbatim>\<open>frame/bags-list/src/lib.rs\<close>). Scores are natural numbers up to the
  greatest score \<open>mx\<close>; the thresholds and the score of an account are parameters, as in the pallet's
  configuration. An iteration is \<open>None\<close> when the links it follows never end.
\<close>

section \<open>Types and storage\<close>

datatype ListError = Duplicate | NotHeavier | NotInSameBag | NodeNotFound

record 'a Node =
  nd_id :: 'a
  nd_prev :: "'a option"
  nd_next :: "'a option"
  nd_bag_upper :: nat
  nd_score :: nat

record 'a Bag =
  bg_head :: "'a option"
  bg_tail :: "'a option"
  bg_upper :: nat

datatype 'a bags_event = Rebagged 'a nat nat | ScoreUpdated 'a nat

text \<open>The map of nodes counts its keys in a 32-bit counter that saturates.\<close>

record 'a bags_list =
  ListNodes :: "'a \<Rightarrow> 'a Node option"
  CounterForListNodes :: nat
  ListBags :: "nat \<Rightarrow> 'a Bag option"
  bags_events :: "'a bags_event list"

definition nodes_insert :: "'a \<Rightarrow> 'a Node \<Rightarrow> 'a bags_list \<Rightarrow> 'a bags_list" where
  "nodes_insert key v s =
     s\<lparr>CounterForListNodes := (if ListNodes s key = None then sat32 (CounterForListNodes s + 1) else CounterForListNodes s),
       ListNodes := (ListNodes s)(key \<mapsto> v)\<rparr>"

definition nodes_remove :: "'a \<Rightarrow> 'a bags_list \<Rightarrow> 'a bags_list" where
  "nodes_remove key s =
     s\<lparr>CounterForListNodes := (if ListNodes s key \<noteq> None then CounterForListNodes s - 1 else CounterForListNodes s),
       ListNodes := (ListNodes s)(key := None)\<rparr>"

section \<open>Nodes\<close>

definition node_get :: "'a bags_list \<Rightarrow> 'a \<Rightarrow> 'a Node option" where
  "node_get s i = ListNodes s i"

definition node_put :: "'a Node \<Rightarrow> 'a bags_list \<Rightarrow> 'a bags_list" where
  "node_put n s = nodes_insert (nd_id n) n s"

definition prev_node :: "'a bags_list \<Rightarrow> 'a Node \<Rightarrow> 'a Node option" where
  "prev_node s n = (case nd_prev n of Some i \<Rightarrow> node_get s i | None \<Rightarrow> None)"

definition next_node :: "'a bags_list \<Rightarrow> 'a Node \<Rightarrow> 'a Node option" where
  "next_node s n = (case nd_next n of Some i \<Rightarrow> node_get s i | None \<Rightarrow> None)"

definition excise :: "'a Node \<Rightarrow> 'a bags_list \<Rightarrow> 'a bags_list" where
  "excise n s =
     (let s = (case prev_node s n of Some prev \<Rightarrow> node_put (prev\<lparr>nd_next := nd_next n\<rparr>) s | None \<Rightarrow> s)
      in case next_node s n of Some next \<Rightarrow> node_put (next\<lparr>nd_prev := nd_prev n\<rparr>) s | None \<Rightarrow> s)"

definition remove_from_storage_unchecked :: "'a Node \<Rightarrow> 'a bags_list \<Rightarrow> 'a bags_list" where
  "remove_from_storage_unchecked n s = nodes_remove (nd_id n) s"

definition is_terminal :: "'a Node \<Rightarrow> bool" where
  "is_terminal n \<longleftrightarrow> nd_prev n = None \<or> nd_next n = None"

text \<open>The number of leading thresholds below a score, by binary search in a sorted list.\<close>

definition partition_point :: "(nat \<Rightarrow> bool) \<Rightarrow> nat list \<Rightarrow> nat" where
  "partition_point p ts = length (takeWhile p ts)"

definition notional_bag_for :: "nat list \<Rightarrow> nat \<Rightarrow> nat \<Rightarrow> nat" where
  "notional_bag_for thresholds mx score =
     (let idx = partition_point (\<lambda>t. score > t) thresholds
      in if idx < length thresholds then thresholds ! idx else mx)"

definition is_misplaced :: "nat list \<Rightarrow> nat \<Rightarrow> 'a Node \<Rightarrow> nat \<Rightarrow> bool" where
  "is_misplaced thresholds mx n current_score \<longleftrightarrow> notional_bag_for thresholds mx current_score \<noteq> nd_bag_upper n"

section \<open>Bags\<close>

definition bag_get :: "'a bags_list \<Rightarrow> nat \<Rightarrow> 'a Bag option" where
  "bag_get s upper = map_option (\<lambda>b. b\<lparr>bg_upper := upper\<rparr>) (ListBags s upper)"

definition bag_get_or_make :: "'a bags_list \<Rightarrow> nat \<Rightarrow> 'a Bag" where
  "bag_get_or_make s upper = (case bag_get s upper of Some b \<Rightarrow> b | None \<Rightarrow> \<lparr>bg_head = None, bg_tail = None, bg_upper = upper\<rparr>)"

definition bag_is_empty :: "'a Bag \<Rightarrow> bool" where
  "bag_is_empty b \<longleftrightarrow> bg_head b = None \<and> bg_tail b = None"

definition bag_put :: "'a Bag \<Rightarrow> 'a bags_list \<Rightarrow> 'a bags_list" where
  "bag_put b s = s\<lparr>ListBags := (ListBags s)(bg_upper b := (if bag_is_empty b then None else Some b))\<rparr>"

definition bag_head :: "'a bags_list \<Rightarrow> 'a Bag \<Rightarrow> 'a Node option" where
  "bag_head s b = (case bg_head b of Some i \<Rightarrow> node_get s i | None \<Rightarrow> None)"

definition bag_tail :: "'a bags_list \<Rightarrow> 'a Bag \<Rightarrow> 'a Node option" where
  "bag_tail s b = (case bg_tail b of Some i \<Rightarrow> node_get s i | None \<Rightarrow> None)"

text \<open>All nodes from one along the links.\<close>

partial_function (option) successors :: "'a bags_list \<Rightarrow> 'a Node option \<Rightarrow> 'a Node list option" where
  "successors s first =
     (case first of
        None \<Rightarrow> Some []
      | Some n \<Rightarrow> Option.bind (successors s (next_node s n)) (\<lambda>rest. Some (n # rest)))"

declare successors.simps [code]

definition bag_iter :: "'a bags_list \<Rightarrow> 'a Bag \<Rightarrow> 'a Node list option" where
  "bag_iter s b = successors s (bag_head s b)"

definition insert_node_unchecked :: "'a Bag \<Rightarrow> 'a Node \<Rightarrow> 'a bags_list \<Rightarrow> 'a Bag \<times> 'a bags_list" where
  "insert_node_unchecked b n s =
     (if bg_tail b = Some (nd_id n) then (b, s)
      else
        (let n = n\<lparr>nd_bag_upper := bg_upper b\<rparr>;
             i = nd_id n;
             n = n\<lparr>nd_prev := bg_tail b, nd_next := None\<rparr>;
             s = node_put n s;
             s = (case bag_tail s b of Some old_tail \<Rightarrow> node_put (old_tail\<lparr>nd_next := Some i\<rparr>) s | None \<Rightarrow> s);
             b = b\<lparr>bg_tail := Some i\<rparr>;
             b = (if bg_head b = None then b\<lparr>bg_head := Some i\<rparr> else b)
         in (b, s)))"

definition insert_unchecked :: "'a Bag \<Rightarrow> 'a \<Rightarrow> nat \<Rightarrow> 'a bags_list \<Rightarrow> 'a Bag \<times> 'a bags_list" where
  "insert_unchecked b i score s =
     insert_node_unchecked b \<lparr>nd_id = i, nd_prev = None, nd_next = None, nd_bag_upper = 0, nd_score = score\<rparr> s"

definition remove_node_unchecked :: "'a Bag \<Rightarrow> 'a Node \<Rightarrow> 'a bags_list \<Rightarrow> 'a Bag \<times> 'a bags_list" where
  "remove_node_unchecked b n s =
     (let s = excise n s;
          b = (if bg_tail b = Some (nd_id n) then b\<lparr>bg_tail := nd_prev n\<rparr> else b);
          b = (if bg_head b = Some (nd_id n) then b\<lparr>bg_head := nd_next n\<rparr> else b)
      in (b, s))"

section \<open>The list\<close>

definition unsafe_clear :: "'a bags_list \<Rightarrow> 'a bags_list" where
  "unsafe_clear s = s\<lparr>ListBags := Map.empty, ListNodes := Map.empty, CounterForListNodes := 0\<rparr>"

definition list_contains :: "'a bags_list \<Rightarrow> 'a \<Rightarrow> bool" where
  "list_contains s i \<longleftrightarrow> ListNodes s i \<noteq> None"

definition get_score :: "'a bags_list \<Rightarrow> 'a \<Rightarrow> (ListError, nat) result" where
  "get_score s i = (case node_get s i of Some n \<Rightarrow> Inr (nd_score n) | None \<Rightarrow> Inl NodeNotFound)"

text \<open>The thresholds with the greatest score made explicit.\<close>

definition all_thresholds :: "nat list \<Rightarrow> nat \<Rightarrow> nat list" where
  "all_thresholds thresholds mx = (if thresholds \<noteq> [] \<and> last thresholds = mx then thresholds else thresholds @ [mx])"

text \<open>Chains the iterations of the bags that exist; it ends when each of them does.\<close>

fun iter_bags :: "'a bags_list \<Rightarrow> nat list \<Rightarrow> 'a Node list option" where
  "iter_bags s [] = Some []"
| "iter_bags s (t # ts) =
     (case bag_get s t of
        None \<Rightarrow> iter_bags s ts
      | Some b \<Rightarrow>
          (case bag_iter s b of
             None \<Rightarrow> None
           | Some ns \<Rightarrow> (case iter_bags s ts of None \<Rightarrow> None | Some rest \<Rightarrow> Some (ns @ rest))))"

definition list_iter :: "nat list \<Rightarrow> nat \<Rightarrow> 'a bags_list \<Rightarrow> 'a Node list option" where
  "list_iter thresholds mx s = iter_bags s (rev (all_thresholds thresholds mx))"

definition iter_from :: "nat list \<Rightarrow> 'a bags_list \<Rightarrow> 'a \<Rightarrow> (ListError, 'a Node list option) result" where
  "iter_from thresholds s start =
     (case node_get s start of
        None \<Rightarrow> Inl NodeNotFound
      | Some start_node \<Rightarrow>
          (let start_bag = successors s (next_node s start_node);
               idx = partition_point (\<lambda>t. nd_bag_upper start_node > t) thresholds;
               leftover_bags = iter_bags s (rev (take idx thresholds))
           in Inr (case (start_bag, leftover_bags) of (Some a, Some b) \<Rightarrow> Some (a @ b) | _ \<Rightarrow> None)))"

definition list_insert :: "nat list \<Rightarrow> nat \<Rightarrow> 'a \<Rightarrow> nat \<Rightarrow> 'a bags_list \<Rightarrow> (ListError, unit) result \<times> 'a bags_list" where
  "list_insert thresholds mx i score s =
     (if list_contains s i then (Inl Duplicate, s)
      else
        (let bag_score = notional_bag_for thresholds mx score;
             b = bag_get_or_make s bag_score;
             (b, s) = insert_unchecked b i score s
         in (Inr (), bag_put b s)))"

fun insert_many :: "nat list \<Rightarrow> nat \<Rightarrow> ('a \<Rightarrow> nat) \<Rightarrow> 'a list \<Rightarrow> nat \<Rightarrow> 'a bags_list \<Rightarrow> nat \<times> 'a bags_list" where
  "insert_many thresholds mx score_of [] n s = (n, s)"
| "insert_many thresholds mx score_of (v # vs) n s =
     (case list_insert thresholds mx v (score_of v) s of
        (Inr _, s) \<Rightarrow> insert_many thresholds mx score_of vs (n + 1) s
      | (Inl _, s) \<Rightarrow> insert_many thresholds mx score_of vs n s)"

definition unsafe_regenerate :: "nat list \<Rightarrow> nat \<Rightarrow> 'a list \<Rightarrow> ('a \<Rightarrow> nat) \<Rightarrow> 'a bags_list \<Rightarrow> nat \<times> 'a bags_list" where
  "unsafe_regenerate thresholds mx ids score_of s = insert_many thresholds mx score_of ids 0 (unsafe_clear s)"

text \<open>The bags changed by a removal are kept in memory, sorted by their thresholds, and put back at the end.\<close>

fun remove_loop :: "'a list \<Rightarrow> (nat \<Rightarrow> 'a Bag option) \<Rightarrow> nat list \<Rightarrow> nat \<Rightarrow> 'a bags_list \<Rightarrow> (nat \<Rightarrow> 'a Bag option) \<times> nat list \<times> nat \<times> 'a bags_list" where
  "remove_loop [] bags keys n s = (bags, keys, n, s)"
| "remove_loop (i # is) bags keys n s =
     (case node_get s i of
        None \<Rightarrow> remove_loop is bags keys n s
      | Some nd \<Rightarrow>
          if \<not> is_terminal nd then
            remove_loop is bags keys (n + 1) (remove_from_storage_unchecked nd (excise nd s))
          else
            (let u = nd_bag_upper nd;
                 b = (case bags u of Some b \<Rightarrow> b | None \<Rightarrow> bag_get_or_make s u);
                 (b, s) = remove_node_unchecked b nd s
             in remove_loop is (bags(u \<mapsto> b)) (if bags u = None then insort u keys else keys) (n + 1) (remove_from_storage_unchecked nd s)))"

definition remove_many :: "'a list \<Rightarrow> 'a bags_list \<Rightarrow> nat \<times> 'a bags_list" where
  "remove_many is s =
     (let (bags, keys, n, s) = remove_loop is Map.empty [] 0 s
      in (n, fold (\<lambda>u s. case bags u of Some b \<Rightarrow> bag_put b s | None \<Rightarrow> s) keys s))"

definition list_remove :: "'a \<Rightarrow> 'a bags_list \<Rightarrow> (ListError, unit) result \<times> 'a bags_list" where
  "list_remove i s = (if \<not> list_contains s i then (Inl NodeNotFound, s) else (Inr (), snd (remove_many [i] s)))"

definition update_position_for :: "nat list \<Rightarrow> nat \<Rightarrow> 'a Node \<Rightarrow> nat \<Rightarrow> 'a bags_list \<Rightarrow> (nat \<times> nat) option \<times> 'a bags_list" where
  "update_position_for thresholds mx n new_score s =
     (let n = n\<lparr>nd_score := new_score\<rparr> in
      if is_misplaced thresholds mx n new_score then
        (let old_bag_upper = nd_bag_upper n;
             s = (if \<not> is_terminal n then excise n s
                  else (case bag_get s (nd_bag_upper n) of
                          Some b \<Rightarrow> (let (b, s) = remove_node_unchecked b n s in bag_put b s)
                        | None \<Rightarrow> s));
             new_bag_upper = notional_bag_for thresholds mx new_score;
             b = bag_get_or_make s new_bag_upper;
             (b, s) = insert_node_unchecked b n s
         in (Some (old_bag_upper, new_bag_upper), bag_put b s))
      else (None, node_put n s))"

text \<open>\<open>None\<close> is the panic when the bag of the node does not exist.\<close>

definition insert_at_unchecked :: "'a Node \<Rightarrow> 'a Node \<Rightarrow> 'a bags_list \<Rightarrow> 'a bags_list option" where
  "insert_at_unchecked at n s =
     (let n = n\<lparr>nd_prev := nd_prev at\<rparr>;
          s = (case prev_node s at of Some prev \<Rightarrow> node_put (prev\<lparr>nd_next := Some (nd_id n)\<rparr>) s | None \<Rightarrow> s);
          n = n\<lparr>nd_next := Some (nd_id at)\<rparr>;
          at = at\<lparr>nd_prev := Some (nd_id n)\<rparr>
      in case (if is_terminal n then
                 map_option (\<lambda>b. bag_put (if nd_prev n = None then b\<lparr>bg_head := Some (nd_id n)\<rparr> else b) s) (bag_get s (nd_bag_upper at))
               else Some s) of
           None \<Rightarrow> None
         | Some s \<Rightarrow> Some (node_put n (node_put at s)))"

definition list_put_in_front_of :: "('a \<Rightarrow> nat) \<Rightarrow> 'a \<Rightarrow> 'a \<Rightarrow> 'a bags_list \<Rightarrow> ((ListError, unit) result \<times> 'a bags_list) option" where
  "list_put_in_front_of score lighter_id heavier_id s =
     (case node_get s lighter_id of
        None \<Rightarrow> Some (Inl NodeNotFound, s)
      | Some lighter_node \<Rightarrow>
          (case node_get s heavier_id of
             None \<Rightarrow> Some (Inl NodeNotFound, s)
           | Some heavier_node \<Rightarrow>
               if nd_bag_upper lighter_node \<noteq> nd_bag_upper heavier_node then Some (Inl NotInSameBag, s)
               else if \<not> (score heavier_id > score lighter_id) then Some (Inl NotHeavier, s)
               else
                 (let s = snd (list_remove heavier_id s) in
                  case node_get s lighter_id of
                    None \<Rightarrow> Some (Inl NodeNotFound, s)
                  | Some lighter_node \<Rightarrow> map_option (\<lambda>s. (Inr (), s)) (insert_at_unchecked lighter_node heavier_node s))))"

section \<open>Migration\<close>

text \<open>Sets of thresholds and of accounts are sorted lists without duplicates.\<close>

definition sorted_set :: "'b::linorder list \<Rightarrow> 'b list" where
  "sorted_set xs = sort (remdups xs)"

definition difference :: "'b::linorder list \<Rightarrow> 'b list \<Rightarrow> 'b list" where
  "difference xs ys = filter (\<lambda>x. x \<notin> set ys) (sorted_set xs)"

text \<open>Collects the accounts of the bags not seen yet; \<open>None\<close> when an iteration never ends.\<close>

fun affected :: "'a bags_list \<Rightarrow> nat list \<Rightarrow> nat list \<Rightarrow> 'a list \<Rightarrow> (nat list \<times> 'a list) option" where
  "affected s [] seen accs = Some (seen, accs)"
| "affected s (u # us) seen accs =
     (if u \<in> set seen then affected s us seen accs
      else
        (case bag_get s u of
           None \<Rightarrow> affected s us (u # seen) accs
         | Some b \<Rightarrow>
             (case bag_iter s b of
                None \<Rightarrow> None
              | Some ns \<Rightarrow> affected s us (u # seen) (accs @ map nd_id ns))))"

definition migrate ::
  "nat list \<Rightarrow> nat \<Rightarrow> ('a::linorder \<Rightarrow> nat) \<Rightarrow> nat list \<Rightarrow> 'a bags_list \<Rightarrow> (nat \<times> 'a bags_list) option" where
  "migrate new_thresholds mx score old_thresholds s =
     (if new_thresholds = old_thresholds then Some (0, s)
      else
        (let new_bags = difference new_thresholds old_thresholds;
             removed_bags = difference old_thresholds new_thresholds
         in case affected s (map (notional_bag_for old_thresholds mx) new_bags) [] [] of
              None \<Rightarrow> None
            | Some (seen, accs) \<Rightarrow>
                (case affected s removed_bags seen accs of
                   None \<Rightarrow> None
                 | Some (_, accs) \<Rightarrow>
                     (let affected_accounts = sorted_set accs;
                          s = snd (remove_many affected_accounts s);
                          s = snd (insert_many new_thresholds mx score affected_accounts 0 s);
                          s = fold (\<lambda>u s. s\<lparr>ListBags := (ListBags s)(u := None)\<rparr>) removed_bags s
                      in Some (length affected_accounts mod 2 ^ 32, s)))))"

section \<open>The state checks of the code\<close>

definition bag_try_state :: "'a bags_list \<Rightarrow> 'a Bag \<Rightarrow> bool option" where
  "bag_try_state s b =
     (if \<not> (case bag_head s b of Some h \<Rightarrow> prev_node s h = None | None \<Rightarrow> bg_tail b = None) then Some False
      else if \<not> (case bag_tail s b of Some t \<Rightarrow> next_node s t = None | None \<Rightarrow> bg_head b = None) then Some False
      else map_option (\<lambda>ns. distinct (map nd_id ns)) (bag_iter s b))"

definition bag_contains :: "'a bags_list \<Rightarrow> 'a Bag \<Rightarrow> 'a \<Rightarrow> bool option" where
  "bag_contains s b i = map_option (list_ex (\<lambda>n. nd_id n = i)) (bag_iter s b)"

definition node_try_state :: "'a bags_list \<Rightarrow> 'a Node \<Rightarrow> bool option" where
  "node_try_state s n =
     (case bag_get s (nd_bag_upper n) of
        None \<Rightarrow> Some False
      | Some expected_bag \<Rightarrow>
          (case bag_contains s expected_bag (nd_id n) of
             None \<Rightarrow> None
           | Some c \<Rightarrow>
               (let i = nd_id n;
                    non_terminal_check = (\<not> is_terminal n \<and> bg_head expected_bag \<noteq> Some i \<and> bg_tail expected_bag \<noteq> Some i);
                    terminal_check = (bg_head expected_bag = Some i \<or> bg_tail expected_bag = Some i)
                in Some (c \<and> (non_terminal_check \<or> terminal_check)))))"

text \<open>
  The nodes stored, given as a list of their keys, are checked after the bags; the counts are those of
  the iteration, of the counter and of the nodes stored.
\<close>

definition list_try_state :: "nat list \<Rightarrow> nat \<Rightarrow> 'a list \<Rightarrow> 'a bags_list \<Rightarrow> bool option" where
  "list_try_state thresholds mx keys s =
     (case list_iter thresholds mx s of
        None \<Rightarrow> None
      | Some ns \<Rightarrow>
          if \<not> distinct (map nd_id ns) then Some False
          else if length ns mod 2 ^ 32 \<noteq> CounterForListNodes s then Some False
          else if CounterForListNodes s \<noteq> length keys mod 2 ^ 32 then Some False
          else
            (let active_bags = List.map_filter (bag_get s) (all_thresholds thresholds mx) in
             if list_ex (\<lambda>b. bag_try_state s b = None) active_bags then None
             else if \<not> list_all (\<lambda>b. bag_try_state s b = Some True) active_bags then Some False
             else if length keys mod 2 ^ 32 \<noteq> sum_list (map (\<lambda>b. case bag_iter s b of Some xs \<Rightarrow> length xs | None \<Rightarrow> 0) active_bags) mod 2 ^ 32
             then Some False
             else if list_ex (\<lambda>i. case node_get s i of Some n \<Rightarrow> node_try_state s n = None | None \<Rightarrow> False) keys then None
             else Some (list_all (\<lambda>i. case node_get s i of Some n \<Rightarrow> node_try_state s n = Some True | None \<Rightarrow> True) keys)))"

section \<open>The pallet\<close>

datatype bags_error = Dispatch_error dispatch_error | List_error ListError

definition do_rebag :: "nat list \<Rightarrow> nat \<Rightarrow> 'a \<Rightarrow> nat \<Rightarrow> 'a bags_list \<Rightarrow> (ListError, (nat \<times> nat) option) result \<times> 'a bags_list" where
  "do_rebag thresholds mx account new_score s =
     (case node_get s account of
        None \<Rightarrow> (Inl NodeNotFound, s)
      | Some n \<Rightarrow>
          (let (maybe_movement, s) = update_position_for thresholds mx n new_score s;
               s = (case maybe_movement of
                      Some (from, to) \<Rightarrow> s\<lparr>bags_events := bags_events s @ [Rebagged account from to]\<rparr> | None \<Rightarrow> s);
               s = s\<lparr>bags_events := bags_events s @ [ScoreUpdated account new_score]\<rparr>
           in (Inr maybe_movement, s)))"

definition list_result :: "(ListError, 'r) result \<times> 's \<Rightarrow> (bags_error, unit) result \<times> 's" where
  "list_result r = (case r of (Inr _, s) \<Rightarrow> (Inr (), s) | (Inl e, s) \<Rightarrow> (Inl (List_error e), s))"

definition dispatch_result :: "(dispatch_error, 'r) result \<Rightarrow> (bags_error, 'r) result" where
  "dispatch_result r = (case r of Inr x \<Rightarrow> Inr x | Inl e \<Rightarrow> Inl (Dispatch_error e))"

definition rebag ::
  "nat list \<Rightarrow> nat \<Rightarrow> ('a \<Rightarrow> nat) \<Rightarrow> ('l \<Rightarrow> (dispatch_error, 'a) result) \<Rightarrow> 'a origin \<Rightarrow> 'l \<Rightarrow> 'a bags_list
     \<Rightarrow> (bags_error, unit) result \<times> 'a bags_list" where
  "rebag thresholds mx score lookup org dislocated s =
     attempt (dispatch_result (ensure_signed org), s) (\<lambda>_ s. attempt (dispatch_result (lookup dislocated), s) (\<lambda>dislocated s.
       list_result (do_rebag thresholds mx dislocated (score dislocated) s)))"

definition put_in_front_of ::
  "('a \<Rightarrow> nat) \<Rightarrow> ('l \<Rightarrow> (dispatch_error, 'a) result) \<Rightarrow> 'a origin \<Rightarrow> 'l \<Rightarrow> 'a bags_list
     \<Rightarrow> ((bags_error, unit) result \<times> 'a bags_list) option" where
  "put_in_front_of score lookup org lighter s =
     (case ensure_signed org of
        Inl e \<Rightarrow> Some (Inl (Dispatch_error e), s)
      | Inr heavier \<Rightarrow>
          (case lookup lighter of
             Inl e \<Rightarrow> Some (Inl (Dispatch_error e), s)
           | Inr lighter \<Rightarrow> map_option list_result (list_put_in_front_of score lighter heavier s)))"

definition put_in_front_of_other ::
  "('a \<Rightarrow> nat) \<Rightarrow> ('l \<Rightarrow> (dispatch_error, 'a) result) \<Rightarrow> 'a origin \<Rightarrow> 'l \<Rightarrow> 'l \<Rightarrow> 'a bags_list
     \<Rightarrow> ((bags_error, unit) result \<times> 'a bags_list) option" where
  "put_in_front_of_other score lookup org heavier lighter s =
     (case ensure_signed org of
        Inl e \<Rightarrow> Some (Inl (Dispatch_error e), s)
      | Inr _ \<Rightarrow>
          (case lookup lighter of
             Inl e \<Rightarrow> Some (Inl (Dispatch_error e), s)
           | Inr lighter \<Rightarrow>
               (case lookup heavier of
                  Inl e \<Rightarrow> Some (Inl (Dispatch_error e), s)
                | Inr heavier \<Rightarrow> map_option list_result (list_put_in_front_of score lighter heavier s))))"

text \<open>The interface of a sorted list: iteration, count and membership, and the hooks of the staking system.\<close>

definition sl_iter :: "nat list \<Rightarrow> nat \<Rightarrow> 'a bags_list \<Rightarrow> 'a list option" where
  "sl_iter thresholds mx s = map_option (map nd_id) (list_iter thresholds mx s)"

definition sl_count :: "'a bags_list \<Rightarrow> nat" where
  "sl_count s = CounterForListNodes s"

definition on_insert :: "nat list \<Rightarrow> nat \<Rightarrow> 'a \<Rightarrow> nat \<Rightarrow> 'a bags_list \<Rightarrow> (ListError, unit) result \<times> 'a bags_list" where
  "on_insert thresholds mx i score s = list_insert thresholds mx i score s"

definition on_update :: "nat list \<Rightarrow> nat \<Rightarrow> 'a \<Rightarrow> nat \<Rightarrow> 'a bags_list \<Rightarrow> (ListError, unit) result \<times> 'a bags_list" where
  "on_update thresholds mx i new_score s = attempt (do_rebag thresholds mx i new_score s) (\<lambda>_ s. (Inr (), s))"

definition on_remove :: "'a \<Rightarrow> 'a bags_list \<Rightarrow> (ListError, unit) result \<times> 'a bags_list" where
  "on_remove i s = list_remove i s"

text \<open>Hooks the interface derives from the others; scores saturate at their bounds.\<close>

definition on_increase :: "nat list \<Rightarrow> nat \<Rightarrow> 'a \<Rightarrow> nat \<Rightarrow> 'a bags_list \<Rightarrow> (ListError, unit) result \<times> 'a bags_list" where
  "on_increase thresholds mx i additional s =
     attempt (get_score s i, s) (\<lambda>old_score s. on_update thresholds mx i (min mx (old_score + additional)) s)"

definition on_decrease :: "nat list \<Rightarrow> nat \<Rightarrow> 'a \<Rightarrow> nat \<Rightarrow> 'a bags_list \<Rightarrow> (ListError, unit) result \<times> 'a bags_list" where
  "on_decrease thresholds mx i decreased s =
     attempt (get_score s i, s) (\<lambda>old_score s.
       let new_score = old_score - decreased
       in if new_score = 0 then on_remove i s else on_update thresholds mx i new_score s)"

text \<open>The pallet as a provider of scores: the score stored with the node.\<close>

definition provider_score :: "'a bags_list \<Rightarrow> 'a \<Rightarrow> nat" where
  "provider_score s i = (case node_get s i of Some n \<Rightarrow> nd_score n | None \<Rightarrow> 0)"

text \<open>The start-up check of the configuration.\<close>

definition integrity_test :: "nat list \<Rightarrow> bool" where
  "integrity_test thresholds \<longleftrightarrow> list_all (\<lambda>(a, b). b > a) (zip thresholds (tl thresholds))"

end
