(* ===== verification/Bags_Links.thy ===== *)
theory Bags_Links
  imports Bags_List
begin

text \<open>
  Doubly linked lists in the map of nodes: the links of a list of accounts, how they change when an
  account is taken out, appended or put in front of another, and what the storage operations of the
  bags list do to them.
\<close>

section \<open>The links of a list\<close>

definition hd_opt :: "'b list \<Rightarrow> 'b option" where
  "hd_opt xs = (case xs of [] \<Rightarrow> None | x # _ \<Rightarrow> Some x)"

fun next_of :: "'b list \<Rightarrow> 'b \<Rightarrow> 'b option" where
  "next_of [] i = None"
| "next_of (x # xs) i = (if x = i then hd_opt xs else next_of xs i)"

definition prev_of :: "'b list \<Rightarrow> 'b \<Rightarrow> 'b option" where
  "prev_of xs i = next_of (rev xs) i"

lemma hd_opt_simps [simp]: "hd_opt [] = None" "hd_opt (x # xs) = Some x"
  "hd_opt xs = None \<longleftrightarrow> xs = []" "hd_opt (xs @ ys) = (if xs = [] then hd_opt ys else hd_opt xs)"
  by (auto simp: hd_opt_def split: list.splits)

lemma next_of_notin [simp]: "i \<notin> set xs \<Longrightarrow> next_of xs i = None"
  by (induction xs) auto

lemma next_of_append: "next_of (xs @ ys) i =
    (if i \<in> set xs then (case next_of xs i of Some j \<Rightarrow> Some j | None \<Rightarrow> hd_opt ys) else next_of ys i)"
  if "distinct (xs @ ys)"
  using that by (induction xs) (auto simp: hd_opt_def split: list.splits)

lemma next_of_split: "distinct (as @ i # bs) \<Longrightarrow> next_of (as @ i # bs) i = hd_opt bs"
  by (subst next_of_append) auto

lemma next_of_Some: "distinct xs \<Longrightarrow> next_of xs i = Some j \<longleftrightarrow> (\<exists>as bs. xs = as @ i # j # bs)"
proof
  assume d: "distinct xs" and n: "next_of xs i = Some j"
  then have "i \<in> set xs" by (metis next_of_notin option.distinct(1))
  then obtain as bs where xs: "xs = as @ i # bs" by (meson split_list)
  then have "hd_opt bs = Some j" using n d next_of_split by metis
  then show "\<exists>as bs. xs = as @ i # j # bs" using xs by (cases bs) auto
next
  assume d: "distinct xs" and "\<exists>as bs. xs = as @ i # j # bs"
  then show "next_of xs i = Some j" using next_of_split [of _ i "j # _"] by (auto simp: next_of_split)
qed

lemma next_of_None: "distinct xs \<Longrightarrow> i \<in> set xs \<Longrightarrow> next_of xs i = None \<longleftrightarrow> hd_opt (rev xs) = Some i"
proof -
  assume d: "distinct xs" and "i \<in> set xs"
  then obtain as bs where xs: "xs = as @ i # bs" by (meson split_list)
  then show ?thesis using d by (cases bs rule: rev_cases) (auto simp: next_of_split next_of_append)
qed

lemma prev_of_Some: "distinct xs \<Longrightarrow> prev_of xs j = Some i \<longleftrightarrow> next_of xs i = Some j"
proof -
  assume d: "distinct xs"
  have "(\<exists>as bs. rev xs = as @ j # i # bs) \<longleftrightarrow> (\<exists>as bs. xs = as @ i # j # bs)"
  proof
    assume "\<exists>as bs. rev xs = as @ j # i # bs"
    then obtain as bs where "rev xs = as @ j # i # bs" by blast
    then have "xs = rev bs @ i # j # rev as" by (metis rev_rev_ident rev_append rev.simps(2) append.assoc append_Cons append_Nil)
    then show "\<exists>as bs. xs = as @ i # j # bs" by blast
  next
    assume "\<exists>as bs. xs = as @ i # j # bs"
    then obtain as bs where "xs = as @ i # j # bs" by blast
    then have "rev xs = rev bs @ j # i # rev as" by simp
    then show "\<exists>as bs. rev xs = as @ j # i # bs" by blast
  qed
  then show ?thesis using d by (simp add: prev_of_def next_of_Some)
qed

lemma prev_of_None: "distinct xs \<Longrightarrow> i \<in> set xs \<Longrightarrow> prev_of xs i = None \<longleftrightarrow> hd_opt xs = Some i"
  using next_of_None [of "rev xs" i] by (simp add: prev_of_def)

lemma prev_of_notin [simp]: "i \<notin> set xs \<Longrightarrow> prev_of xs i = None"
  by (simp add: prev_of_def)

lemma link_in: "distinct xs \<Longrightarrow> next_of xs i = Some j \<Longrightarrow> i \<in> set xs \<and> j \<in> set xs \<and> i \<noteq> j"
  by (auto simp: next_of_Some)

lemma next_of_remove1:
  assumes d: "distinct xs" and ne: "j \<noteq> i"
  shows "next_of (remove1 i xs) j = (if next_of xs j = Some i then next_of xs i else next_of xs j)"
proof (cases "i \<in> set xs")
  case True
  then obtain as bs where xs: "xs = as @ i # bs" by (meson split_list)
  then have r: "remove1 i xs = as @ bs" using d by (simp add: remove1_append)
  consider "j \<in> set as" | "j \<in> set bs" | "j \<notin> set as" "j \<notin> set bs" by blast
  then show ?thesis
  proof cases
    case 1
    then have "next_of as j \<noteq> Some i" using d xs link_in [of as j i] by auto
    then show ?thesis using 1 d ne unfolding r unfolding xs by (auto simp: next_of_append split: option.splits)
  next
    case 2
    then have "next_of bs j \<noteq> Some i" using d xs link_in [of bs j i] by auto
    then show ?thesis using 2 d ne unfolding r unfolding xs by (auto simp: next_of_append)
  next
    case 3
    then show ?thesis using d ne unfolding r unfolding xs by (auto simp: next_of_append)
  qed
next
  case False
  then show ?thesis using d link_in [of xs j i] by (auto simp: remove1_idem)
qed

lemma rev_remove1: "distinct xs \<Longrightarrow> rev (remove1 i xs) = remove1 i (rev xs)"
  by (simp add: distinct_remove1_removeAll removeAll_filter_not_eq rev_filter)

lemma prev_of_remove1:
  "distinct xs \<Longrightarrow> j \<noteq> i \<Longrightarrow> prev_of (remove1 i xs) j = (if prev_of xs j = Some i then prev_of xs i else prev_of xs j)"
  using next_of_remove1 [of "rev xs" j i] by (simp add: prev_of_def rev_remove1)

lemma next_of_snoc: "i \<notin> set xs \<Longrightarrow> distinct xs \<Longrightarrow>
    next_of (xs @ [i]) j = (if j \<in> set xs then (if hd_opt (rev xs) = Some j then Some i else next_of xs j) else None)"
  using next_of_None [of xs j] by (auto simp: next_of_append split: option.splits)

lemma prev_of_snoc: "i \<notin> set xs \<Longrightarrow> prev_of (xs @ [i]) j = (if j = i then hd_opt (rev xs) else prev_of xs j)"
  by (simp add: prev_of_def)

fun insert_before :: "'b \<Rightarrow> 'b \<Rightarrow> 'b list \<Rightarrow> 'b list" where
  "insert_before l h [] = []"
| "insert_before l h (x # xs) = (if x = l then h # x # xs else x # insert_before l h xs)"

lemma insert_before_split: "l \<notin> set as \<Longrightarrow> insert_before l h (as @ l # bs) = as @ h # l # bs"
  by (induction as) auto

lemma set_insert_before: "l \<in> set xs \<Longrightarrow> set (insert_before l h xs) = insert h (set xs)"
  by (induction xs) auto

lemma distinct_insert_before: "distinct xs \<Longrightarrow> h \<notin> set xs \<Longrightarrow> distinct (insert_before l h xs)"
proof (cases "l \<in> set xs")
  case True
  assume d: "distinct xs" and h: "h \<notin> set xs"
  obtain as bs where "xs = as @ l # bs" using True by (meson split_list)
  then show ?thesis using d h by (auto simp: insert_before_split)
next
  case False
  then have "insert_before l h xs = xs" by (induction xs) auto
  then show "distinct xs \<Longrightarrow> ?thesis" by simp
qed

lemma next_of_insert_before:
  assumes d: "distinct xs" and h: "h \<notin> set xs" and l: "l \<in> set xs"
  shows "next_of (insert_before l h xs) j = (if j = h then Some l else if next_of xs j = Some l then Some h else next_of xs j)"
proof -
  obtain as bs where xs: "xs = as @ l # bs" using l by (meson split_list)
  have i: "insert_before l h xs = as @ h # l # bs" using xs d by (auto simp: insert_before_split)
  have dd: "distinct (as @ h # l # bs)" using d h xs by auto
  consider "j \<in> set as" | "j = h" "j \<notin> set as" | "j = l" "j \<noteq> h" "j \<notin> set as" | "j \<notin> set as" "j \<noteq> h" "j \<noteq> l" by blast
  then show ?thesis
  proof cases
    case 1
    then have "next_of as j \<noteq> Some l" "j \<noteq> h" using d h xs link_in [of as j l] by auto
    then show ?thesis unfolding i next_of_append [OF dd] unfolding xs next_of_append [OF d [unfolded xs]]
      using 1 by (cases "next_of as j") simp_all
  next
    case 2
    then show ?thesis unfolding i next_of_append [OF dd] by simp
  next
    case 3
    then have "hd_opt bs \<noteq> Some l" using d xs by (cases bs) auto
    then show ?thesis using 3 unfolding i next_of_append [OF dd] unfolding xs next_of_append [OF d [unfolded xs]] by simp
  next
    case 4
    then have "next_of bs j \<noteq> Some l" using d xs link_in [of bs j l] by auto
    then show ?thesis using 4 unfolding i next_of_append [OF dd] unfolding xs next_of_append [OF d [unfolded xs]] by simp
  qed
qed

lemma option_eqI: "(\<And>k. x = Some k \<longleftrightarrow> y = Some k) \<Longrightarrow> x = y"
  by (cases x; cases y) auto

lemma prev_of_insert_before:
  assumes d: "distinct xs" and h: "h \<notin> set xs" and l: "l \<in> set xs"
  shows "prev_of (insert_before l h xs) j = (if j = l then Some h else if j = h then prev_of xs l else prev_of xs j)"
proof (rule option_eqI)
  fix k
  let ?ys = "insert_before l h xs"
  have dy: "distinct ?ys" by (rule distinct_insert_before [OF d h])
  have nl: "next_of xs k \<noteq> Some h" "next_of xs h = None" using link_in [OF d, of k h] h by auto
  have "prev_of ?ys j = Some k \<longleftrightarrow> next_of ?ys k = Some j" by (rule prev_of_Some [OF dy])
  also have "\<dots> \<longleftrightarrow> (if j = l then k = h else if j = h then next_of xs k = Some l else next_of xs k = Some j)"
    unfolding next_of_insert_before [OF d h l] using nl h l by auto
  also have "\<dots> \<longleftrightarrow> (if j = l then Some h else if j = h then prev_of xs l else prev_of xs j) = Some k"
    by (auto simp: prev_of_Some [OF d])
  finally show "prev_of ?ys j = Some k \<longleftrightarrow> (if j = l then Some h else if j = h then prev_of xs l else prev_of xs j) = Some k" .
qed

section \<open>Lists in the map of nodes\<close>

definition node_of :: "'a list \<Rightarrow> ('a \<Rightarrow> nat) \<Rightarrow> nat \<Rightarrow> 'a \<Rightarrow> 'a Node" where
  "node_of xs S u i = \<lparr>nd_id = i, nd_prev = prev_of xs i, nd_next = next_of xs i, nd_bag_upper = u, nd_score = S i\<rparr>"

definition bag_of :: "'a list \<Rightarrow> nat \<Rightarrow> 'a Bag" where
  "bag_of xs u = \<lparr>bg_head = hd_opt xs, bg_tail = hd_opt (rev xs), bg_upper = u\<rparr>"

text \<open>The nodes stored are those of the lists \<open>L\<close>, one per bag, with the scores \<open>S\<close>.\<close>

definition links :: "('a \<Rightarrow> 'a Node option) \<Rightarrow> (nat \<Rightarrow> 'a list) \<Rightarrow> ('a \<Rightarrow> nat) \<Rightarrow> bool" where
  "links m L S \<longleftrightarrow> (\<forall>u. distinct (L u)) \<and> (\<forall>u v. u \<noteq> v \<longrightarrow> set (L u) \<inter> set (L v) = {}) \<and>
     (\<forall>u. \<forall>i \<in> set (L u). m i = Some (node_of (L u) S u i)) \<and> (\<forall>i. (\<forall>u. i \<notin> set (L u)) \<longrightarrow> m i = None)"

lemma node_of_simps [simp]: "nd_id (node_of xs S u i) = i" "nd_prev (node_of xs S u i) = prev_of xs i"
  "nd_next (node_of xs S u i) = next_of xs i" "nd_bag_upper (node_of xs S u i) = u" "nd_score (node_of xs S u i) = S i"
  by (simp_all add: node_of_def)

lemma linksD:
  assumes "links m L S"
  shows "distinct (L u)" "i \<in> set (L u) \<Longrightarrow> m i = Some (node_of (L u) S u i)" "i \<in> set (L u) \<Longrightarrow> i \<in> set (L v) \<Longrightarrow> u = v"
    "m i = None \<longleftrightarrow> (\<forall>u. i \<notin> set (L u))" "m i = Some n \<Longrightarrow> i \<in> set (L (nd_bag_upper n)) \<and> n = node_of (L (nd_bag_upper n)) S (nd_bag_upper n) i"
proof -
  show "distinct (L u)" "i \<in> set (L u) \<Longrightarrow> m i = Some (node_of (L u) S u i)" "i \<in> set (L u) \<Longrightarrow> i \<in> set (L v) \<Longrightarrow> u = v"
    using assms by (auto simp: links_def)
  show none: "m i = None \<longleftrightarrow> (\<forall>u. i \<notin> set (L u))" using assms by (force simp: links_def)
  assume m: "m i = Some n"
  then obtain w where "i \<in> set (L w)" using none by auto
  then show "i \<in> set (L (nd_bag_upper n)) \<and> n = node_of (L (nd_bag_upper n)) S (nd_bag_upper n) i"
    using m assms by (auto simp: links_def)
qed

lemma put_fields [simp]:
  "ListNodes (node_put n s) = (ListNodes s)(nd_id n \<mapsto> n)" "ListBags (node_put n s) = ListBags s" "bags_events (node_put n s) = bags_events s"
  "ListNodes (bag_put b s) = ListNodes s" "bags_events (bag_put b s) = bags_events s" "CounterForListNodes (bag_put b s) = CounterForListNodes s"
  "ListBags (bag_put b s) = (ListBags s)(bg_upper b := (if bag_is_empty b then None else Some b))"
  "ListNodes (remove_from_storage_unchecked n s) = (ListNodes s)(nd_id n := None)"
  "ListBags (remove_from_storage_unchecked n s) = ListBags s" "bags_events (remove_from_storage_unchecked n s) = bags_events s"
  by (simp_all add: node_put_def nodes_insert_def bag_put_def remove_from_storage_unchecked_def nodes_remove_def)

text \<open>The counter is the number of nodes.\<close>

definition counted :: "'a bags_list \<Rightarrow> bool" where
  "counted s \<longleftrightarrow> finite (dom (ListNodes s)) \<and> CounterForListNodes s = card (dom (ListNodes s))"

lemma counted_put:
  assumes "counted s" "ListNodes s (nd_id n) \<noteq> None \<or> card (dom (ListNodes s)) < 2 ^ 32 - 1"
  shows "counted (node_put n s)"
proof (cases "ListNodes s (nd_id n)")
  case None
  then have "nd_id n \<notin> dom (ListNodes s)" by auto
  then show ?thesis using assms None by (simp add: counted_def node_put_def nodes_insert_def sat32_def)
next
  case (Some a)
  then have "insert (nd_id n) (dom (ListNodes s)) = dom (ListNodes s)" by auto
  then show ?thesis using assms Some by (simp add: counted_def node_put_def nodes_insert_def)
qed

lemma counted_remove: "counted s \<Longrightarrow> counted (remove_from_storage_unchecked n s)"
  by (auto simp: counted_def remove_from_storage_unchecked_def nodes_remove_def domIff card_Diff_singleton_if)

lemma counted_bag [simp]: "counted (bag_put b s) \<longleftrightarrow> counted s"
  by (simp add: counted_def)

section \<open>Taking a node out\<close>

lemma no_two_cycle:
  assumes d: "distinct xs" and n: "next_of xs i = Some j"
  shows "next_of xs j \<noteq> Some i"
proof -
  obtain as bs where xs: "xs = as @ i # j # bs" using n d by (auto simp: next_of_Some)
  have "next_of ((as @ [i]) @ j # bs) j = hd_opt bs" by (rule next_of_split) (use d xs in auto)
  moreover have "hd_opt bs \<noteq> Some i" using d xs by (cases bs) auto
  ultimately show ?thesis using xs by simp
qed

lemma node_of_remove1:
  assumes "distinct xs" "j \<noteq> i"
  shows "node_of (remove1 i xs) S u j = (node_of xs S u j)
    \<lparr>nd_prev := (if next_of xs i = Some j then prev_of xs i else prev_of xs j),
     nd_next := (if prev_of xs i = Some j then next_of xs i else next_of xs j)\<rparr>"
  using assms by (simp add: node_of_def next_of_remove1 prev_of_remove1 prev_of_Some)

lemma excise_links:
  assumes l: "links (ListNodes s) L S" and i: "i \<in> set (L u)"
    and n: "nd_id n = i" "nd_prev n = prev_of (L u) i" "nd_next n = next_of (L u) i"
  shows "ListNodes (excise n s) = (\<lambda>j. if j \<in> set (L u) \<and> j \<noteq> i then Some (node_of (remove1 i (L u)) S u j) else ListNodes s j)"
proof
  fix j
  let ?xs = "L u"
  have d: "distinct ?xs" by (rule linksD(1) [OF l])
  have m: "k \<in> set ?xs \<Longrightarrow> ListNodes s k = Some (node_of ?xs S u k)" for k using linksD(2) [OF l] by blast
  have pi: "k \<in> set ?xs \<and> k \<noteq> i" if "prev_of ?xs i = Some k" for k using link_in [OF d, of k i] that prev_of_Some [OF d] by auto
  have qi: "k \<in> set ?xs \<and> k \<noteq> i" if "next_of ?xs i = Some k" for k using link_in [OF d, of i k] that by auto
  have pq: "prev_of ?xs i = Some k \<Longrightarrow> next_of ?xs i \<noteq> Some k" for k using no_two_cycle [OF d, of k i] prev_of_Some [OF d, of i k] by simp
  have e: "ListNodes (excise n s) j =
      (if next_of ?xs i = Some j then Some ((node_of ?xs S u j)\<lparr>nd_prev := prev_of ?xs i\<rparr>)
       else if prev_of ?xs i = Some j then Some ((node_of ?xs S u j)\<lparr>nd_next := next_of ?xs i\<rparr>) else ListNodes s j)"
  proof -
    define s1 where "s1 = (case prev_of ?xs i of Some p \<Rightarrow> node_put ((node_of ?xs S u p)\<lparr>nd_next := next_of ?xs i\<rparr>) s | None \<Rightarrow> s)"
    have s1: "(case prev_node s n of Some prev \<Rightarrow> node_put (prev\<lparr>nd_next := nd_next n\<rparr>) s | None \<Rightarrow> s) = s1"
      using pi n by (cases "prev_of ?xs i") (simp_all add: s1_def prev_node_def node_get_def m)
    have m1: "ListNodes s1 k = (if prev_of ?xs i = Some k then Some ((node_of ?xs S u k)\<lparr>nd_next := next_of ?xs i\<rparr>) else ListNodes s k)" for k
      by (cases "prev_of ?xs i") (simp_all add: s1_def)
    show ?thesis
    proof (cases "next_of ?xs i")
      case None
      then show ?thesis using n unfolding excise_def Let_def s1 by (simp add: next_node_def m1)
    next
      case (Some q)
      then have "ListNodes s1 q = Some (node_of ?xs S u q)" using qi [of q] pq [of q] m [of q] unfolding m1 by auto
      then show ?thesis using n Some unfolding excise_def Let_def s1 by (simp add: next_node_def node_get_def m1)
    qed
  qed
  show "ListNodes (excise n s) j = (if j \<in> set ?xs \<and> j \<noteq> i then Some (node_of (remove1 i ?xs) S u j) else ListNodes s j)"
  proof (cases "j \<in> set ?xs \<and> j \<noteq> i")
    case True
    then have j: "node_of (remove1 i ?xs) S u j = (node_of ?xs S u j)
        \<lparr>nd_prev := (if next_of ?xs i = Some j then prev_of ?xs i else prev_of ?xs j),
         nd_next := (if prev_of ?xs i = Some j then next_of ?xs i else next_of ?xs j)\<rparr>" by (intro node_of_remove1 [OF d]) simp
    consider "next_of ?xs i = Some j" "prev_of ?xs i \<noteq> Some j" | "next_of ?xs i \<noteq> Some j" "prev_of ?xs i = Some j"
      | "next_of ?xs i \<noteq> Some j" "prev_of ?xs i \<noteq> Some j" using pq [of j] by blast
    then show ?thesis using True m [of j] unfolding e j by cases (simp_all add: node_of_def)
  next
    case False
    then have "next_of ?xs i \<noteq> Some j" "prev_of ?xs i \<noteq> Some j" using pi [of j] qi [of j] by blast+
    then show ?thesis unfolding e if_not_P [OF False] by simp
  qed
qed

lemma excise_frame [simp]: "ListBags (excise n s) = ListBags s" "bags_events (excise n s) = bags_events s"
  by (auto simp: excise_def Let_def split: option.splits)

text \<open>Every node is stored under its own name.\<close>

definition keyed :: "('a \<Rightarrow> 'a Node option) \<Rightarrow> bool" where
  "keyed m \<longleftrightarrow> (\<forall>i n. m i = Some n \<longrightarrow> nd_id n = i)"

lemma links_keyed: "links m L S \<Longrightarrow> keyed m"
  unfolding keyed_def using linksD(5) by (metis node_of_simps(1))

lemma keyed_put: "keyed m \<Longrightarrow> nd_id n = i \<Longrightarrow> keyed (m(i \<mapsto> n))"
  by (simp add: keyed_def)

lemma keyed_neighbours:
  assumes "keyed (ListNodes s)"
  shows "prev_node s n = Some k \<Longrightarrow> ListNodes s (nd_id k) = Some k" "next_node s n = Some k \<Longrightarrow> ListNodes s (nd_id k) = Some k"
    "bag_tail s b = Some k \<Longrightarrow> ListNodes s (nd_id k) = Some k"
  using assms by (auto simp: keyed_def prev_node_def next_node_def bag_tail_def node_get_def split: option.splits)

lemma counted_excise:
  assumes "counted s" "keyed (ListNodes s)"
  shows "counted (excise n s)"
proof -
  define s1 where "s1 = (case prev_node s n of Some prev \<Rightarrow> node_put (prev\<lparr>nd_next := nd_next n\<rparr>) s | None \<Rightarrow> s)"
  have "counted s1 \<and> keyed (ListNodes s1)"
    unfolding s1_def using assms keyed_neighbours(1) [OF assms(2), of n] by (cases "prev_node s n") (auto intro!: counted_put simp: keyed_put)
  then show ?thesis unfolding excise_def s1_def [symmetric] Let_def
    using keyed_neighbours(2) [of s1 n] by (cases "next_node s1 n") (auto intro!: counted_put)
qed

lemma remove_links:
  assumes l: "links (ListNodes s) L S" and i: "i \<in> set (L u)"
    and n: "nd_id n = i" "nd_prev n = prev_of (L u) i" "nd_next n = next_of (L u) i"
  shows "links ((ListNodes (excise n s))(i := None)) (L(u := remove1 i (L u))) S"
proof -
  have d: "distinct (L v)" for v by (rule linksD(1) [OF l])
  have dis: "v \<noteq> w \<Longrightarrow> set (L v) \<inter> set (L w) = {}" for v w using linksD(3) [OF l] by blast
  have st: "set (remove1 i (L u)) = set (L u) - {i}" using d by simp
  have out: "k \<in> set (L v) \<Longrightarrow> v \<noteq> u \<Longrightarrow> ListNodes s k = Some (node_of (L v) S v k) \<and> k \<notin> set (L u) \<and> k \<noteq> i" for k v
    using linksD(2) [OF l] dis [of v u] i by auto
  show ?thesis unfolding links_def excise_links [OF assms]
  proof (intro conjI allI impI ballI)
    fix v show "distinct ((L(u := remove1 i (L u))) v)" using d by simp
  next
    fix v w :: nat assume "v \<noteq> w"
    then show "set ((L(u := remove1 i (L u))) v) \<inter> set ((L(u := remove1 i (L u))) w) = {}" using dis [of v w] st by auto
  next
    fix v k assume "k \<in> set ((L(u := remove1 i (L u))) v)"
    then show "((\<lambda>j. if j \<in> set (L u) \<and> j \<noteq> i then Some (node_of (remove1 i (L u)) S u j) else ListNodes s j)(i := None)) k =
        Some (node_of ((L(u := remove1 i (L u))) v) S v k)"
      using st out by (cases "v = u") auto
  next
    fix k assume k: "\<forall>v. k \<notin> set ((L(u := remove1 i (L u))) v)"
    show "((\<lambda>j. if j \<in> set (L u) \<and> j \<noteq> i then Some (node_of (remove1 i (L u)) S u j) else ListNodes s j)(i := None)) k = None"
    proof (cases "k = i")
      case False
      then have "k \<notin> set (L u)" using k [rule_format, of u] st by auto
      moreover have "k \<notin> set (L v)" for v using k [rule_format, of v] calculation by (cases "v = u") auto
      ultimately show ?thesis using linksD(4) [OF l] False by simp
    qed simp
  qed
qed

section \<open>Appending a node\<close>

lemma node_of_snoc:
  assumes "distinct xs" "i \<notin> set xs" "j \<in> set xs"
  shows "node_of (xs @ [i]) S u j = (node_of xs S u j)\<lparr>nd_next := (if hd_opt (rev xs) = Some j then Some i else next_of xs j)\<rparr>"
proof -
  have "j \<noteq> i" using assms by auto
  then show ?thesis using assms by (simp add: node_of_def next_of_snoc prev_of_snoc)
qed

lemma node_of_cong: "S j = S' j \<Longrightarrow> node_of xs S u j = node_of xs S' u j"
  by (simp add: node_of_def)

lemma links_update:
  assumes l: "links (m(i := None)) L S" and ys: "distinct ys" "set ys = insert i (set (L u))"
    and m': "\<And>k. k \<in> set ys \<Longrightarrow> m' k = Some (node_of ys (S(i := sc)) u k)" "\<And>k. k \<notin> set ys \<Longrightarrow> m' k = m k"
  shows "links m' (L(u := ys)) (S(i := sc))"
proof -
  have d: "distinct (L v)" for v by (rule linksD(1) [OF l])
  have ni: "i \<notin> set (L v)" for v using linksD(4) [OF l, of i] by simp
  have dis: "v \<noteq> w \<Longrightarrow> set (L v) \<inter> set (L w) = {}" for v w using linksD(3) [OF l] by blast
  have m: "k \<in> set (L v) \<Longrightarrow> m k = Some (node_of (L v) S v k)" for k v
    using linksD(2) [OF l, of k v] ni [of v] by (cases "k = i") simp_all
  show ?thesis unfolding links_def
  proof (intro conjI allI impI ballI)
    fix v show "distinct ((L(u := ys)) v)" using d ys by simp
  next
    fix v w :: nat assume "v \<noteq> w"
    then show "set ((L(u := ys)) v) \<inter> set ((L(u := ys)) w) = {}" using dis [of v w] dis [of u w] dis [of v u] ni ys by auto
  next
    fix v k assume k: "k \<in> set ((L(u := ys)) v)"
    show "m' k = Some (node_of ((L(u := ys)) v) (S(i := sc)) v k)"
    proof (cases "v = u")
      case False
      then have kv: "k \<in> set (L v)" "k \<noteq> i" using k ni by auto
      then have "k \<notin> set ys" using dis [OF False] ys(2) by auto
      then show ?thesis using m'(2) m kv False by (simp add: node_of_cong [of S k "S(i := sc)"])
    qed (use k m'(1) in simp)
  next
    fix k assume k: "\<forall>v. k \<notin> set ((L(u := ys)) v)"
    have "k \<notin> set ys" using k [rule_format, of u] by simp
    moreover from this have "k \<noteq> i" "k \<notin> set (L u)" using ys(2) by auto
    moreover have "k \<notin> set (L v)" for v using k [rule_format, of v] \<open>k \<notin> set (L u)\<close> by (cases "v = u") auto
    ultimately show "m' k = None" using linksD(4) [OF l, of k] m'(2) by simp
  qed
qed

lemma links_append:
  assumes l: "links (m(i := None)) L S"
    and m': "\<And>j. m' j = (if j = i then Some (node_of (L u @ [i]) (S(i := sc)) u i)
        else if hd_opt (rev (L u)) = Some j then Some ((node_of (L u) S u j)\<lparr>nd_next := Some i\<rparr>) else m j)"
  shows "links m' (L(u := L u @ [i])) (S(i := sc))"
proof (rule links_update [OF l])
  have d: "distinct (L u)" by (rule linksD(1) [OF l])
  have ni: "i \<notin> set (L u)" using linksD(4) [OF l, of i] by simp
  show "distinct (L u @ [i])" "set (L u @ [i]) = insert i (set (L u))" using d ni by auto
  fix k
  have tl: "hd_opt (rev (L u)) = Some k \<Longrightarrow> k \<in> set (L u)" by (cases "L u" rule: rev_cases) auto
  show "m' k = m k" if "k \<notin> set (L u @ [i])" using that tl by (auto simp: m')
  assume k: "k \<in> set (L u @ [i])"
  show "m' k = Some (node_of (L u @ [i]) (S(i := sc)) u k)"
  proof (cases "k = i")
    case False
    then have kv: "k \<in> set (L u)" using k by auto
    then have mk: "m k = Some (node_of (L u) S u k)" using linksD(2) [OF l, of k u] False by simp
    have "node_of (L u @ [i]) (S(i := sc)) u k = (node_of (L u) S u k)\<lparr>nd_next := (if hd_opt (rev (L u)) = Some k then Some i else next_of (L u) k)\<rparr>"
      using node_of_snoc [OF d ni kv, of S u] False by (simp add: node_of_cong [of S k "S(i := sc)"])
    then show ?thesis using False mk by (simp add: m' node_of_def)
  qed (simp add: m')
qed

section \<open>Putting a node in front of another\<close>

lemma links_front:
  assumes l: "links (m(h := None)) L S" and li: "li \<in> set (L u)"
    and m': "\<And>j. m' j = (if j = h then Some (node_of (insert_before li h (L u)) (S(h := sc)) u h)
        else if j = li then Some ((node_of (L u) S u li)\<lparr>nd_prev := Some h\<rparr>)
        else if prev_of (L u) li = Some j then Some ((node_of (L u) S u j)\<lparr>nd_next := Some h\<rparr>) else m j)"
  shows "links m' (L(u := insert_before li h (L u))) (S(h := sc))"
proof (rule links_update [OF l])
  have d: "distinct (L u)" by (rule linksD(1) [OF l])
  have nh: "h \<notin> set (L u)" using linksD(4) [OF l, of h] by simp
  show "distinct (insert_before li h (L u))" by (rule distinct_insert_before [OF d nh])
  show st: "set (insert_before li h (L u)) = insert h (set (L u))" by (rule set_insert_before [OF li])
  fix k
  have pl: "prev_of (L u) li = Some k \<Longrightarrow> k \<in> set (L u) \<and> k \<noteq> li" using prev_of_Some [OF d, of li k] link_in [OF d, of k li] by auto
  show "m' k = m k" if "k \<notin> set (insert_before li h (L u))"
  proof -
    have "k \<noteq> h" "k \<notin> set (L u)" using that st by auto
    moreover from this have "k \<noteq> li" "prev_of (L u) li \<noteq> Some k" using li pl by auto
    ultimately show ?thesis by (simp add: m')
  qed
  assume k: "k \<in> set (insert_before li h (L u))"
  show "m' k = Some (node_of (insert_before li h (L u)) (S(h := sc)) u k)"
  proof (cases "k = h")
    case False
    then have kv: "k \<in> set (L u)" using k st by auto
    then have mk: "m k = Some (node_of (L u) S u k)" using linksD(2) [OF l, of k u] False by simp
    have "next_of (L u) k = Some li \<longleftrightarrow> prev_of (L u) li = Some k" using prev_of_Some [OF d, of li k] by simp
    then have "node_of (insert_before li h (L u)) (S(h := sc)) u k = (node_of (L u) S u k)
        \<lparr>nd_prev := (if k = li then Some h else prev_of (L u) k), nd_next := (if prev_of (L u) li = Some k then Some h else next_of (L u) k)\<rparr>"
      using False next_of_insert_before [OF d nh li, of k] prev_of_insert_before [OF d nh li, of k] by (simp add: node_of_def)
    moreover have "k = li \<Longrightarrow> prev_of (L u) li \<noteq> Some k" using pl by blast
    ultimately show ?thesis using False mk by (auto simp: m' node_of_def)
  qed (simp add: m')
qed

end
