(* ===== verification/Bags_Repr.thy ===== *)
theory Bags_Repr
  imports Bags_Links
begin

text \<open>
  The bags list as one list of accounts per bag: what each operation of the list does to these lists.
\<close>

section \<open>The representation\<close>

definition bags_repr :: "(nat \<Rightarrow> 'a Bag option) \<Rightarrow> (nat \<Rightarrow> 'a list) \<Rightarrow> bool" where
  "bags_repr B L \<longleftrightarrow> (\<forall>u. B u = (if L u = [] then None else Some (bag_of (L u) u)))"

definition repr :: "'a bags_list \<Rightarrow> (nat \<Rightarrow> 'a list) \<Rightarrow> ('a \<Rightarrow> nat) \<Rightarrow> bool" where
  "repr s L S \<longleftrightarrow> links (ListNodes s) L S \<and> bags_repr (ListBags s) L \<and> counted s"

lemma reprD: "repr s L S \<Longrightarrow> links (ListNodes s) L S" "repr s L S \<Longrightarrow> bags_repr (ListBags s) L" "repr s L S \<Longrightarrow> counted s"
  by (simp_all add: repr_def)

lemma bag_of_simps [simp]: "bg_head (bag_of xs u) = hd_opt xs" "bg_tail (bag_of xs u) = hd_opt (rev xs)" "bg_upper (bag_of xs u) = u"
  "bag_is_empty (bag_of xs u) \<longleftrightarrow> xs = []"
  by (auto simp: bag_of_def bag_is_empty_def)

lemma bag_get_repr: "bags_repr (ListBags s) L \<Longrightarrow> bag_get s u = (if L u = [] then None else Some (bag_of (L u) u))"
  by (simp add: bags_repr_def bag_get_def bag_of_def)

lemma bag_get_or_make_repr: "bags_repr (ListBags s) L \<Longrightarrow> bag_get_or_make s u = bag_of (L u) u"
  by (simp add: bag_get_or_make_def bag_get_repr bag_of_def)

lemma bag_put_repr:
  assumes "bags_repr (ListBags s) L" "\<And>v. v \<noteq> u \<Longrightarrow> L' v = L v"
  shows "bags_repr (ListBags (bag_put (bag_of (L' u) u) s)) L'"
  using assms by (auto simp: bags_repr_def)

section \<open>Iteration\<close>

lemma successors_suffix:
  assumes l: "links (ListNodes s) L S" and xs: "L u = as @ ys"
  shows "successors s (case hd_opt ys of Some i \<Rightarrow> node_get s i | None \<Rightarrow> None) = Some (map (node_of (L u) S u) ys)"
  using xs
proof (induction ys arbitrary: as)
  case Nil
  then show ?case by (simp add: successors.simps)
next
  case (Cons y ys)
  have d: "distinct (as @ y # ys)" using linksD(1) [OF l, of u] Cons.prems by simp
  have y: "ListNodes s y = Some (node_of (L u) S u y)" using linksD(2) [OF l, of y u] Cons.prems by simp
  have "next_of (L u) y = hd_opt ys" unfolding Cons.prems by (rule next_of_split [OF d])
  then have "next_node s (node_of (L u) S u y) = (case hd_opt ys of Some i \<Rightarrow> node_get s i | None \<Rightarrow> None)" by (simp add: next_node_def)
  then show ?case using Cons.IH [of "as @ [y]"] Cons.prems y by (simp add: successors.simps [of s "Some _"] node_get_def)
qed

lemma bag_iter_repr:
  assumes "links (ListNodes s) L S"
  shows "bag_iter s (bag_of (L u) u) = Some (map (node_of (L u) S u) (L u))"
  using successors_suffix [OF assms, of u "[]" "L u"] by (simp add: bag_iter_def bag_head_def)

lemma iter_bags_repr:
  assumes "links (ListNodes s) L S" "bags_repr (ListBags s) L"
  shows "iter_bags s ts = Some (concat (map (\<lambda>u. map (node_of (L u) S u) (L u)) ts))"
  by (induction ts) (simp_all add: bag_get_repr [OF assms(2)] bag_iter_repr [OF assms(1)])

section \<open>Inserting\<close>

lemma insert_node_unchecked_ok:
  assumes l: "links ((ListNodes s)(i := None)) L S" and n: "nd_id n = i" "nd_score n = sc"
    and c: "counted s" "ListNodes s i \<noteq> None \<or> card (dom (ListNodes s)) < 2 ^ 32 - 1"
  shows "\<exists>s'. insert_node_unchecked (bag_of (L u) u) n s = (bag_of (L u @ [i]) u, s') \<and>
    links (ListNodes s') (L(u := L u @ [i])) (S(i := sc)) \<and> ListBags s' = ListBags s \<and> bags_events s' = bags_events s \<and> counted s'"
proof -
  let ?xs = "L u"
  have d: "distinct ?xs" by (rule linksD(1) [OF l])
  have ni: "i \<notin> set ?xs" using linksD(4) [OF l, of i] by simp
  define n' where "n' = n\<lparr>nd_bag_upper := u, nd_prev := hd_opt (rev ?xs), nd_next := None\<rparr>"
  have n': "n' = node_of (?xs @ [i]) (S(i := sc)) u i"
    using n ni d by (simp add: n'_def node_of_def prev_of_snoc next_of_snoc)
  define s1 where "s1 = node_put n' s"
  have c1: "counted s1" unfolding s1_def using c n by (intro counted_put) (auto simp: n'_def)
  have tl: "k \<in> set ?xs \<and> k \<noteq> i" if "hd_opt (rev ?xs) = Some k" for k using that ni by (cases ?xs rule: rev_cases) auto
  define s2 where "s2 = (case bag_tail s1 (bag_of ?xs u) of Some old_tail \<Rightarrow> node_put (old_tail\<lparr>nd_next := Some i\<rparr>) s1 | None \<Rightarrow> s1)"
  have m: "k \<in> set ?xs \<Longrightarrow> ListNodes s1 k = Some (node_of ?xs S u k)" for k
    using linksD(2) [OF l, of k u] ni by (cases "k = i") (simp_all add: s1_def n')
  have bt: "bag_tail s1 (bag_of ?xs u) = map_option (node_of ?xs S u) (hd_opt (rev ?xs))"
    using tl m by (cases "hd_opt (rev ?xs)") (simp_all add: bag_tail_def node_get_def)
  have nt: "hd_opt (rev ?xs) \<noteq> Some i" using tl by blast
  have run: "insert_node_unchecked (bag_of ?xs u) n s = (bag_of (?xs @ [i]) u, s2)"
    using nt n by (simp add: insert_node_unchecked_def Let_def s2_def s1_def n'_def bag_of_def cong: option.case_cong)
  have ln: "ListNodes s2 j = (if j = i then Some (node_of (?xs @ [i]) (S(i := sc)) u i)
        else if hd_opt (rev ?xs) = Some j then Some ((node_of ?xs S u j)\<lparr>nd_next := Some i\<rparr>) else ListNodes s j)" for j
    using tl unfolding s2_def bt by (cases "hd_opt (rev ?xs)") (auto simp: s1_def n')
  have "links (ListNodes s2) (L(u := ?xs @ [i])) (S(i := sc))" by (rule links_append [OF l ln])
  moreover have "counted s2" unfolding s2_def bt using c1 m tl by (cases "hd_opt (rev ?xs)") (auto intro!: counted_put)
  moreover have "ListBags s2 = ListBags s" "bags_events s2 = bags_events s" unfolding s2_def s1_def by (auto split: option.splits)
  ultimately show ?thesis using run by blast
qed

lemma list_insert_duplicate: "repr s L S \<Longrightarrow> i \<in> set (L u) \<Longrightarrow> list_insert ts mx i sc s = (Inl Duplicate, s)"
  using linksD(2) [OF reprD(1), of s L S i u] by (simp add: list_insert_def list_contains_def)

lemma list_insert_ok:
  assumes r: "repr s L S" and i: "\<And>u. i \<notin> set (L u)" and c: "card (dom (ListNodes s)) < 2 ^ 32 - 1"
  shows "\<exists>s'. list_insert ts mx i sc s = (Inr (), s') \<and> bags_events s' = bags_events s \<and>
    repr s' (L(notional_bag_for ts mx sc := L (notional_bag_for ts mx sc) @ [i])) (S(i := sc))"
proof -
  let ?u = "notional_bag_for ts mx sc" and ?n = "\<lparr>nd_id = i, nd_prev = None, nd_next = None, nd_bag_upper = 0, nd_score = sc\<rparr>"
  have m: "ListNodes s i = None" using linksD(4) [OF reprD(1) [OF r]] i by simp
  then have l: "links ((ListNodes s)(i := None)) L S" using reprD(1) [OF r] by (simp add: fun_upd_idem)
  obtain s' where s': "insert_node_unchecked (bag_of (L ?u) ?u) ?n s = (bag_of (L ?u @ [i]) ?u, s')"
    "links (ListNodes s') (L(?u := L ?u @ [i])) (S(i := sc))" "ListBags s' = ListBags s" "bags_events s' = bags_events s" "counted s'"
    using insert_node_unchecked_ok [OF l, of ?n sc ?u] reprD(3) [OF r] c by auto
  have "bags_repr (ListBags (bag_put (bag_of (L ?u @ [i]) ?u) s')) (L(?u := L ?u @ [i]))"
    using reprD(2) [OF r] s'(3) by (simp add: bags_repr_def)
  moreover have "list_insert ts mx i sc s = (Inr (), bag_put (bag_of (L ?u @ [i]) ?u) s')"
    using m s'(1) by (simp add: list_insert_def list_contains_def insert_unchecked_def bag_get_or_make_repr [OF reprD(2) [OF r]] Let_def)
  ultimately show ?thesis using s' by (simp add: repr_def)
qed

section \<open>Removing\<close>

lemma hd_opt_remove1: "distinct xs \<Longrightarrow> hd_opt (remove1 i xs) = (if hd_opt xs = Some i then next_of xs i else hd_opt xs)"
  by (cases xs) auto

lemma bag_of_remove1:
  assumes "distinct xs"
  shows "bag_of (remove1 i xs) u = \<lparr>bg_head = (if hd_opt xs = Some i then next_of xs i else hd_opt xs),
    bg_tail = (if hd_opt (rev xs) = Some i then prev_of xs i else hd_opt (rev xs)), bg_upper = u\<rparr>"
  using assms hd_opt_remove1 [of "rev xs" i] by (simp add: bag_of_def hd_opt_remove1 rev_remove1 prev_of_def)

lemma remove_node_unchecked_ok:
  assumes "distinct xs" "nd_id n = i" "nd_prev n = prev_of xs i" "nd_next n = next_of xs i"
  shows "remove_node_unchecked (bag_of xs u) n s = (bag_of (remove1 i xs) u, excise n s)"
  using assms by (simp add: remove_node_unchecked_def Let_def bag_of_remove1)

lemma inner_bag:
  assumes "distinct xs" "i \<in> set xs" "prev_of xs i \<noteq> None" "next_of xs i \<noteq> None"
  shows "bag_of (remove1 i xs) u = bag_of xs u" "remove1 i xs \<noteq> []"
proof -
  have h: "hd_opt xs \<noteq> Some i" "hd_opt (rev xs) \<noteq> Some i" using assms prev_of_None [of xs i] next_of_None [of xs i] by auto
  then show "bag_of (remove1 i xs) u = bag_of xs u" using assms(1) by (simp add: bag_of_remove1)
  then have "hd_opt (remove1 i xs) = hd_opt xs" by (simp add: bag_of_def)
  then show "remove1 i xs \<noteq> []" using assms(2) by (cases xs) auto
qed

text \<open>While ids are removed, the bags in memory stand for those in storage.\<close>

definition removing :: "'a bags_list \<Rightarrow> (nat \<Rightarrow> 'a Bag option) \<Rightarrow> nat list \<Rightarrow> (nat \<Rightarrow> 'a list) \<Rightarrow> ('a \<Rightarrow> nat) \<Rightarrow> bool" where
  "removing s bags keys L S \<longleftrightarrow> links (ListNodes s) L S \<and> counted s \<and> set keys = dom bags \<and>
     (\<forall>u. case bags u of Some b \<Rightarrow> b = bag_of (L u) u | None \<Rightarrow> ListBags s u = (if L u = [] then None else Some (bag_of (L u) u)))"

lemma remove_others:
  assumes "links m L S" "i \<in> set (L u)"
  shows "L(u := remove1 i (L u)) = (\<lambda>v. remove1 i (L v))"
proof
  fix v show "(L(u := remove1 i (L u))) v = remove1 i (L v)"
    using linksD(3) [OF assms, of v] by (cases "v = u") (simp, metis fun_upd_other remove1_idem)
qed

lemma remove_loop_ok:
  assumes "removing s bags keys L S" "remove_loop ids bags keys n s = (bags', keys', n', s')"
  shows "removing s' bags' keys' (\<lambda>u. filter (\<lambda>i. i \<notin> set ids) (L u)) S \<and> bags_events s' = bags_events s"
  using assms
proof (induction ids arbitrary: s bags keys L n)
  case Nil
  then show ?case by simp
next
  case (Cons i ids)
  have l: "links (ListNodes s) L S" and c: "counted s" and k: "set keys = dom bags"
    and b: "\<And>u. case bags u of Some b \<Rightarrow> b = bag_of (L u) u | None \<Rightarrow> ListBags s u = (if L u = [] then None else Some (bag_of (L u) u))"
    using Cons.prems(1) by (auto simp: removing_def)
  have d: "distinct (L u)" for u by (rule linksD(1) [OF l])
  show ?case
  proof (cases "ListNodes s i")
    case None
    then have "i \<notin> set (L u)" for u using linksD(4) [OF l, of i] by simp
    then have "filter (\<lambda>j. j \<notin> set (i # ids)) (L u) = filter (\<lambda>j. j \<notin> set ids) (L u)" for u by (intro filter_cong) auto
    moreover have "remove_loop ids bags keys n s = (bags', keys', n', s')" using Cons.prems(2) None by (simp add: node_get_def)
    ultimately show ?thesis using Cons.IH [OF Cons.prems(1)] by simp
  next
    case (Some nd)
    then obtain u where i: "i \<in> set (L u)" and nd: "nd = node_of (L u) S u i" using linksD(5) [OF l Some] by blast
    have n: "nd_id nd = i" "nd_prev nd = prev_of (L u) i" "nd_next nd = next_of (L u) i" "nd_bag_upper nd = u" using nd by simp_all
    let ?s = "remove_from_storage_unchecked nd (excise nd s)" and ?L = "\<lambda>w. remove1 i (L w)"
    have l': "links (ListNodes ?s) ?L S" using remove_links [OF l i n(1-3)] by (simp add: n(1) remove_others [OF l i])
    have c': "counted ?s" by (rule counted_remove [OF counted_excise [OF c links_keyed [OF l]]])
    have f: "filter (\<lambda>j. j \<notin> set ids) (?L w) = filter (\<lambda>j. j \<notin> set (i # ids)) (L w)" for w
      using d [of w] by (auto simp: distinct_remove1_removeAll removeAll_filter_not_eq intro!: filter_cong)
    have other: "w \<noteq> u \<Longrightarrow> remove1 i (L w) = L w" for w using linksD(3) [OF l i, of w] by (metis remove1_idem)
    show ?thesis
    proof (cases "is_terminal nd")
      case False
      then have e: "bag_of (?L u) u = bag_of (L u) u" "?L u \<noteq> []" "L u \<noteq> []" using inner_bag [OF d i] n i by (auto simp: is_terminal_def)
      have "case bags w of Some b \<Rightarrow> b = bag_of (?L w) w | None \<Rightarrow> ListBags ?s w = (if ?L w = [] then None else Some (bag_of (?L w) w))" for w
        using b [of w] other [of w] e by (cases "w = u") (simp_all split: option.splits)
      then have "removing ?s bags keys ?L S" using l' c' k by (simp add: removing_def)
      moreover have "remove_loop ids bags keys (n + 1) ?s = (bags', keys', n', s')" using Cons.prems(2) Some False by (simp add: node_get_def)
      ultimately show ?thesis using Cons.IH [of ?s bags keys ?L] f by simp
    next
      case True
      define b0 where "b0 = (case bags u of Some b \<Rightarrow> b | None \<Rightarrow> bag_get_or_make s u)"
      have b0: "b0 = bag_of (L u) u"
        using b [of u] by (auto simp: b0_def bag_get_or_make_def bag_get_def bag_of_def split: option.splits if_splits)
      have r: "remove_node_unchecked b0 nd s = (bag_of (?L u) u, excise nd s)" unfolding b0 by (rule remove_node_unchecked_ok [OF d n(1-3)])
      let ?bags = "bags(u \<mapsto> bag_of (?L u) u)" and ?keys = "if bags u = None then insort u keys else keys"
      have "case ?bags w of Some b \<Rightarrow> b = bag_of (?L w) w | None \<Rightarrow> ListBags ?s w = (if ?L w = [] then None else Some (bag_of (?L w) w))" for w
        using b [of w] other [of w] by (cases "w = u") (simp_all split: option.splits)
      moreover have "set ?keys = dom ?bags" using k by (auto simp: set_insort_key)
      ultimately have "removing ?s ?bags ?keys ?L S" using l' c' by (simp add: removing_def)
      moreover have "remove_loop ids ?bags ?keys (n + 1) ?s = (bags', keys', n', s')"
        using Cons.prems(2) Some True r n(4) by (simp add: node_get_def b0_def [symmetric] Let_def)
      ultimately have "removing s' bags' keys' (\<lambda>w. filter (\<lambda>j. j \<notin> set ids) (?L w)) S \<and> bags_events s' = bags_events ?s"
        by (rule Cons.IH)
      then show ?thesis using f by simp
    qed
  qed
qed

lemma put_bags:
  assumes "\<And>u. u \<in> set keys \<Longrightarrow> bags u = Some (bag_of (L u) u)"
    and "s' = fold (\<lambda>u s. case bags u of Some b \<Rightarrow> bag_put b s | None \<Rightarrow> s) keys s"
  shows "ListNodes s' = ListNodes s \<and> CounterForListNodes s' = CounterForListNodes s \<and> bags_events s' = bags_events s \<and>
    ListBags s' = (\<lambda>u. if u \<in> set keys then if L u = [] then None else Some (bag_of (L u) u) else ListBags s u)"
  using assms by (induction keys arbitrary: s) (auto simp: fun_eq_iff)

lemma remove_many_ok:
  assumes r: "repr s L S"
  shows "repr (snd (remove_many ids s)) (\<lambda>u. filter (\<lambda>i. i \<notin> set ids) (L u)) S \<and> bags_events (snd (remove_many ids s)) = bags_events s"
proof -
  let ?L = "\<lambda>u. filter (\<lambda>i. i \<notin> set ids) (L u)"
  obtain bags keys n s1 where e: "remove_loop ids Map.empty [] 0 s = (bags, keys, n, s1)" by (metis prod_cases4)
  have "removing s Map.empty [] L S" using r by (simp add: removing_def repr_def bags_repr_def)
  then have r1: "removing s1 bags keys ?L S" and ev: "bags_events s1 = bags_events s" using remove_loop_ok e by blast+
  define s2 where "s2 = fold (\<lambda>u s. case bags u of Some b \<Rightarrow> bag_put b s | None \<Rightarrow> s) keys s1"
  have b: "case bags u of Some b \<Rightarrow> b = bag_of (?L u) u | None \<Rightarrow> ListBags s1 u = (if ?L u = [] then None else Some (bag_of (?L u) u))"
    and k: "set keys = dom bags" for u using r1 unfolding removing_def by blast+
  have "u \<in> set keys \<Longrightarrow> bags u = Some (bag_of (?L u) u)" for u using b [of u] k by (auto split: option.splits)
  from put_bags [of keys bags ?L, OF this s2_def]
  have f: "ListNodes s2 = ListNodes s1" "CounterForListNodes s2 = CounterForListNodes s1" "bags_events s2 = bags_events s1"
    "ListBags s2 u = (if u \<in> set keys then if ?L u = [] then None else Some (bag_of (?L u) u) else ListBags s1 u)" for u by simp_all
  have "ListBags s2 u = (if ?L u = [] then None else Some (bag_of (?L u) u))" for u
    using b [of u] k by (cases "bags u") (auto simp: f(4) domIff)
  then have "repr s2 ?L S" using r1 f by (simp add: repr_def bags_repr_def removing_def counted_def)
  moreover have "snd (remove_many ids s) = s2" by (simp add: remove_many_def e s2_def)
  ultimately show ?thesis using ev f by simp
qed

lemma list_remove_absent: "repr s L S \<Longrightarrow> (\<And>u. i \<notin> set (L u)) \<Longrightarrow> list_remove i s = (Inl NodeNotFound, s)"
  using linksD(4) [OF reprD(1), of s L S i] by (simp add: list_remove_def list_contains_def)

lemma list_remove_ok:
  assumes r: "repr s L S" and i: "i \<in> set (L u)"
  shows "\<exists>s'. list_remove i s = (Inr (), s') \<and> repr s' (L(u := remove1 i (L u))) S \<and> bags_events s' = bags_events s"
proof -
  have "filter (\<lambda>j. j \<notin> set [i]) (L w) = remove1 i (L w)" for w
    using linksD(1) [OF reprD(1) [OF r], of w] by (auto simp: distinct_remove1_removeAll removeAll_filter_not_eq intro!: filter_cong)
  then have "(\<lambda>w. filter (\<lambda>j. j \<notin> set [i]) (L w)) = L(u := remove1 i (L u))" using remove_others [OF reprD(1) [OF r] i] by simp
  then have "repr (snd (remove_many [i] s)) (L(u := remove1 i (L u))) S \<and> bags_events (snd (remove_many [i] s)) = bags_events s"
    using remove_many_ok [OF r, of "[i]"] by simp
  then show ?thesis using linksD(2) [OF reprD(1) [OF r] i] by (simp add: list_remove_def list_contains_def)
qed

section \<open>Updating a score\<close>

lemma links_score:
  assumes l: "links m L S" and i: "i \<in> set (L u)"
  shows "links (m(i \<mapsto> node_of (L u) (S(i := sc)) u i)) L (S(i := sc))"
proof -
  have "(m(i \<mapsto> node_of (L u) (S(i := sc)) u i)) j = Some (node_of (L w) (S(i := sc)) w j)" if j: "j \<in> set (L w)" for w j
  proof (cases "j = i")
    case True
    then have "w = u" using linksD(3) [OF l i] j by metis
    then show ?thesis using True by simp
  next
    case False
    then show ?thesis using linksD(2) [OF l j] node_of_cong [of S j "S(i := sc)" "L w" w] by simp
  qed
  then show ?thesis using l i by (auto simp: links_def)
qed

lemma update_in_place:
  assumes r: "repr s L S" and i: "i \<in> set (L u)" and u: "notional_bag_for ts mx sc = u"
  shows "\<exists>s'. update_position_for ts mx (node_of (L u) S u i) sc s = (None, s') \<and> repr s' L (S(i := sc)) \<and> bags_events s' = bags_events s"
proof -
  let ?n = "node_of (L u) (S(i := sc)) u i"
  have n: "(node_of (L u) S u i)\<lparr>nd_score := sc\<rparr> = ?n" by (simp add: node_of_def)
  have m: "ListNodes s i \<noteq> None" using linksD(2) [OF reprD(1) [OF r] i] by simp
  have "counted (node_put ?n s)" using reprD(3) [OF r] m by (intro counted_put) auto
  then have "repr (node_put ?n s) L (S(i := sc))" using r links_score [OF reprD(1) [OF r] i] by (simp add: repr_def)
  then show ?thesis using u by (simp add: update_position_for_def n is_misplaced_def)
qed

lemma update_moves:
  assumes r: "repr s L S" and i: "i \<in> set (L u)" and v: "notional_bag_for ts mx sc = v" "v \<noteq> u"
  shows "\<exists>s'. update_position_for ts mx (node_of (L u) S u i) sc s = (Some (u, v), s') \<and>
    repr s' (L(u := remove1 i (L u), v := L v @ [i])) (S(i := sc)) \<and> bags_events s' = bags_events s"
proof -
  define n where "n = (node_of (L u) S u i)\<lparr>nd_score := sc\<rparr>"
  have n: "nd_id n = i" "nd_prev n = prev_of (L u) i" "nd_next n = next_of (L u) i" "nd_bag_upper n = u" "nd_score n = sc" by (simp_all add: n_def)
  let ?L = "L(u := remove1 i (L u))"
  have l: "links (ListNodes s) L S" and d: "distinct (L u)" using reprD(1) [OF r] linksD(1) by blast+
  have b: "bags_repr (ListBags s) L" by (rule reprD(2) [OF r])
  define s1 where "s1 = (if \<not> is_terminal n then excise n s
      else (case bag_get s u of Some b \<Rightarrow> (let (b, s) = remove_node_unchecked b n s in bag_put b s) | None \<Rightarrow> s))"
  have t: "s1 = bag_put (bag_of (remove1 i (L u)) u) (excise n s)" if "is_terminal n"
    using that i remove_node_unchecked_ok [OF d n(1-3)] by (auto simp: s1_def bag_get_repr [OF b])
  have m1: "ListNodes s1 = ListNodes (excise n s)" and e1: "bags_events s1 = bags_events s" and c1: "counted s1"
    using t counted_excise [OF reprD(3) [OF r] links_keyed [OF l]] by (cases "is_terminal n"; simp add: s1_def)+
  have b1: "bags_repr (ListBags s1) ?L"
  proof (cases "is_terminal n")
    case True
    then show ?thesis using t b by (simp add: bags_repr_def)
  next
    case False
    then show ?thesis using b inner_bag [OF d i] n i by (auto simp: s1_def bags_repr_def is_terminal_def)
  qed
  have l1: "links ((ListNodes s1)(i := None)) ?L S" unfolding m1 by (rule remove_links [OF l i n(1-3)])
  have "ListNodes s1 i \<noteq> None" unfolding m1 excise_links [OF l i n(1-3)] using linksD(2) [OF l i] by simp
  then obtain s2 where s2: "insert_node_unchecked (bag_of (?L v) v) n s1 = (bag_of (?L v @ [i]) v, s2)"
    "links (ListNodes s2) (?L(v := ?L v @ [i])) (S(i := sc))" "ListBags s2 = ListBags s1" "bags_events s2 = bags_events s1" "counted s2"
    using insert_node_unchecked_ok [OF l1 n(1,5) c1, of v] by blast
  have "bags_repr (ListBags (bag_put (bag_of (?L v @ [i]) v) s2)) (?L(v := ?L v @ [i]))" using b1 s2(3) by (simp add: bags_repr_def)
  then have "repr (bag_put (bag_of (?L v @ [i]) v) s2) (?L(v := ?L v @ [i])) (S(i := sc))" using s2 by (simp add: repr_def)
  moreover have run: "update_position_for ts mx (node_of (L u) S u i) sc s =
      (let (b, s) = insert_node_unchecked (bag_get_or_make s1 v) n s1 in (Some (u, v), bag_put b s))"
    using v n by (simp add: update_position_for_def n_def [symmetric] is_misplaced_def s1_def Let_def)
  have "update_position_for ts mx (node_of (L u) S u i) sc s = (Some (u, v), bag_put (bag_of (?L v @ [i]) v) s2)"
    unfolding run bag_get_or_make_repr [OF b1] s2(1) by simp
  ultimately show ?thesis using v s2 e1 by simp
qed

section \<open>Putting an account in front of another\<close>

lemma bag_of_insert_before:
  assumes "distinct xs" "li \<in> set xs"
  shows "bag_of (insert_before li h xs) u = (if prev_of xs li = None then (bag_of xs u)\<lparr>bg_head := Some h\<rparr> else bag_of xs u)"
    "insert_before li h xs \<noteq> []"
proof -
  obtain as bs where xs: "xs = as @ li # bs" "li \<notin> set as" using assms by (metis distinct_append disjoint_iff list.set_intros(1) split_list)
  have "prev_of xs li = hd_opt (rev as)" using assms(1) unfolding xs(1) prev_of_def using next_of_split [of "rev bs" li "rev as"] by auto
  then show "bag_of (insert_before li h xs) u = (if prev_of xs li = None then (bag_of xs u)\<lparr>bg_head := Some h\<rparr> else bag_of xs u)"
    using xs by (simp add: bag_of_def insert_before_split)
  show "insert_before li h xs \<noteq> []" using xs by (simp add: insert_before_split)
qed

lemma insert_at_unchecked_ok:
  assumes r: "repr s L S" and li: "li \<in> set (L u)" and h: "ListNodes s h = None" "nd_id n = h" "nd_bag_upper n = u" "nd_score n = S h"
    and c: "card (dom (ListNodes s)) < 2 ^ 32 - 1"
  shows "\<exists>s'. insert_at_unchecked (node_of (L u) S u li) n s = Some s' \<and> repr s' (L(u := insert_before li h (L u))) S \<and> bags_events s' = bags_events s"
proof -
  let ?xs = "L u" and ?ys = "insert_before li h (L u)"
  have l: "links (ListNodes s) L S" and b: "bags_repr (ListBags s) L" using reprD [OF r] by blast+
  have d: "distinct ?xs" by (rule linksD(1) [OF l])
  have nh: "h \<notin> set (L w)" for w using linksD(4) [OF l, of h] h(1) by simp
  have hl: "h \<noteq> li" using nh li by blast
  define n' where "n' = n\<lparr>nd_prev := prev_of ?xs li, nd_next := Some li\<rparr>"
  have n': "n' = node_of ?ys S u h" "is_terminal n' \<longleftrightarrow> prev_of ?xs li = None"
    using h hl by (simp_all add: n'_def node_of_def next_of_insert_before [OF d nh li] prev_of_insert_before [OF d nh li] is_terminal_def)
  have pr: "k \<in> set ?xs \<and> k \<noteq> li" if "prev_of ?xs li = Some k" for k
    using that d link_in no_two_cycle prev_of_Some by metis
  define s1 where "s1 = (case prev_of ?xs li of Some k \<Rightarrow> node_put ((node_of ?xs S u k)\<lparr>nd_next := Some h\<rparr>) s | None \<Rightarrow> s)"
  have c1: "counted s1" "ListBags s1 = ListBags s" "bags_events s1 = bags_events s" "dom (ListNodes s1) = dom (ListNodes s)"
    using pr linksD(2) [OF l, of _ u] reprD(3) [OF r] by (auto simp: s1_def intro!: counted_put split: option.splits)
  define s2 where "s2 = (if is_terminal n' then bag_put (bag_of ?ys u) s1 else s1)"
  define at' where "at' = (node_of ?xs S u li)\<lparr>nd_prev := Some h\<rparr>"
  define s3 where "s3 = node_put n' (node_put at' s2)"
  have m2: "ListNodes s2 = ListNodes s1" "bags_events s2 = bags_events s" "counted s2" using c1 by (simp_all add: s2_def)
  have ln: "ListNodes s3 j = (if j = h then Some (node_of ?ys (S(h := S h)) u h)
        else if j = li then Some ((node_of ?xs S u li)\<lparr>nd_prev := Some h\<rparr>)
        else if prev_of ?xs li = Some j then Some ((node_of ?xs S u j)\<lparr>nd_next := Some h\<rparr>) else ListNodes s j)" for j
    using pr hl by (auto simp: s3_def m2 n' at'_def s1_def split: option.splits)
  have l3: "links (ListNodes s3) (L(u := ?ys)) S" using links_front [of "ListNodes s" h L S li u, OF _ li ln] l h(1) by (simp add: fun_upd_idem)
  have b3: "bags_repr (ListBags s3) (L(u := ?ys))"
    using b c1(2) li bag_of_insert_before(1) [OF d li, of h u] bag_of_insert_before(2) [OF d li, of h] n'(2) by (auto simp: bags_repr_def s3_def s2_def bag_is_empty_def)
  have li': "ListNodes s li \<noteq> None" using linksD(2) [OF l li] by simp
  then have "counted (node_put at' s2)" using m2 c1(4) by (intro counted_put) (auto simp: at'_def)
  moreover have "card (dom (ListNodes (node_put at' s2))) < 2 ^ 32 - 1"
    using li' m2 c1(4) c by (simp add: at'_def insert_absorb domIff)
  ultimately have c3: "counted s3" unfolding s3_def by (rule counted_put [OF _ disjI2])
  have "insert_at_unchecked (node_of ?xs S u li) n s = Some s3"
  proof -
    have p: "prev_node s (node_of ?xs S u li) = map_option (node_of ?xs S u) (prev_of ?xs li)"
      using pr linksD(2) [OF l, of _ u] by (cases "prev_of ?xs li") (auto simp: prev_node_def node_get_def)
    have s1: "(case prev_node s (node_of ?xs S u li) of Some prev \<Rightarrow> node_put (prev\<lparr>nd_next := Some h\<rparr>) s | None \<Rightarrow> s) = s1"
      unfolding p s1_def by (cases "prev_of ?xs li") simp_all
    have g: "bag_get s1 u = Some (bag_of ?xs u)" using b li c1(2) by (auto simp: bag_get_repr)
    have "insert_at_unchecked (node_of ?xs S u li) n s =
        (case (if is_terminal n' then map_option (\<lambda>b. bag_put (if nd_prev n' = None then b\<lparr>bg_head := Some h\<rparr> else b) s1) (bag_get s1 u)
               else Some s1) of None \<Rightarrow> None | Some s \<Rightarrow> Some (node_put n' (node_put at' s)))"
      unfolding s1 [symmetric] using h by (simp add: insert_at_unchecked_def Let_def n'_def at'_def cong: option.case_cong if_cong)
    then show ?thesis using g n' bag_of_insert_before(1) [OF d li, of h u] by (simp add: s3_def s2_def prev_of_insert_before [OF d nh li] hl)
  qed
  then show ?thesis using l3 b3 c3 m2 by (simp add: repr_def s3_def)
qed

lemma put_in_front_errors:
  assumes r: "repr s L S"
  shows "(\<And>u. li \<notin> set (L u)) \<Longrightarrow> list_put_in_front_of score li h s = Some (Inl NodeNotFound, s)"
    "li \<in> set (L u) \<Longrightarrow> (\<And>u. h \<notin> set (L u)) \<Longrightarrow> list_put_in_front_of score li h s = Some (Inl NodeNotFound, s)"
    "li \<in> set (L u) \<Longrightarrow> h \<in> set (L v) \<Longrightarrow> u \<noteq> v \<Longrightarrow> list_put_in_front_of score li h s = Some (Inl NotInSameBag, s)"
    "li \<in> set (L u) \<Longrightarrow> h \<in> set (L u) \<Longrightarrow> score h \<le> score li \<Longrightarrow> list_put_in_front_of score li h s = Some (Inl NotHeavier, s)"
  using linksD(2) [OF reprD(1) [OF r]] iffD2 [OF linksD(4) [OF reprD(1) [OF r]]] by (simp_all add: list_put_in_front_of_def node_get_def)

lemma put_in_front_ok:
  assumes r: "repr s L S" and li: "li \<in> set (L u)" and h: "h \<in> set (L u)" and sc: "score li < score h"
    and c: "card (dom (ListNodes s)) < 2 ^ 32"
  shows "\<exists>s'. list_put_in_front_of score li h s = Some (Inr (), s') \<and>
    repr s' (L(u := insert_before li h (remove1 h (L u)))) S \<and> bags_events s' = bags_events s"
proof -
  let ?L = "L(u := remove1 h (L u))"
  have l: "links (ListNodes s) L S" by (rule reprD(1) [OF r])
  have hl: "h \<noteq> li" using sc by auto
  obtain s1 where s1: "list_remove h s = (Inr (), s1)" "repr s1 ?L S" "bags_events s1 = bags_events s"
    using list_remove_ok [OF r h] by blast
  have l1: "links (ListNodes s1) ?L S" by (rule reprD(1) [OF s1(2)])
  have li1: "li \<in> set (?L u)" using li hl by (simp add: in_set_remove1)
  have nh: "h \<notin> set (?L w)" for w using linksD(1) [OF l, of u] linksD(3) [OF l h, of w] by auto
  then have m: "ListNodes s1 h = None" using linksD(4) [OF l1] by blast
  have "ListNodes s1 j = None \<longleftrightarrow> j = h \<or> ListNodes s j = None" for j
    unfolding linksD(4) [OF l1] linksD(4) [OF l] using nh by (cases "j = h") (auto simp: in_set_remove1 split: if_splits)
  then have "dom (ListNodes s1) = dom (ListNodes s) - {h}" "h \<in> dom (ListNodes s)" using linksD(2) [OF l h] by (simp_all add: set_eq_iff domIff conj_commute)
  then have c1: "card (dom (ListNodes s1)) < 2 ^ 32 - 1" using c reprD(3) [OF r] by (simp add: counted_def card_Diff_singleton_if)
  obtain s2 where s2: "insert_at_unchecked (node_of (?L u) S u li) (node_of (L u) S u h) s1 = Some s2"
    "repr s2 (?L(u := insert_before li h (?L u))) S" "bags_events s2 = bags_events s1"
    using insert_at_unchecked_ok [OF s1(2) li1 m node_of_simps(1,4,5) [of "L u" S u h] c1] by blast
  have "list_put_in_front_of score li h s = Some (Inr (), s2)"
    using linksD(2) [OF l li] linksD(2) [OF l h] linksD(2) [OF l1 li1] sc s1(1) s2(1) by (simp add: list_put_in_front_of_def node_get_def Let_def)
  then show ?thesis using s2 s1 by simp
qed

end
