(* ===== verification/Bags_Iteration.thy ===== *)
theory Bags_Iteration
  imports Bags_Repr
begin

text \<open>
  The thresholds of the bags and the iteration over all bags: the state in which every account is in the
  bag of its score, the order in which the accounts are listed, and the checks of the code.
\<close>

section \<open>Thresholds\<close>

lemma integrity_sorted: "integrity_test ts \<longleftrightarrow> sorted_wrt (<) ts"
proof (induction ts)
  case (Cons t ts)
  then show ?case by (cases ts) (auto simp: integrity_test_def dest: less_trans)
qed (simp add: integrity_test_def)

definition thresholds_ok :: "nat list \<Rightarrow> nat \<Rightarrow> bool" where
  "thresholds_ok ts mx \<longleftrightarrow> integrity_test ts \<and> list_all (\<lambda>t. t \<le> mx) ts"

lemma notional_cases:
  assumes "integrity_test ts"
  obtains (bag) t where "notional_bag_for ts mx sc = t" "t \<in> set ts" "sc \<le> t" "\<And>t'. t' \<in> set ts \<Longrightarrow> sc \<le> t' \<Longrightarrow> t \<le> t'"
  | (top) "notional_bag_for ts mx sc = mx" "\<And>t. t \<in> set ts \<Longrightarrow> t < sc"
proof (cases "length (takeWhile (\<lambda>t. t < sc) ts) < length ts")
  case True
  let ?k = "length (takeWhile (\<lambda>t. t < sc) ts)"
  have ge: "\<not> ts ! ?k < sc" using nth_length_takeWhile [OF True] .
  have "ts ! ?k \<le> t'" if t': "t' \<in> set ts" "sc \<le> t'" for t'
  proof -
    obtain j where j: "j < length ts" "ts ! j = t'" using t' by (auto simp: in_set_conv_nth)
    then have "?k \<le> j" using takeWhile_nth [of j "\<lambda>t. t < sc" ts] set_takeWhileD nth_mem t' by (metis leD not_le_imp_less)
    then show ?thesis using assms j sorted_wrt_nth_less [of "(<)" ts ?k j] by (cases "?k = j") (auto simp: integrity_sorted)
  qed
  then show ?thesis using True ge bag [of "ts ! ?k"] by (simp add: notional_bag_for_def partition_point_def)
next
  case False
  then have "takeWhile (\<lambda>t. t < sc) ts = ts" by (metis length_takeWhile_le linorder_neqE_nat not_le takeWhile_eq_take take_all)
  then have "t \<in> set ts \<Longrightarrow> t < sc" for t by (simp add: takeWhile_eq_all_conv)
  then show ?thesis using False top by (simp add: notional_bag_for_def partition_point_def)
qed

lemma notional_in_all: "notional_bag_for ts mx sc \<in> set (all_thresholds ts mx)"
  by (auto simp: notional_bag_for_def all_thresholds_def Let_def last_in_set)

lemma all_thresholds_sorted: "thresholds_ok ts mx \<Longrightarrow> sorted_wrt (<) (all_thresholds ts mx)"
proof (cases "ts = [] \<or> last ts \<noteq> mx")
  case True
  assume ok: "thresholds_ok ts mx"
  have "t < mx" if t: "t \<in> set ts" for t
  proof -
    obtain us l where ts: "ts = us @ [l]" using t by (cases ts rule: rev_cases) auto
    then show ?thesis using t ok True by (auto simp: thresholds_ok_def integrity_sorted sorted_wrt_append list_all_iff)
  qed
  then show ?thesis using ok True by (auto simp: all_thresholds_def thresholds_ok_def integrity_sorted sorted_wrt_append)
qed (auto simp: all_thresholds_def thresholds_ok_def integrity_sorted)

lemma all_thresholds_distinct: "thresholds_ok ts mx \<Longrightarrow> distinct (all_thresholds ts mx)"
  using all_thresholds_sorted strict_sorted_iff by blast

section \<open>Accounts in the bags of their scores\<close>

definition placed :: "nat list \<Rightarrow> nat \<Rightarrow> (nat \<Rightarrow> 'a list) \<Rightarrow> ('a \<Rightarrow> nat) \<Rightarrow> bool" where
  "placed ts mx L S \<longleftrightarrow> (\<forall>u. \<forall>i \<in> set (L u). notional_bag_for ts mx (S i) = u)"

definition list_inv :: "nat list \<Rightarrow> nat \<Rightarrow> 'a bags_list \<Rightarrow> (nat \<Rightarrow> 'a list) \<Rightarrow> ('a \<Rightarrow> nat) \<Rightarrow> bool" where
  "list_inv ts mx s L S \<longleftrightarrow> repr s L S \<and> placed ts mx L S"

definition ids_of :: "nat list \<Rightarrow> (nat \<Rightarrow> 'a list) \<Rightarrow> 'a list" where
  "ids_of us L = concat (map L us)"

lemma set_ids_of: "list_inv ts mx s L S \<Longrightarrow> set (ids_of (rev (all_thresholds ts mx)) L) = dom (ListNodes s)"
  using notional_in_all [of ts mx] linksD(4) [OF reprD(1), of s L S]
  by (auto simp: list_inv_def placed_def ids_of_def domIff set_eq_iff) metis

lemma distinct_ids_of:
  assumes "links m L S" "distinct us"
  shows "distinct (ids_of us L)"
  using assms(2)
proof (induction us)
  case (Cons u us)
  then show ?case using linksD(1) [OF assms(1)] linksD(3) [OF assms(1)] by (auto simp: ids_of_def)
qed (simp add: ids_of_def)

lemma list_iter_repr:
  assumes "repr s L S"
  shows "list_iter ts mx s = Some (concat (map (\<lambda>u. map (node_of (L u) S u) (L u)) (rev (all_thresholds ts mx))))"
  unfolding list_iter_def by (rule iter_bags_repr [OF reprD(1,2) [OF assms]])

lemma ids_concat: "map nd_id (concat (map (\<lambda>u. map (node_of (L u) S u) (L u)) us)) = ids_of us L"
  by (induction us) (simp_all add: ids_of_def comp_def)

lemma sl_iter_repr: "repr s L S \<Longrightarrow> sl_iter ts mx s = Some (ids_of (rev (all_thresholds ts mx)) L)"
  by (simp add: sl_iter_def list_iter_repr ids_concat)

lemma sorted_uppers:
  "sorted_wrt (>) us \<Longrightarrow> sorted_wrt (\<lambda>a b. nd_bag_upper b \<le> nd_bag_upper a) (concat (map (\<lambda>u. map (node_of (L u) S u) (L u)) us))"
proof (induction us)
  case (Cons u us)
  have "sorted_wrt (\<lambda>a b. nd_bag_upper b \<le> nd_bag_upper a) (map (node_of (L u) S u) (L u))"
    by (simp add: sorted_wrt_map sorted_wrt_iff_nth_less)
  moreover have "\<forall>v \<in> set us. v < u" using Cons.prems by simp
  ultimately show ?case using Cons by (fastforce simp: sorted_wrt_append)
qed simp

lemma listed_once:
  assumes i: "list_inv ts mx s L S" and t: "thresholds_ok ts mx" and it: "list_iter ts mx s = Some ns"
  shows "distinct (map nd_id ns)" "set (map nd_id ns) = dom (ListNodes s)" "length ns = CounterForListNodes s"
    "sorted_wrt (\<lambda>a b. nd_bag_upper b \<le> nd_bag_upper a) ns"
    "n \<in> set ns \<Longrightarrow> ListNodes s (nd_id n) = Some n \<and> nd_bag_upper n = notional_bag_for ts mx (nd_score n)"
proof -
  let ?us = "rev (all_thresholds ts mx)"
  have r: "repr s L S" using i by (simp add: list_inv_def)
  have ns: "ns = concat (map (\<lambda>u. map (node_of (L u) S u) (L u)) ?us)" using it list_iter_repr [OF r] by simp
  have ids: "map nd_id ns = ids_of ?us L" unfolding ns by (rule ids_concat)
  show d: "distinct (map nd_id ns)" unfolding ids using all_thresholds_distinct [OF t] by (intro distinct_ids_of [OF reprD(1) [OF r]]) simp
  show st: "set (map nd_id ns) = dom (ListNodes s)" unfolding ids by (rule set_ids_of [OF i])
  have "length (map nd_id ns) = card (dom (ListNodes s))" unfolding st [symmetric] using d by (rule distinct_card [symmetric])
  then show "length ns = CounterForListNodes s" using reprD(3) [OF r] by (simp add: counted_def)
  show "sorted_wrt (\<lambda>a b. nd_bag_upper b \<le> nd_bag_upper a) ns"
    unfolding ns using all_thresholds_sorted [OF t] by (intro sorted_uppers) (simp add: sorted_wrt_rev)
  assume "n \<in> set ns"
  then obtain u j where n: "n = node_of (L u) S u j" and j: "j \<in> set (L u)" unfolding ns by auto
  then show "ListNodes s (nd_id n) = Some n \<and> nd_bag_upper n = notional_bag_for ts mx (nd_score n)"
    using linksD(2) [OF reprD(1) [OF r] j] i by (simp add: list_inv_def placed_def)
qed

section \<open>The checks of the code\<close>

lemma bag_try_state_repr:
  assumes l: "links (ListNodes s) L S"
  shows "bag_try_state s (bag_of (L u) u) = Some True"
proof -
  have d: "distinct (L u)" by (rule linksD(1) [OF l])
  have m: "k \<in> set (L u) \<Longrightarrow> node_get s k = Some (node_of (L u) S u k)" for k using linksD(2) [OF l] by (simp add: node_get_def)
  have "prev_of (L u) k = None" if "hd_opt (L u) = Some k" for k using that d prev_of_None [of "L u" k] by (cases "L u") auto
  moreover have "next_of (L u) k = None" if "hd_opt (rev (L u)) = Some k" for k
    using that d next_of_None [of "L u" k] by (cases "L u" rule: rev_cases) auto
  moreover have "hd_opt xs = Some k \<Longrightarrow> k \<in> set xs" for xs and k :: 'a by (cases xs) auto
  then have "hd_opt (L u) = Some k \<Longrightarrow> k \<in> set (L u)" "hd_opt (rev (L u)) = Some k \<Longrightarrow> k \<in> set (L u)" for k
    by (blast, metis set_rev)
  ultimately show ?thesis
    unfolding bag_try_state_def bag_iter_repr [OF l] using d
    by (auto simp: bag_head_def bag_tail_def m prev_node_def next_node_def comp_def split: option.splits)
qed

lemma node_try_state_repr:
  assumes r: "repr s L S" and i: "i \<in> set (L u)"
  shows "node_try_state s (node_of (L u) S u i) = Some True"
proof -
  have d: "distinct (L u)" by (rule linksD(1) [OF reprD(1) [OF r]])
  have "bag_get s u = Some (bag_of (L u) u)" using i by (auto simp: bag_get_repr [OF reprD(2) [OF r]])
  moreover have "bag_contains s (bag_of (L u) u) i = Some True"
    using i by (simp add: bag_contains_def bag_iter_repr [OF reprD(1) [OF r]] list_ex_iff)
  moreover have "is_terminal (node_of (L u) S u i) \<longleftrightarrow> hd_opt (L u) = Some i \<or> hd_opt (rev (L u)) = Some i"
    using i d by (simp add: is_terminal_def prev_of_None next_of_None)
  ultimately show ?thesis by (auto simp: node_try_state_def)
qed

lemma active_bags_repr:
  assumes r: "repr s L S"
  shows "List.map_filter (bag_get s) us = map (\<lambda>u. bag_of (L u) u) (filter (\<lambda>u. L u \<noteq> []) us)"
  by (induction us) (simp_all add: List.map_filter_simps bag_get_repr [OF reprD(2) [OF r]])

lemma sum_active:
  assumes r: "repr s L S"
  shows "sum_list (map (\<lambda>b. case bag_iter s b of Some xs \<Rightarrow> length xs | None \<Rightarrow> 0) (List.map_filter (bag_get s) us)) = length (ids_of us L)"
  by (induction us) (auto simp: ids_of_def List.map_filter_simps bag_get_repr [OF reprD(2) [OF r]] bag_iter_repr [OF reprD(1) [OF r]])

lemma try_state_ok:
  assumes i: "list_inv ts mx s L S" and t: "thresholds_ok ts mx" and c: "CounterForListNodes s < 2 ^ 32"
    and k: "distinct keys" "set keys = dom (ListNodes s)"
  shows "list_try_state ts mx keys s = Some True"
proof -
  have r: "repr s L S" using i by (simp add: list_inv_def)
  obtain ns where it: "list_iter ts mx s = Some ns" using list_iter_repr [OF r] by blast
  note o = listed_once [OF i t it]
  have lk: "length keys = CounterForListNodes s" using distinct_card [OF k(1)] k(2) reprD(3) [OF r] by (simp add: counted_def)
  have "length (ids_of (all_thresholds ts mx) L) = length (ids_of (rev (all_thresholds ts mx)) L)"
    by (simp add: ids_of_def length_concat rev_map [symmetric] sum_list_rev comp_def)
  also have "\<dots> = length ns" using sl_iter_repr [OF r, of ts mx] it by (simp add: sl_iter_def) (metis length_map)
  finally have lc: "length (ids_of (all_thresholds ts mx) L) = CounterForListNodes s" using o(3) by simp
  have bt: "b \<in> set (List.map_filter (bag_get s) us) \<Longrightarrow> bag_try_state s b = Some True" for b us
    using bag_try_state_repr [OF reprD(1) [OF r]] by (auto simp: active_bags_repr [OF r])
  have nt: "node_get s j = Some n \<Longrightarrow> node_try_state s n = Some True" for j n
    using linksD(5) [OF reprD(1) [OF r], of j n] node_try_state_repr [OF r, of j "nd_bag_upper n"] unfolding node_get_def by metis
  show ?thesis
    using o(1,3) lk lc c bt nt
    by (simp add: list_try_state_def it sum_active [OF r] list_ex_iff list_all_iff Let_def split: option.splits)
qed

end
