(* ===== verification/Bags_Runs.thy ===== *)
theory Bags_Runs
  imports Bags_Iteration
begin

text \<open>
  Runs of the bags list: every operation keeps each account in the bag of its score, and a change of the
  thresholds by \<open>migrate\<close> does so for the new thresholds.
\<close>

section \<open>What the operations keep\<close>

definition bags_inv :: "nat list \<Rightarrow> nat \<Rightarrow> 'a bags_list \<Rightarrow> bool" where
  "bags_inv ts mx s \<longleftrightarrow> (\<exists>L S. list_inv ts mx s L S)"

lemma bags_invI: "repr s L S \<Longrightarrow> placed ts mx L S \<Longrightarrow> bags_inv ts mx s"
  by (auto simp: bags_inv_def list_inv_def)

lemma bags_inv_frame: "bags_inv ts mx (s\<lparr>bags_events := e\<rparr>) \<longleftrightarrow> bags_inv ts mx s"
  by (simp add: bags_inv_def list_inv_def repr_def counted_def)

lemma dom_repr: "repr s L S \<Longrightarrow> dom (ListNodes s) = (\<Union>u. set (L u))"
  using linksD(4) [OF reprD(1), of s L S] by (simp add: set_eq_iff domIff)

lemma repr_count: "repr s L S \<Longrightarrow> CounterForListNodes s = card (dom (ListNodes s))"
  by (simp add: repr_def counted_def)

lemma placed_insert:
  assumes "placed ts mx L S" "\<And>u. i \<notin> set (L u)"
  shows "placed ts mx (L(notional_bag_for ts mx sc := L (notional_bag_for ts mx sc) @ [i])) (S(i := sc))"
  using assms by (auto simp: placed_def)

lemma placed_remove: "placed ts mx L S \<Longrightarrow> set xs \<subseteq> set (L u) \<Longrightarrow> placed ts mx (L(u := xs)) S"
  by (auto simp: placed_def)

lemma placed_update:
  assumes p: "placed ts mx L S" and l: "links m L S" and i: "i \<in> set (L u)" and v: "notional_bag_for ts mx sc = v"
  shows "v = u \<Longrightarrow> placed ts mx L (S(i := sc))"
    "v \<noteq> u \<Longrightarrow> placed ts mx (L(u := remove1 i (L u), v := L v @ [i])) (S(i := sc))"
proof -
  have d: "distinct (L u)" by (rule linksD(1) [OF l])
  have o: "i \<in> set (L w) \<Longrightarrow> w = u" for w using linksD(3) [OF l i] by metis
  show "v = u \<Longrightarrow> placed ts mx L (S(i := sc))" using p v o by (auto simp: placed_def)
  show "v \<noteq> u \<Longrightarrow> placed ts mx (L(u := remove1 i (L u), v := L v @ [i])) (S(i := sc))"
    using p v o d by (auto simp: placed_def)
qed

lemma stored_in: "repr s L S \<Longrightarrow> ListNodes s i = Some n \<Longrightarrow> \<exists>u. i \<in> set (L u) \<and> n = node_of (L u) S u i"
  using linksD(5) [OF reprD(1)] by metis

lemma insert_step:
  assumes "bags_inv ts mx s" "CounterForListNodes s < 2 ^ 32 - 1" "list_insert ts mx i sc s = (r, s')"
  shows "bags_inv ts mx s' \<and> dom (ListNodes s') = insert i (dom (ListNodes s)) \<and> (r = Inr () \<longleftrightarrow> i \<notin> dom (ListNodes s))"
proof -
  obtain L S where r: "repr s L S" and p: "placed ts mx L S" using assms(1) by (auto simp: bags_inv_def list_inv_def)
  show ?thesis
  proof (cases "ListNodes s i")
    case None
    then have ni: "i \<notin> set (L u)" for u using linksD(4) [OF reprD(1) [OF r]] by blast
    let ?u = "notional_bag_for ts mx sc"
    obtain s'' where e: "list_insert ts mx i sc s = (Inr (), s'')" "repr s'' (L(?u := L ?u @ [i])) (S(i := sc))"
      using list_insert_ok [OF r ni] assms(2) repr_count [OF r] by metis
    have "(\<Union>w. set ((L(?u := L ?u @ [i])) w)) = insert i (\<Union>w. set (L w))" by (auto split: if_splits)
    then have "dom (ListNodes s'') = insert i (dom (ListNodes s))" unfolding dom_repr [OF r] dom_repr [OF e(2)] .
    moreover have "i \<notin> dom (ListNodes s)" using None by blast
    ultimately show ?thesis using assms(3) e(1) bags_invI [OF e(2) placed_insert [OF p ni]] by simp
  next
    case (Some n)
    then obtain u where "i \<in> set (L u)" using stored_in [OF r] by blast
    then show ?thesis using list_insert_duplicate [OF r] assms Some by (auto simp: insert_absorb domIff)
  qed
qed

lemma remove_step:
  assumes "bags_inv ts mx s" "list_remove i s = (r, s')"
  shows "bags_inv ts mx s' \<and> dom (ListNodes s') = dom (ListNodes s) - {i} \<and> (r = Inr () \<longleftrightarrow> i \<in> dom (ListNodes s))"
proof -
  obtain L S where r: "repr s L S" and p: "placed ts mx L S" using assms(1) by (auto simp: bags_inv_def list_inv_def)
  show ?thesis
  proof (cases "ListNodes s i")
    case None
    then have "i \<notin> set (L u)" for u using linksD(4) [OF reprD(1) [OF r]] by blast
    then show ?thesis using list_remove_absent [OF r] assms None by (auto simp: domIff)
  next
    case (Some n)
    then obtain u where u: "i \<in> set (L u)" using stored_in [OF r] by blast
    obtain s'' where e: "list_remove i s = (Inr (), s'')" "repr s'' (L(u := remove1 i (L u))) S" using list_remove_ok [OF r u] by blast
    have d: "distinct (L w)" and o: "i \<in> set (L w) \<Longrightarrow> w = u" for w using linksD(1,3) [OF reprD(1) [OF r]] u by metis+
    have "dom (ListNodes s'') = dom (ListNodes s) - {i}" unfolding dom_repr [OF r] dom_repr [OF e(2)] using d o by (auto split: if_splits)
    then show ?thesis using assms(2) e Some bags_invI [OF e(2) placed_remove [OF p set_remove1_subset]] by (auto simp: domIff)
  qed
qed

lemma update_step:
  assumes "bags_inv ts mx s" "do_rebag ts mx i sc s = (r, s')"
  shows "bags_inv ts mx s' \<and> dom (ListNodes s') = dom (ListNodes s) \<and> (isl r \<longleftrightarrow> i \<notin> dom (ListNodes s))"
proof -
  obtain L S where r: "repr s L S" and p: "placed ts mx L S" using assms(1) by (auto simp: bags_inv_def list_inv_def)
  show ?thesis
  proof (cases "ListNodes s i")
    case None
    then show ?thesis using assms by (auto simp: do_rebag_def node_get_def domIff)
  next
    case (Some n)
    then obtain u where u: "i \<in> set (L u)" and n: "n = node_of (L u) S u i" using stored_in [OF r] by blast
    define v where "v = notional_bag_for ts mx sc"
    have "\<exists>mv s1. update_position_for ts mx n sc s = (mv, s1) \<and> bags_inv ts mx s1 \<and> dom (ListNodes s1) = dom (ListNodes s)"
    proof (cases "v = u")
      case True
      then obtain s1 where e: "update_position_for ts mx n sc s = (None, s1)" "repr s1 L (S(i := sc))"
        using update_in_place [OF r u] n v_def by metis
      then show ?thesis using bags_invI [OF e(2)] placed_update(1) [OF p reprD(1) [OF r] u v_def [symmetric] True] dom_repr [OF r] dom_repr [OF e(2)] by simp
    next
      case False
      then obtain s1 where e: "update_position_for ts mx n sc s = (Some (u, v), s1)" "repr s1 (L(u := remove1 i (L u), v := L v @ [i])) (S(i := sc))"
        using update_moves [OF r u v_def [symmetric]] n by metis
      have d: "distinct (L u)" by (rule linksD(1) [OF reprD(1) [OF r]])
      have "dom (ListNodes s1) = dom (ListNodes s)" unfolding dom_repr [OF r] dom_repr [OF e(2)] using d u by (auto split: if_splits) metis
      then show ?thesis using e bags_invI [OF e(2) placed_update(2) [OF p reprD(1) [OF r] u v_def [symmetric] False]] by blast
    qed
    then obtain mv s1 where u1: "update_position_for ts mx n sc s = (mv, s1)" "bags_inv ts mx s1" "dom (ListNodes s1) = dom (ListNodes s)" by blast
    have "r = Inr mv" "ListNodes s' = ListNodes s1" "bags_inv ts mx s'"
      using assms(2) Some u1 by (cases mv; force simp: do_rebag_def node_get_def Let_def bags_inv_frame)+
    moreover have "i \<in> dom (ListNodes s)" using Some by blast
    ultimately show ?thesis using u1(3) by simp
  qed
qed

lemma front_step:
  assumes "bags_inv ts mx s" "CounterForListNodes s < 2 ^ 32"
  shows "\<exists>r s'. list_put_in_front_of score li h s = Some (r, s') \<and> bags_inv ts mx s' \<and> dom (ListNodes s') = dom (ListNodes s)"
proof -
  obtain L S where r: "repr s L S" and p: "placed ts mx L S" using assms(1) by (auto simp: bags_inv_def list_inv_def)
  note e = put_in_front_errors [OF r]
  consider "\<And>u. li \<notin> set (L u)" | "\<And>u. h \<notin> set (L u)" | u v where "li \<in> set (L u)" "h \<in> set (L v)" "u \<noteq> v"
    | u where "li \<in> set (L u)" "h \<in> set (L u)" "score h \<le> score li" | u where "li \<in> set (L u)" "h \<in> set (L u)" "score li < score h"
    by (metis not_le)
  then show ?thesis
  proof cases
    case 5
    then obtain s' where s': "list_put_in_front_of score li h s = Some (Inr (), s')" "repr s' (L(u := insert_before li h (remove1 h (L u)))) S"
      using put_in_front_ok [OF r] assms(2) repr_count [OF r] by metis
    have d: "distinct (L u)" by (rule linksD(1) [OF reprD(1) [OF r]])
    have hl: "li \<in> set (remove1 h (L u))" using 5 d by auto
    have st: "set (insert_before li h (remove1 h (L u))) = set (L u)" using set_insert_before [OF hl] 5 d by auto
    then have "dom (ListNodes s') = dom (ListNodes s)" unfolding dom_repr [OF r] dom_repr [OF s'(2)] by (auto split: if_splits)
    then show ?thesis using s' bags_invI [OF s'(2) placed_remove [OF p]] st by blast
  qed (use e assms(1) in \<open>metis\<close>)+
qed

section \<open>Building a list\<close>

lemma insert_many_step:
  assumes "bags_inv ts mx s" "card (dom (ListNodes s)) + length ids \<le> 2 ^ 32 - 1" "insert_many ts mx score ids n s = (n', s')"
  shows "bags_inv ts mx s' \<and> dom (ListNodes s') = set ids \<union> dom (ListNodes s)"
  using assms
proof (induction ids arbitrary: n s)
  case (Cons i ids)
  obtain r s1 where e: "list_insert ts mx i (score i) s = (r, s1)" by fastforce
  have fin: "finite (dom (ListNodes s))" "CounterForListNodes s = card (dom (ListNodes s))"
    using Cons.prems(1) by (auto simp: bags_inv_def list_inv_def repr_def counted_def)
  have i1: "bags_inv ts mx s1" "dom (ListNodes s1) = insert i (dom (ListNodes s))" using insert_step [OF Cons.prems(1) _ e] Cons.prems(2) fin by auto
  have "card (dom (ListNodes s1)) + length ids \<le> 2 ^ 32 - 1" using Cons.prems(2) fin by (simp add: i1(2) card_insert_if)
  moreover obtain k where "insert_many ts mx score ids k s1 = (n', s')" using Cons.prems(3) e by (auto split: sum.splits)
  ultimately show ?case using Cons.IH [OF i1(1)] i1(2) by auto
qed simp

lemma empty_inv: "bags_inv ts mx (unsafe_clear s)"
  by (rule bags_invI [of _ "\<lambda>_. []" "\<lambda>_. 0"]) (simp_all add: placed_def repr_def links_def bags_repr_def counted_def unsafe_clear_def)

lemma regenerate_step:
  assumes "length ids < 2 ^ 32" "unsafe_regenerate ts mx ids score s = (n, s')"
  shows "bags_inv ts mx s' \<and> dom (ListNodes s') = set ids"
proof -
  have d: "dom (ListNodes (unsafe_clear s)) = {}" by (simp add: unsafe_clear_def)
  show ?thesis using insert_many_step [OF empty_inv, of s ids ts mx score 0 n s'] assms unfolding unsafe_regenerate_def d by simp
qed

section \<open>Changing the thresholds\<close>

lemma affected_ok:
  assumes r: "repr s L S"
  shows "\<exists>seen' accs'. affected s us seen accs = Some (seen', accs') \<and> set seen' = set seen \<union> set us \<and>
    set accs' = set accs \<union> (\<Union>u \<in> set us - set seen. set (L u))"
proof (induction us arbitrary: seen accs)
  case (Cons u us)
  show ?case
  proof (cases "u \<in> set seen")
    case True
    then show ?thesis using Cons.IH [of seen accs] by (auto simp: insert_Diff_if)
  next
    case False
    have e: "affected s (u # us) seen accs = affected s us (u # seen) (accs @ L u)"
      using False by (simp add: bag_get_repr [OF reprD(2) [OF r]] bag_iter_repr [OF reprD(1) [OF r]] comp_def)
    show ?thesis using Cons.IH [of "u # seen" "accs @ L u"] False unfolding e by (auto 4 4)
  qed
qed simp

lemma set_sorted_set [simp]: "set (sorted_set xs) = set xs" "distinct (sorted_set xs)"
  by (simp_all add: sorted_set_def)

lemma set_difference [simp]: "set (difference xs ys) = set xs - set ys"
  by (auto simp: difference_def)

text \<open>An account of a bag that neither disappears nor is split by a new threshold keeps its bag.\<close>

lemma unaffected_place:
  assumes o: "integrity_test old" "integrity_test new" "list_all (\<lambda>t. t \<le> mx) new"
    and u: "notional_bag_for old mx sc = u" "u \<in> set old \<Longrightarrow> u \<in> set new"
    and nb: "\<And>t. t \<in> set new \<Longrightarrow> t \<notin> set old \<Longrightarrow> notional_bag_for old mx t \<noteq> u"
  shows "notional_bag_for new mx sc = u"
proof -
  have split: "t = u" if t: "t \<in> set new" "sc \<le> t" "t \<le> u" for t
  proof (rule ccontr)
    assume ne: "t \<noteq> u"
    show False
    proof (cases "t \<in> set old")
      case True
      then show False using notional_cases [OF o(1), of mx sc] u(1) t ne by (metis le_antisym not_le)
    next
      case False
      then show False using nb [OF t(1)] notional_cases [OF o(1), of mx t] notional_cases [OF o(1), of mx sc] u(1) t ne
        by (metis le_antisym le_trans not_le)
    qed
  qed
  show ?thesis
  proof (cases rule: notional_cases [OF o(2), of mx sc])
    case (1 t)
    then show ?thesis using split [of t] notional_cases [OF o(1), of mx sc] u o(3) by (metis list_all_iff)
  next
    case 2
    then show ?thesis using notional_cases [OF o(1), of mx sc] u by (metis not_le)
  qed
qed

lemma forget_empty_bags:
  assumes "\<And>u. u \<in> set us \<Longrightarrow> ListBags s u = None"
  shows "fold (\<lambda>u s. s\<lparr>ListBags := (ListBags s)(u := None)\<rparr>) us s = s"
  using assms by (induction us) (simp_all add: fun_upd_idem)

lemma migrate_unfold:
  assumes r: "repr s L S" and ne: "new \<noteq> old"
  obtains accs where
    "set accs = (\<Union>u \<in> notional_bag_for old mx ` (set new - set old) \<union> (set old - set new). set (L u))"
    "distinct accs"
    "migrate new mx score old s = Some (length accs mod 2 ^ 32,
       fold (\<lambda>u s. s\<lparr>ListBags := (ListBags s)(u := None)\<rparr>) (difference old new) (snd (insert_many new mx score accs 0 (snd (remove_many accs s)))))"
proof -
  let ?nb = "map (notional_bag_for old mx) (difference new old)"
  obtain seen a1 where a1: "affected s ?nb [] [] = Some (seen, a1)" "set seen = set ?nb" "set a1 = (\<Union>u \<in> set ?nb. set (L u))"
    using affected_ok [OF r, of ?nb "[]" "[]"] by auto
  obtain seen2 a2 where a2: "affected s (difference old new) seen a1 = Some (seen2, a2)"
    "set a2 = set a1 \<union> (\<Union>u \<in> set (difference old new) - set seen. set (L u))"
    using affected_ok [OF r, of "difference old new" seen a1] by auto
  have "set (sorted_set a2) = (\<Union>u \<in> notional_bag_for old mx ` (set new - set old) \<union> (set old - set new). set (L u))"
    using a1 a2 by auto
  then show thesis using that [of "sorted_set a2"] a1 a2 ne by (simp add: migrate_def Let_def)
qed

lemma migrate_step:
  assumes inv: "bags_inv old mx s" and o: "thresholds_ok old mx" and n: "thresholds_ok new mx"
    and top: "mx \<in> set old \<Longrightarrow> mx \<in> set new" and c: "CounterForListNodes s < 2 ^ 32"
  shows "\<exists>k s'. migrate new mx score old s = Some (k, s') \<and> bags_inv new mx s' \<and> dom (ListNodes s') = dom (ListNodes s)"
proof (cases "new = old")
  case True
  then show ?thesis using inv by (simp add: migrate_def)
next
  case False
  obtain L S where r: "repr s L S" and p: "placed old mx L S" using inv by (auto simp: bags_inv_def list_inv_def)
  obtain accs where accs: "set accs = (\<Union>u \<in> notional_bag_for old mx ` (set new - set old) \<union> (set old - set new). set (L u))"
    and da: "distinct accs"
    and run: "migrate new mx score old s = Some (length accs mod 2 ^ 32,
       fold (\<lambda>u s. s\<lparr>ListBags := (ListBags s)(u := None)\<rparr>) (difference old new) (snd (insert_many new mx score accs 0 (snd (remove_many accs s)))))"
    by (rule migrate_unfold [OF r False])
  let ?L = "\<lambda>u. filter (\<lambda>i. i \<notin> set accs) (L u)" and ?s1 = "snd (remove_many accs s)"
  have r1: "repr ?s1 ?L S" using remove_many_ok [OF r] by blast
  have "notional_bag_for new mx (S i) = u" if i: "i \<in> set (?L u)" for u i
  proof (rule unaffected_place)
    show "integrity_test old" "integrity_test new" "list_all (\<lambda>t. t \<le> mx) new" using o n by (simp_all add: thresholds_ok_def)
    show "notional_bag_for old mx (S i) = u" using p i by (simp add: placed_def)
    show "u \<in> set old \<Longrightarrow> u \<in> set new" using i accs by auto
    show "t \<in> set new \<Longrightarrow> t \<notin> set old \<Longrightarrow> notional_bag_for old mx t \<noteq> u" for t using i accs by auto
  qed
  then have i1: "bags_inv new mx ?s1" by (intro bags_invI [OF r1]) (auto simp: placed_def)
  have fin: "finite (dom (ListNodes s))" "card (dom (ListNodes s)) < 2 ^ 32" using reprD(3) [OF r] c by (simp_all add: counted_def)
  have sub: "set accs \<subseteq> dom (ListNodes s)" and d1: "dom (ListNodes ?s1) = dom (ListNodes s) - set accs"
    unfolding dom_repr [OF r] dom_repr [OF r1] accs by auto
  have "card (dom (ListNodes ?s1)) + length accs = card (dom (ListNodes s))"
    unfolding d1 using card_Diff_subset [OF _ sub] card_mono [OF fin(1) sub] distinct_card [OF da] by simp
  then have ct: "card (dom (ListNodes ?s1)) + length accs \<le> 2 ^ 32 - 1" using fin by simp
  obtain k s2 where im: "insert_many new mx score accs 0 ?s1 = (k, s2)" by fastforce
  have i2: "bags_inv new mx s2" "dom (ListNodes s2) = dom (ListNodes s)" using insert_many_step [OF i1 ct im] d1 sub by auto
  obtain L2 S2 where r2: "repr s2 L2 S2" and p2: "placed new mx L2 S2" using i2(1) by (auto simp: bags_inv_def list_inv_def)
  have "ListBags s2 u = None" if u: "u \<in> set (difference old new)" for u
  proof -
    have "u \<notin> set (all_thresholds new mx)" using u top by (auto simp: all_thresholds_def)
    then have "L2 u = []" using p2 notional_in_all [of new mx] unfolding placed_def by (metis last_in_set)
    then show ?thesis using reprD(2) [OF r2] by (simp add: bags_repr_def)
  qed
  then have "fold (\<lambda>u s. s\<lparr>ListBags := (ListBags s)(u := None)\<rparr>) (difference old new) s2 = s2" by (rule forget_empty_bags)
  then show ?thesis using run i2 by (simp add: im)
qed

end
