(* ===== verification/Sorted_List.thy ===== *)
theory Sorted_List
  imports Bags_Runs
begin

text \<open>
  The interface of a sorted list of accounts (trait \<^verbatim>\<open>SortedListProvider\<close> of
  \<^verbatim>\<open>frame/election-provider-support/src/lib.rs\<close>): what its users rely on, and the bags list as its
  implementation.
\<close>

locale sorted_list =
  fixes good :: "'s \<Rightarrow> bool"
    and iter :: "'s \<Rightarrow> 'a list option"
    and count :: "'s \<Rightarrow> nat"
    and contains :: "'s \<Rightarrow> 'a \<Rightarrow> bool"
    and insert_id :: "'a \<Rightarrow> nat \<Rightarrow> 's \<Rightarrow> ('e, unit) result \<times> 's"
    and update_id :: "'a \<Rightarrow> nat \<Rightarrow> 's \<Rightarrow> ('e, unit) result \<times> 's"
    and remove_id :: "'a \<Rightarrow> 's \<Rightarrow> ('e, unit) result \<times> 's"
  assumes iter_total: "good s \<Longrightarrow> \<exists>xs. iter s = Some xs \<and> distinct xs \<and> (\<forall>i. i \<in> set xs \<longleftrightarrow> contains s i) \<and> count s = length xs"
    and insert_law: "good s \<Longrightarrow> count s < 2 ^ 32 - 1 \<Longrightarrow> insert_id i sc s = (r, s') \<Longrightarrow>
      good s' \<and> (\<forall>j. contains s' j \<longleftrightarrow> j = i \<or> contains s j) \<and> (r = Inr () \<longleftrightarrow> \<not> contains s i)"
    and update_law: "good s \<Longrightarrow> update_id i sc s = (r, s') \<Longrightarrow>
      good s' \<and> (\<forall>j. contains s' j \<longleftrightarrow> contains s j) \<and> (r = Inr () \<longleftrightarrow> contains s i)"
    and remove_law: "good s \<Longrightarrow> remove_id i s = (r, s') \<Longrightarrow>
      good s' \<and> (\<forall>j. contains s' j \<longleftrightarrow> j \<noteq> i \<and> contains s j) \<and> (r = Inr () \<longleftrightarrow> contains s i)"
begin

lemma count_card:
  assumes "good s"
  shows "count s = card {i. contains s i}" "finite {i. contains s i}"
proof -
  obtain xs where xs: "distinct xs" "\<And>i. i \<in> set xs \<longleftrightarrow> contains s i" "count s = length xs" using iter_total [OF assms] by blast
  then have "{i. contains s i} = set xs" by auto
  then show "count s = card {i. contains s i}" "finite {i. contains s i}" using xs distinct_card [of xs] by simp_all
qed

lemma count_insert:
  assumes "good s" "count s < 2 ^ 32 - 1" "insert_id i sc s = (Inr (), s')"
  shows "count s' = count s + 1"
proof -
  have l: "good s'" "\<And>j. contains s' j \<longleftrightarrow> j = i \<or> contains s j" "\<not> contains s i" using insert_law [OF assms] by simp_all
  have e: "{j. contains s' j} = insert i {j. contains s j}" using l(2) by auto
  show ?thesis unfolding count_card(1) [OF l(1)] count_card(1) [OF assms(1)] e using l(3) count_card(2) [OF assms(1)] by simp
qed

lemma count_remove:
  assumes "good s" "remove_id i s = (Inr (), s')"
  shows "count s = count s' + 1"
proof -
  have l: "good s'" "\<And>j. contains s' j \<longleftrightarrow> j \<noteq> i \<and> contains s j" "contains s i" using remove_law [OF assms] by simp_all
  have e: "{j. contains s j} = insert i {j. contains s' j}" using l by auto
  have "\<not> contains s' i" using l(2) by simp
  then show ?thesis unfolding count_card(1) [OF l(1)] count_card(1) [OF assms(1)] e using count_card(2) [OF l(1)] by simp
qed

lemma count_update: "good s \<Longrightarrow> update_id i sc s = (r, s') \<Longrightarrow> count s' = count s"
  using update_law [of s i sc r s'] by (simp add: count_card(1))

text \<open>Inserting an account and removing it again lists the accounts there were.\<close>

lemma insert_then_remove:
  assumes "good s" "count s < 2 ^ 32 - 1" "insert_id i sc s = (Inr (), s1)" "iter s = Some xs"
  shows "\<exists>s2 ys. remove_id i s1 = (Inr (), s2) \<and> good s2 \<and> iter s2 = Some ys \<and> distinct ys \<and> set ys = set xs"
proof -
  have l: "good s1" "\<And>j. contains s1 j \<longleftrightarrow> j = i \<or> contains s j" "\<not> contains s i" using insert_law [OF assms(1-3)] by simp_all
  obtain r s2 where e: "remove_id i s1 = (r, s2)" by fastforce
  have l2: "good s2" "\<And>j. contains s2 j \<longleftrightarrow> j \<noteq> i \<and> contains s1 j" "r = Inr () \<longleftrightarrow> contains s1 i" using remove_law [OF l(1) e] by simp_all
  obtain ys where ys: "iter s2 = Some ys" "distinct ys" "\<And>j. j \<in> set ys \<longleftrightarrow> contains s2 j" using iter_total [OF l2(1)] by blast
  have "set ys = set xs" using iter_total [OF assms(1)] assms(4) ys(3) l l2 by auto
  then show ?thesis using e l l2 ys by simp
qed

end

section \<open>The bags list as a sorted list\<close>

definition bags_good :: "nat list \<Rightarrow> nat \<Rightarrow> 'a bags_list \<Rightarrow> bool" where
  "bags_good ts mx s \<longleftrightarrow> thresholds_ok ts mx \<and> bags_inv ts mx s"

lemma bags_iter_total:
  assumes "bags_good ts mx s"
  shows "\<exists>xs. sl_iter ts mx s = Some xs \<and> distinct xs \<and> (\<forall>i. i \<in> set xs \<longleftrightarrow> list_contains s i) \<and> sl_count s = length xs"
proof -
  obtain L S where i: "list_inv ts mx s L S" and t: "thresholds_ok ts mx" using assms by (auto simp: bags_good_def bags_inv_def)
  obtain ns where it: "list_iter ts mx s = Some ns" using list_iter_repr i unfolding list_inv_def by blast
  note o = listed_once [OF i t it]
  have "i \<in> set (map nd_id ns) \<longleftrightarrow> list_contains s i" for i unfolding o(2) by (simp add: list_contains_def domIff)
  then show ?thesis using o(1,3) it by (simp add: sl_iter_def sl_count_def)
qed

lemma contains_dom: "list_contains s i \<longleftrightarrow> i \<in> dom (ListNodes s)"
  by (simp add: list_contains_def domIff)

interpretation bags: sorted_list "bags_good ts mx" "sl_iter ts mx" sl_count list_contains "on_insert ts mx" "on_update ts mx" on_remove
  for ts mx
proof
  fix s :: "'a bags_list" and i sc r s'
  assume g: "bags_good ts mx s"
  show "\<exists>xs. sl_iter ts mx s = Some xs \<and> distinct xs \<and> (\<forall>i. i \<in> set xs \<longleftrightarrow> list_contains s i) \<and> sl_count s = length xs"
    by (rule bags_iter_total [OF g])
  show "sl_count s < 2 ^ 32 - 1 \<Longrightarrow> on_insert ts mx i sc s = (r, s') \<Longrightarrow>
      bags_good ts mx s' \<and> (\<forall>j. list_contains s' j \<longleftrightarrow> j = i \<or> list_contains s j) \<and> (r = Inr () \<longleftrightarrow> \<not> list_contains s i)"
    using g insert_step [of ts mx s i sc r s'] by (simp add: bags_good_def sl_count_def on_insert_def contains_dom)
  show "on_remove i s = (r, s') \<Longrightarrow>
      bags_good ts mx s' \<and> (\<forall>j. list_contains s' j \<longleftrightarrow> j \<noteq> i \<and> list_contains s j) \<and> (r = Inr () \<longleftrightarrow> list_contains s i)"
    using g remove_step [of ts mx s i r s'] by (auto simp add: bags_good_def on_remove_def contains_dom)
  assume u: "on_update ts mx i sc s = (r, s')"
  obtain r1 s1 where e: "do_rebag ts mx i sc s = (r1, s1)" by fastforce
  then have "s' = s1" "r = Inr () \<longleftrightarrow> \<not> isl r1" using u by (auto simp: on_update_def attempt_def split: sum.splits)
  then show "bags_good ts mx s' \<and> (\<forall>j. list_contains s' j \<longleftrightarrow> list_contains s j) \<and> (r = Inr () \<longleftrightarrow> list_contains s i)"
    using g update_step [OF _ e] by (simp add: bags_good_def contains_dom)
qed

end
