(* ===== verification/Bags_Properties.thy ===== *)
theory Bags_Properties
  imports Sorted_List
begin

text \<open>
  Properties of the bags list along every sequence of its operations.
\<close>

section \<open>Runs\<close>

definition empty_bags :: "'a bags_list" where
  "empty_bags = \<lparr>ListNodes = Map.empty, CounterForListNodes = 0, ListBags = Map.empty, bags_events = []\<rparr>"

text \<open>
  The hooks of the interface and the calls of the pallet, in any order, with any scores; an account is
  only added while the counter of the accounts is below its greatest value.
\<close>

inductive bags_run :: "nat list \<Rightarrow> nat \<Rightarrow> ('l \<Rightarrow> (dispatch_error, 'a) result) \<Rightarrow> 'a bags_list \<Rightarrow> bool"
  for ts mx lookup where
  start: "bags_run ts mx lookup empty_bags"
| insert: "bags_run ts mx lookup s \<Longrightarrow> CounterForListNodes s < 2 ^ 32 - 1 \<Longrightarrow> on_insert ts mx i sc s = (r, s') \<Longrightarrow> bags_run ts mx lookup s'"
| update: "bags_run ts mx lookup s \<Longrightarrow> on_update ts mx i sc s = (r, s') \<Longrightarrow> bags_run ts mx lookup s'"
| increase: "bags_run ts mx lookup s \<Longrightarrow> on_increase ts mx i sc s = (r, s') \<Longrightarrow> bags_run ts mx lookup s'"
| decrease: "bags_run ts mx lookup s \<Longrightarrow> on_decrease ts mx i sc s = (r, s') \<Longrightarrow> bags_run ts mx lookup s'"
| remove: "bags_run ts mx lookup s \<Longrightarrow> on_remove i s = (r, s') \<Longrightarrow> bags_run ts mx lookup s'"
| regenerate: "bags_run ts mx lookup s \<Longrightarrow> length ids < 2 ^ 32 \<Longrightarrow> unsafe_regenerate ts mx ids score s = (n, s') \<Longrightarrow> bags_run ts mx lookup s'"
| rebag: "bags_run ts mx lookup s \<Longrightarrow> rebag ts mx score lookup org l s = (q, s') \<Longrightarrow> bags_run ts mx lookup s'"
| front: "bags_run ts mx lookup s \<Longrightarrow> put_in_front_of score lookup org l s = Some (q, s') \<Longrightarrow> bags_run ts mx lookup s'"
| front_other: "bags_run ts mx lookup s \<Longrightarrow> put_in_front_of_other score lookup org k l s = Some (q, s') \<Longrightarrow> bags_run ts mx lookup s'"

definition small_inv :: "nat list \<Rightarrow> nat \<Rightarrow> 'a bags_list \<Rightarrow> bool" where
  "small_inv ts mx s \<longleftrightarrow> bags_inv ts mx s \<and> CounterForListNodes s < 2 ^ 32"

lemma inv_count: "bags_inv ts mx s \<Longrightarrow> CounterForListNodes s = card (dom (ListNodes s)) \<and> finite (dom (ListNodes s))"
  by (auto simp: bags_inv_def list_inv_def repr_def counted_def)

lemma small_subset: "small_inv ts mx s \<Longrightarrow> bags_inv ts mx s' \<Longrightarrow> dom (ListNodes s') \<subseteq> dom (ListNodes s) \<Longrightarrow> small_inv ts mx s'"
  using inv_count [of ts mx s] inv_count [of ts mx s'] card_mono [of "dom (ListNodes s)" "dom (ListNodes s')"] unfolding small_inv_def by linarith

lemma small_update: "small_inv ts mx s \<Longrightarrow> do_rebag ts mx i sc s = (q, s') \<Longrightarrow> small_inv ts mx s'"
  using update_step [of ts mx s i sc q s'] small_subset [of ts mx s s'] by (simp add: small_inv_def)

lemma small_on_update: "small_inv ts mx s \<Longrightarrow> on_update ts mx i sc s = (q, s') \<Longrightarrow> small_inv ts mx s'"
  using small_update [of ts mx s i sc "fst (do_rebag ts mx i sc s)" "snd (do_rebag ts mx i sc s)"]
  by (auto simp: on_update_def attempt_def split: prod.splits sum.splits)

lemma small_remove: "small_inv ts mx s \<Longrightarrow> on_remove i s = (q, s') \<Longrightarrow> small_inv ts mx s'"
  using remove_step [of ts mx s i q s'] small_subset [of ts mx s s'] by (auto simp: small_inv_def on_remove_def)

lemma small_insert: "small_inv ts mx s \<Longrightarrow> CounterForListNodes s < 2 ^ 32 - 1 \<Longrightarrow> on_insert ts mx i sc s = (q, s') \<Longrightarrow> small_inv ts mx s'"
  using insert_step [of ts mx s i sc q s'] inv_count [of ts mx s] inv_count [of ts mx s']
  by (auto simp: small_inv_def on_insert_def card_insert_if split: if_splits)

lemma small_front: "small_inv ts mx s \<Longrightarrow> list_put_in_front_of score li h s = Some (q, s') \<Longrightarrow> small_inv ts mx s'"
  using front_step [of ts mx s score li h] small_subset [of ts mx s s'] unfolding small_inv_def by fastforce

lemma small_regenerate: "length ids < 2 ^ 32 \<Longrightarrow> unsafe_regenerate ts mx ids score s = (n, s') \<Longrightarrow> small_inv ts mx s'"
  using regenerate_step [of ids ts mx score s n s'] inv_count [of ts mx s'] card_length [of ids] by (auto simp: small_inv_def)

lemma list_result_state: "list_result p = (q, s') \<Longrightarrow> \<exists>r. p = (r, s')"
  by (cases p) (auto simp: list_result_def split: sum.splits)

lemma small_result_front:
  assumes "small_inv ts mx s" "map_option list_result (list_put_in_front_of score li h s) = Some (q, s')"
  shows "small_inv ts mx s'"
proof -
  obtain p where p: "list_put_in_front_of score li h s = Some p" "list_result p = (q, s')" using assms(2) by (auto simp: map_option_eq_Some)
  obtain r where "p = (r, s')" using list_result_state [OF p(2)] by blast
  then show ?thesis using small_front [OF assms(1)] p(1) by simp
qed

lemma small_result_update: "small_inv ts mx s \<Longrightarrow> list_result (do_rebag ts mx i sc s) = (q, s') \<Longrightarrow> small_inv ts mx s'"
  using list_result_state [of "do_rebag ts mx i sc s" q s'] small_update [of ts mx s i sc] by blast

lemma run_small: "bags_run ts mx lookup s \<Longrightarrow> small_inv ts mx s"
proof (induction rule: bags_run.induct)
  case start
  have "empty_bags = unsafe_clear empty_bags" by (simp add: empty_bags_def unsafe_clear_def)
  then have "bags_inv ts mx empty_bags" using empty_inv by metis
  then show ?case by (simp add: small_inv_def empty_bags_def)
next
  case (increase s i sc r s')
  then show ?case by (auto simp: on_increase_def attempt_def split: sum.splits intro: small_on_update)
next
  case (decrease s i sc r s')
  then show ?case by (auto simp: on_decrease_def attempt_def Let_def split: sum.splits if_splits intro: small_on_update small_remove)
next
  case (rebag s score org l q s')
  then show ?case by (auto simp: rebag_def attempt_def dispatch_result_def split: sum.splits simp del: map_option_eq_Some dest: small_result_front small_result_update)
next
  case (front s score org l q s')
  then show ?case by (auto simp: put_in_front_of_def split: sum.splits simp del: map_option_eq_Some dest: small_result_front small_result_update)
next
  case (front_other s score org k l q s')
  then show ?case by (auto simp: put_in_front_of_other_def split: sum.splits simp del: map_option_eq_Some dest: small_result_front small_result_update)
qed (rule small_insert small_on_update small_remove small_regenerate, assumption+)+

lemma run_inv:
  assumes "bags_run ts mx lookup s"
  obtains L S where "list_inv ts mx s L S" "repr s L S" "placed ts mx L S" "CounterForListNodes s < 2 ^ 32" "card (dom (ListNodes s)) < 2 ^ 32"
  using run_small [OF assms] inv_count [of ts mx s] by (auto simp: small_inv_def bags_inv_def list_inv_def)

section \<open>Moving an account in the whole list\<close>

lemma insert_before_append:
  "l \<notin> set xs \<Longrightarrow> insert_before l h (xs @ ys) = xs @ insert_before l h ys"
  "l \<in> set xs \<Longrightarrow> insert_before l h (xs @ ys) = insert_before l h xs @ ys"
  by (induction xs) auto

lemma ids_of_update: "u \<notin> set us \<Longrightarrow> ids_of us (L(u := xs)) = ids_of us L"
  by (induction us) (auto simp: ids_of_def)

lemma ids_of_append [simp]: "ids_of (us @ vs) L = ids_of us L @ ids_of vs L" "ids_of (u # us) L = L u @ ids_of us L"
  by (simp_all add: ids_of_def)

lemma moved_in_front:
  assumes l: "links m L S" and us: "distinct us" "u \<in> set us" and li: "li \<in> set (L u)" and h: "h \<in> set (L u)" "h \<noteq> li"
  shows "ids_of us (L(u := insert_before li h (remove1 h (L u)))) = insert_before li h (remove1 h (ids_of us L))"
proof -
  obtain as bs where us': "us = as @ u # bs" using us(2) by (meson split_list)
  have n: "u \<notin> set as" "u \<notin> set bs" using us(1) us' by auto
  have "distinct (ids_of us L)" by (rule distinct_ids_of [OF l us(1)])
  then have o: "li \<notin> set (ids_of as L)" "h \<notin> set (ids_of as L)" using li h by (auto simp: us')
  have "li \<in> set (remove1 h (L u))" using li h by (simp add: in_set_remove1)
  then show ?thesis using o h n by (simp add: us' remove1_append insert_before_append ids_of_update)
qed

lemma thresholds_split:
  assumes t: "thresholds_ok ts mx" and u: "u \<in> set (all_thresholds ts mx)"
  shows "\<exists>rest. all_thresholds ts mx = take (partition_point (\<lambda>t. t < u) ts) ts @ u # rest"
proof (cases "u \<in> set ts")
  case True
  then obtain as bs where ts: "ts = as @ u # bs" by (meson split_list)
  have "\<forall>t \<in> set as. t < u" using t by (auto simp: ts thresholds_ok_def integrity_sorted sorted_wrt_append)
  then have "takeWhile (\<lambda>t. t < u) ts = as" by (simp add: ts takeWhile_append2)
  then have "take (partition_point (\<lambda>t. t < u) ts) ts = as" by (simp add: partition_point_def ts)
  then show ?thesis by (auto simp: all_thresholds_def ts)
next
  case False
  then have e: "u = mx" "all_thresholds ts mx = ts @ [mx]" using u by (auto simp: all_thresholds_def split: if_splits)
  have "\<forall>t \<in> set ts. t < u" using t False e by (auto simp: thresholds_ok_def list_all_iff order.strict_iff_order)
  then have w: "takeWhile (\<lambda>t. t < u) ts = ts" by (simp add: takeWhile_eq_all_conv)
  have "take (partition_point (\<lambda>t. t < u) ts) ts = ts" unfolding partition_point_def w by simp
  then show ?thesis using e by simp
qed


lemma rest_unique: "distinct (xs @ x # ys) \<Longrightarrow> xs @ x # ys = xs' @ x # ys' \<Longrightarrow> ys = ys'"
  by (metis append_Cons_eq_iff distinct.simps(2) distinct_append disjoint_iff list.set_intros(1))

lemma iter_from_repr:
  assumes r: "repr s L S" and xs: "L u = as @ i # bs"
  shows "\<exists>ns. iter_from ts s i = Inr (Some ns) \<and> map nd_id ns = bs @ ids_of (rev (take (partition_point (\<lambda>t. t < u) ts) ts)) L"
proof -
  have l: "links (ListNodes s) L S" by (rule reprD(1) [OF r])
  have i: "ListNodes s i = Some (node_of (L u) S u i)" using linksD(2) [OF l, of i u] xs by simp
  have "next_of (L u) i = hd_opt bs" using next_of_split [of as i bs] linksD(1) [OF l, of u] unfolding xs by simp
  then have "successors s (next_node s (node_of (L u) S u i)) = Some (map (node_of (L u) S u) bs)"
    using successors_suffix [OF l, of u "as @ [i]" bs] xs by (simp add: next_node_def)
  then show ?thesis using i iter_bags_repr [OF l reprD(2) [OF r]] by (simp add: iter_from_def node_get_def Let_def ids_concat comp_def)
qed

section \<open>A sample list\<close>

text \<open>Three accounts: two in the lowest of the bags with thresholds 10 and 20, one above both thresholds.\<close>

definition sample_bags :: "nat bags_list" where
  "sample_bags = snd (unsafe_regenerate [10, 20] 100 [2, 3, 4] (\<lambda>i. if i = 2 then 5 else if i = 3 then 50 else 9) empty_bags)"

lemma sample_bags_eq: "sample_bags = \<lparr>
    ListNodes = [2 \<mapsto> \<lparr>nd_id = 2, nd_prev = None, nd_next = Some 4, nd_bag_upper = 10, nd_score = 5\<rparr>,
      3 \<mapsto> \<lparr>nd_id = 3, nd_prev = None, nd_next = None, nd_bag_upper = 100, nd_score = 50\<rparr>,
      4 \<mapsto> \<lparr>nd_id = 4, nd_prev = Some 2, nd_next = None, nd_bag_upper = 10, nd_score = 9\<rparr>],
    CounterForListNodes = 3,
    ListBags = [10 \<mapsto> \<lparr>bg_head = Some 2, bg_tail = Some 4, bg_upper = 10\<rparr>, 100 \<mapsto> \<lparr>bg_head = Some 3, bg_tail = Some 3, bg_upper = 100\<rparr>],
    bags_events = []\<rparr>"
  by (simp add: sample_bags_def unsafe_regenerate_def unsafe_clear_def list_insert_def empty_bags_def list_contains_def notional_bag_for_def partition_point_def
      bag_get_or_make_def bag_get_def insert_unchecked_def insert_node_unchecked_def node_put_def nodes_insert_def bag_tail_def node_get_def
      bag_put_def bag_is_empty_def sat32_def Let_def fun_eq_iff)

lemma bags_sample_run: "bags_run [10, 20] 100 (Inr :: nat \<Rightarrow> (dispatch_error, nat) result) sample_bags"
  unfolding sample_bags_def by (rule bags_run.regenerate [OF bags_run.start _ surjective_pairing]) simp

lemma sample_thresholds: "thresholds_ok [10, 20] 100"
  by (simp add: thresholds_ok_def integrity_test_def)

lemma sample_bags_iter: "sl_iter [10, 20] 100 sample_bags = Some [3, 2, 4]"
  unfolding sample_bags_eq
  by (simp add: sl_iter_def list_iter_def all_thresholds_def bag_get_def bag_iter_def bag_head_def node_get_def successors.simps next_node_def)

section \<open>Properties\<close>

text \<open>
  C5. After any sequence of operations on a list whose thresholds pass the start-up check, iterating the
  list ends and yields every stored node exactly once, from the highest bag down; every node is in the
  bag of its score, and the counter of the nodes is their number.
\<close>

theorem bags_run_listed:
  assumes "thresholds_ok ts mx" "bags_run ts mx lookup s"
  shows "\<exists>ns. list_iter ts mx s = Some ns \<and> distinct (map nd_id ns) \<and> set (map nd_id ns) = dom (ListNodes s) \<and>
    length ns = CounterForListNodes s \<and> sorted_wrt (\<lambda>a b. nd_bag_upper b \<le> nd_bag_upper a) ns \<and>
    (\<forall>n \<in> set ns. ListNodes s (nd_id n) = Some n \<and> nd_bag_upper n = notional_bag_for ts mx (nd_score n))"
proof -
  obtain L S where i: "list_inv ts mx s L S" and r: "repr s L S" using run_inv [OF assms(2)] by blast
  obtain ns where it: "list_iter ts mx s = Some ns" using list_iter_repr [OF r] by blast
  show ?thesis using it listed_once [OF i assms(1) it] by blast
qed

theorem bags_run_listed_witness:
  "\<exists>ns. list_iter [10, 20] 100 sample_bags = Some ns \<and> map nd_id ns = [3, 2, 4] \<and> length ns = CounterForListNodes sample_bags \<and>
    (\<forall>n \<in> set ns. nd_bag_upper n = notional_bag_for [10, 20] 100 (nd_score n))"
  using bags_run_listed [OF sample_thresholds bags_sample_run] sample_bags_iter by (auto simp: sl_iter_def)

text \<open>
  C24. The state check of the code itself (distinct nodes, counts that agree, sound heads and tails, every
  node in the bag it names) succeeds after any sequence of operations.
\<close>

theorem bags_run_try_state:
  assumes "thresholds_ok ts mx" "bags_run ts mx lookup s" "distinct keys" "set keys = dom (ListNodes s)"
  shows "list_try_state ts mx keys s = Some True"
proof -
  obtain L S where "list_inv ts mx s L S" "CounterForListNodes s < 2 ^ 32" using run_inv [OF assms(2)] by blast
  then show ?thesis using try_state_ok assms by blast
qed

theorem bags_run_try_state_witness: "list_try_state [10, 20] 100 [4, 3, 2] sample_bags = Some True"
  by (rule bags_run_try_state [OF sample_thresholds bags_sample_run]) (auto simp: sample_bags_eq)

text \<open>
  C17. Putting an account in front of another never panics. It fails, leaving the list alone, when one of
  them is absent, when they are in different bags, or when the first is not the heavier; otherwise the
  whole iteration is unchanged but for the account moved directly before the other one.
\<close>

theorem put_in_front_of_correct:
  assumes "thresholds_ok ts mx" "bags_run ts mx lookup s" "sl_iter ts mx s = Some xs"
  shows "\<exists>r s'. list_put_in_front_of score lighter heavier s = Some (r, s') \<and>
    r = (case (node_get s lighter, node_get s heavier) of
           (Some a, Some b) \<Rightarrow> if nd_bag_upper a \<noteq> nd_bag_upper b then Inl NotInSameBag
                              else if score heavier \<le> score lighter then Inl NotHeavier else Inr ()
         | _ \<Rightarrow> Inl NodeNotFound) \<and>
    (if r = Inr () then sl_iter ts mx s' = Some (insert_before lighter heavier (remove1 heavier xs)) else s' = s)"
proof -
  obtain L S where r: "repr s L S" and p: "placed ts mx L S" and c: "card (dom (ListNodes s)) < 2 ^ 32" using run_inv [OF assms(2)] by blast
  have l: "links (ListNodes s) L S" by (rule reprD(1) [OF r])
  let ?us = "rev (all_thresholds ts mx)"
  have xs: "xs = ids_of ?us L" using sl_iter_repr [OF r] assms(3) by simp
  note e = put_in_front_errors [OF r]
  consider "ListNodes s lighter = None" | "ListNodes s lighter \<noteq> None" "ListNodes s heavier = None"
    | u v where "lighter \<in> set (L u)" "heavier \<in> set (L v)"
    using linksD(4) [OF l] by metis
  then show ?thesis
  proof cases
    case 3
    have g: "node_get s lighter = Some (node_of (L u) S u lighter)" "node_get s heavier = Some (node_of (L v) S v heavier)"
      using linksD(2) [OF l 3(1)] linksD(2) [OF l 3(2)] by (simp_all add: node_get_def)
    show ?thesis
    proof (cases "u = v \<and> score lighter < score heavier")
      case True
      then obtain s' where s': "list_put_in_front_of score lighter heavier s = Some (Inr (), s')"
        "repr s' (L(u := insert_before lighter heavier (remove1 heavier (L u)))) S" using put_in_front_ok [OF r 3(1)] 3(2) c by blast
      have "u \<in> set ?us" using p 3(1) notional_in_all [of ts mx] unfolding placed_def by (metis set_rev)
      then have "sl_iter ts mx s' = Some (insert_before lighter heavier (remove1 heavier xs))"
        unfolding sl_iter_repr [OF s'(2)] xs using moved_in_front [OF l _ _ 3(1), of ?us heavier] all_thresholds_distinct [OF assms(1)] 3 True by auto
      then show ?thesis using s'(1) g True by simp
    next
      case False
      then show ?thesis using e(3) [OF 3] e(4) [OF 3(1)] 3(2) g by (auto simp: not_less)
    qed
  qed (auto simp: list_put_in_front_of_def node_get_def split: option.splits)
qed

theorem put_in_front_of_correct_witness:
  "\<exists>s'. list_put_in_front_of (\<lambda>i. i) 2 4 sample_bags = Some (Inr (), s') \<and> sl_iter [10, 20] 100 s' = Some [3, 4, 2]"
  using put_in_front_of_correct [OF sample_thresholds bags_sample_run sample_bags_iter, of "\<lambda>i. i" 2 4] by (auto simp: sample_bags_eq node_get_def)

text \<open>
  C32. Iterating from an account yields exactly the accounts that follow it in the iteration of the whole
  list, so that a reader may stop and resume anywhere.
\<close>

theorem iter_from_resumes:
  assumes "thresholds_ok ts mx" "bags_run ts mx lookup s" "sl_iter ts mx s = Some (before @ start # after)"
  shows "\<exists>ns. iter_from ts s start = Inr (Some ns) \<and> map nd_id ns = after"
proof -
  obtain L S where r: "repr s L S" and i: "list_inv ts mx s L S" and p: "placed ts mx L S" using run_inv [OF assms(2)] by blast
  have l: "links (ListNodes s) L S" by (rule reprD(1) [OF r])
  let ?us = "rev (all_thresholds ts mx)"
  have xs: "ids_of ?us L = before @ start # after" using sl_iter_repr [OF r] assms(3) by simp
  have "start \<in> set (ids_of ?us L)" unfolding xs by simp
  then obtain u where u: "start \<in> set (L u)" "u \<in> set ?us" by (auto simp: ids_of_def)
  then obtain as bs where a: "L u = as @ start # bs" by (meson split_list)
  obtain rest where rest: "all_thresholds ts mx = take (partition_point (\<lambda>t. t < u) ts) ts @ u # rest"
    using thresholds_split [OF assms(1)] u(2) by auto
  let ?lo = "ids_of (rev (take (partition_point (\<lambda>t. t < u) ts) ts)) L"
  have "ids_of ?us L = (ids_of (rev rest) L @ as) @ start # (bs @ ?lo)" by (subst rest) (simp add: a)
  then have "before @ start # after = (ids_of (rev rest) L @ as) @ start # (bs @ ?lo)" unfolding xs .
  moreover have "distinct (before @ start # after)" unfolding xs [symmetric] using distinct_ids_of [OF l] all_thresholds_distinct [OF assms(1)] by simp
  ultimately have "after = bs @ ?lo" using rest_unique by metis
  then show ?thesis using iter_from_repr [OF r a, of ts] by simp
qed

theorem iter_from_resumes_witness: "\<exists>ns. iter_from [10, 20] sample_bags 3 = Inr (Some ns) \<and> map nd_id ns = [2, 4]"
  using iter_from_resumes [OF sample_thresholds bags_sample_run, of "[]" 3 "[2, 4]"] sample_bags_iter by simp



text \<open>
  Inserting an account that is not listed adds one to the count, and removing it again succeeds and
  leaves a list of the accounts that were there before.
\<close>

lemma insert_remove_roundtrip:
  assumes "thresholds_ok ts mx" "bags_run ts mx lookup s" "sl_count s < 2 ^ 32 - 1" "sl_iter ts mx s = Some xs"
    "on_insert ts mx i sc s = (Inr (), s1)"
  shows "sl_count s1 = sl_count s + 1 \<and>
    (\<exists>s2 ys. on_remove i s1 = (Inr (), s2) \<and> sl_count s2 = sl_count s \<and> sl_iter ts mx s2 = Some ys \<and> distinct ys \<and> set ys = set xs)"
proof -
  have g: "bags_good ts mx s" using run_small [OF assms(2)] assms(1) by (simp add: bags_good_def small_inv_def)
  have c: "sl_count s1 = sl_count s + 1" by (rule bags.count_insert [OF g assms(3,5)])
  obtain s2 ys where s2: "on_remove i s1 = (Inr (), s2)" "sl_iter ts mx s2 = Some ys" "distinct ys" "set ys = set xs"
    using bags.insert_then_remove [OF g assms(3,5,4)] by blast
  have "bags_good ts mx s1" using bags.insert_law [OF g assms(3,5)] by blast
  then have "sl_count s1 = sl_count s2 + 1" by (rule bags.count_remove [OF _ s2(1)])
  then show ?thesis using c s2 by simp
qed



end
