(* ===== verification/Wide_Arith.thy ===== *)
theory Wide_Arith
  imports Prelude "HOL-Library.Monad_Syntax"
begin

text \<open>
  The 128-bit helpers (\<^verbatim>\<open>primitives/arithmetic/src/helpers_128bit.rs\<close>): the binary greatest common
  divisor, products of 256 bits and their division, the multiplication by a rational with rounding that
  the fixed-point types rest on, and the integer square root. Numbers are machine words whose operations
  wrap; \<open>None\<close> in front of a result is a panic or a loop that never ends.
\<close>

unbundle bit_operations_syntax

section \<open>Definitions\<close>

type_synonym u128 = "128 word"

lemma unat_drop_bit: "unat (drop_bit n x) = unat x div 2 ^ n"
  unfolding unat_drop_bit_eq by (rule drop_bit_eq_div)

lemma unat_push_bit: "unat (push_bit n x :: 'a::len word) = (unat x * 2 ^ n) mod 2 ^ LENGTH('a)"
  unfolding unsigned_push_bit_eq push_bit_eq_mult [of n "unat x"] by (rule take_bit_eq_mod)

lemma unat_positive: "x \<noteq> 0 \<Longrightarrow> 0 < unat x"
  by (simp add: unat_gt_0)

lemma unat_min_max: "unat (max a b - min a b :: 'a::len word) = unat (max a b) - unat (min a b)"
  by (intro unat_sub) (simp add: min_le_iff_disj le_max_iff_disj)

function gcd128 :: "u128 \<Rightarrow> u128 \<Rightarrow> u128" where
  "gcd128 a b =
     (if a = b then b
      else if a = 0 then b
      else if b = 0 then a
      else if a AND 1 = 0 \<and> b AND 1 = 1 then gcd128 (drop_bit 1 a) b
      else if a AND 1 = 1 \<and> b AND 1 = 0 then gcd128 (drop_bit 1 b) a
      else if a AND 1 = 0 \<and> b AND 1 = 0 then push_bit 1 (gcd128 (drop_bit 1 a) (drop_bit 1 b))
      else (let x = min a b; y = max a b in gcd128 (drop_bit 1 (y - x)) x))"
  by pat_completeness auto
termination
proof (relation "measure (\<lambda>(a, b). unat a + unat b)")
  fix a b x y :: u128
  assume "a \<noteq> b" "a \<noteq> 0" "b \<noteq> 0" and x: "x = min a b" and y: "y = max a b"
  then have "0 < unat a" "0 < unat b" "unat x + unat y = unat a + unat b"
    by (auto simp: unat_positive min_def max_def)
  moreover have "unat (drop_bit 1 (y - x)) = (unat y - unat x) div 2" unfolding x y by (simp add: unat_drop_bit unat_min_max)
  moreover have "unat x \<le> unat y" unfolding x y by (simp add: min_def max_def word_le_nat_alt)
  ultimately show "((drop_bit 1 (y - x), x), a, b) \<in> measure (\<lambda>(a, b). unat a + unat b)" by simp
qed (auto simp: unat_drop_bit dest!: unat_positive)

declare gcd128.simps [simp del]

definition split128 :: "u128 \<Rightarrow> u64 \<times> u64" where
  "split128 a = (let al = ucast a; ah = ucast (drop_bit 64 a) in (ah, al))"

definition low_64 :: "u128 \<Rightarrow> u128" where
  "low_64 a = a AND (push_bit 64 1 - 1)"

definition high_64 :: "u128 \<Rightarrow> u128" where
  "high_64 a = drop_bit 64 a"

definition neg128 :: "u128 \<Rightarrow> u128" where
  "neg128 a = NOT a + 1"

text \<open>Division by zero panics.\<close>

definition div128 :: "u128 \<Rightarrow> u128 option" where
  "div128 a = (if a = 0 then None else Some (neg128 a div a + 1))"

definition mod128 :: "u128 \<Rightarrow> u128 option" where
  "mod128 a = (if a = 0 then None else Some (neg128 a mod a))"

record Double128 =
  d_high :: u128
  d_low :: u128

definition try_into_u128 :: "Double128 \<Rightarrow> (unit, u128) result" where
  "try_into_u128 x = (if d_high x = 0 then Inr (d_low x) else Inl ())"

definition double_zero :: Double128 where
  "double_zero = \<lparr>d_high = 0, d_low = 0\<rparr>"

definition left_shift_64 :: "u128 \<Rightarrow> Double128" where
  "left_shift_64 scaled_value = \<lparr>d_high = drop_bit 64 scaled_value, d_low = push_bit 64 scaled_value\<rparr>"

definition from_low :: "u128 \<Rightarrow> Double128" where
  "from_low low = \<lparr>d_high = 0, d_low = low\<rparr>"

definition low_part :: "Double128 \<Rightarrow> Double128" where
  "low_part x = x\<lparr>d_high := 0\<rparr>"

definition overflowing_add :: "u128 \<Rightarrow> u128 \<Rightarrow> u128 \<times> bool" where
  "overflowing_add a b = (a + b, 2 ^ 128 \<le> unat a + unat b)"

definition double_add :: "Double128 \<Rightarrow> Double128 \<Rightarrow> Double128" where
  "double_add x b =
     (let (low, overflow) = overflowing_add (d_low x) (d_low b);
          carry = (if overflow then 1 else 0);
          high = d_high x + d_high b + carry
      in \<lparr>d_high = high, d_low = low\<rparr>)"

definition product_of :: "u128 \<Rightarrow> u128 \<Rightarrow> Double128" where
  "product_of a b =
     (let (a_low, a_high) = (low_64 a, high_64 a);
          (b_low, b_high) = (low_64 b, high_64 b);
          (f, outer, i, l) = (a_low * b_low, a_low * b_high, a_high * b_low, a_high * b_high);
          fl = \<lparr>d_high = l, d_low = f\<rparr>;
          i = left_shift_64 i;
          outer = left_shift_64 outer
      in double_add (double_add fl i) outer)"

partial_function (option) div_loop :: "u128 \<Rightarrow> u128 \<Rightarrow> Double128 \<Rightarrow> Double128 \<Rightarrow> (Double128 \<times> Double128) option" where
  "div_loop q r x a =
     (if d_high a \<noteq> 0
      then div_loop q r (double_add x (product_of (d_high a) q)) (double_add (product_of (d_high a) r) (low_part a))
      else Some (x, a))"

declare div_loop.simps [code]

definition double_div :: "Double128 \<Rightarrow> u128 \<Rightarrow> (Double128 \<times> u128) option" where
  "double_div a rhs =
     (if rhs = 1 then Some (a, 0)
      else do {
        q \<leftarrow> div128 rhs;
        r \<leftarrow> mod128 rhs;
        (x, a) \<leftarrow> div_loop q r double_zero a;
        Some (double_add x (from_low (d_low a div rhs)), d_low a mod rhs)
      })"

datatype Rounding = Up | Down | NearestPrefUp | NearestPrefDown

definition checked_add128 :: "u128 \<Rightarrow> u128 \<Rightarrow> u128 option" where
  "checked_add128 a b = (if unat a + unat b < 2 ^ 128 then Some (a + b) else None)"

definition multiply_by_rational_with_rounding :: "u128 \<Rightarrow> u128 \<Rightarrow> u128 \<Rightarrow> Rounding \<Rightarrow> u128 option option" where
  "multiply_by_rational_with_rounding a b c r =
     (if c = 0 then Some None
      else do {
        (result, remainder) \<leftarrow> double_div (product_of a b) c;
        Some (case try_into_u128 result of
                Inl _ \<Rightarrow> None
              | Inr result \<Rightarrow>
                  if (case r of
                        Up \<Rightarrow> remainder > 0
                      | NearestPrefUp \<Rightarrow> remainder \<ge> c div 2 + c mod 2
                      | NearestPrefDown \<Rightarrow> remainder > c div 2
                      | Down \<Rightarrow> False)
                  then checked_add128 result 1
                  else Some result)
      })"

definition leading_zeros :: "'a::len word \<Rightarrow> nat" where
  "leading_zeros x = length (takeWhile (\<lambda>i. \<not> bit x i) (rev [0..<LENGTH('a)]))"

function sqrt_loop :: "u128 \<Rightarrow> u128 \<Rightarrow> u128 \<Rightarrow> u128" where
  "sqrt_loop bt n result =
     (if bt \<noteq> 0 then
        (if n \<ge> result + bt
         then sqrt_loop (drop_bit 2 bt) (n - (result + bt)) (drop_bit 1 result + bt)
         else sqrt_loop (drop_bit 2 bt) n (drop_bit 1 result))
      else result)"
  by pat_completeness auto
termination
  by (relation "measure (\<lambda>(bt, n, result). unat bt)") (auto simp: unat_drop_bit dest!: unat_positive)

declare sqrt_loop.simps [simp del]

definition sqrt128 :: "u128 \<Rightarrow> u128" where
  "sqrt128 n =
     (if n = 0 then 0
      else
        (let max_shift = leading_zeros (0 :: u128) - 1;
             shift = (max_shift - leading_zeros n) div 2 * 2;
             bt = push_bit shift 1
         in sqrt_loop bt n 0))"

section \<open>Numbers of 256 bits\<close>

definition val256 :: "Double128 \<Rightarrow> nat" where
  "val256 x = unat (d_high x) * 2 ^ 128 + unat (d_low x)"

lemma unat_lt_128: "unat (x :: u128) < 2 ^ 128"
  using unsigned_less [of x, where ?'a = nat] by simp

lemma val256_bound: "val256 x < 2 ^ 256"
  using unat_lt_128 [of "d_high x"] unat_lt_128 [of "d_low x"] by (simp add: val256_def)

lemma unat_plus_ok: "unat a + unat b < 2 ^ LENGTH('a) \<Longrightarrow> unat (a + b :: 'a::len word) = unat a + unat b"
  by (simp add: unat_word_ariths)

lemma unat_times_ok: "unat a * unat b < 2 ^ LENGTH('a) \<Longrightarrow> unat (a * b :: 'a::len word) = unat a * unat b"
  by (simp add: unat_word_ariths)

lemma carry_mod: "0 < B \<Longrightarrow> (h * B + l) mod (B * B) = ((h + l div B) mod B) * B + l mod (B :: nat)"
  by (simp add: mod_mult2_eq mult.commute)

lemma carry_value: "a < B \<Longrightarrow> b < B \<Longrightarrow> (a + b) div B = (if B \<le> a + b then 1 else (0 :: nat))"
  by (simp add: div_nat_eqI)

lemma double_add_val: "val256 (double_add x y) = (val256 x + val256 y) mod 2 ^ 256"
proof -
  define B :: nat where "B = 2 ^ 128"
  let ?l = "unat (d_low x) + unat (d_low y)" and ?h = "unat (d_high x) + unat (d_high y)"
  have B: "0 < B" "unat (d_low x) < B" "unat (d_low y) < B" "2 ^ 256 = B * B" using unat_lt_128 by (simp_all add: B_def)
  have w: "unat (a + b) = (unat a + unat b) mod B" for a b :: u128 by (simp add: unat_word_ariths B_def)
  have "d_high (double_add x y) = d_high x + d_high y + of_nat (?l div B)"
    unfolding carry_value [OF B(2,3)] by (simp add: double_add_def overflowing_add_def Let_def B_def)
  moreover have "unat (of_nat (?l div B) :: u128) = ?l div B" unfolding carry_value [OF B(2,3)] by simp
  ultimately have h: "unat (d_high (double_add x y)) = (?h + ?l div B) mod B" by (simp add: w mod_simps)
  have l: "unat (d_low (double_add x y)) = ?l mod B" by (simp add: double_add_def overflowing_add_def Let_def w)
  have "val256 (double_add x y) = (?h * B + ?l) mod (B * B)"
    unfolding carry_mod [OF B(1)] h [symmetric] l [symmetric] by (simp only: val256_def B_def)
  also have "?h * B + ?l = val256 x + val256 y" unfolding val256_def B_def by (simp add: algebra_simps)
  finally show ?thesis by (simp only: B)
qed

lemma double_add_exact: "val256 x + val256 y < 2 ^ 256 \<Longrightarrow> val256 (double_add x y) = val256 x + val256 y"
  by (simp add: double_add_val)

lemma unat_halves: "unat (low_64 a) = unat a mod 2 ^ 64" "unat (high_64 a) = unat a div 2 ^ 64"
proof -
  have "low_64 a = take_bit 64 a" by (simp add: low_64_def take_bit_eq_mask mask_eq_exp_minus_1 push_bit_eq_mult)
  then have "unat (low_64 a) = take_bit 64 (unat a)" by (simp only: unsigned_take_bit_eq)
  then show "unat (low_64 a) = unat a mod 2 ^ 64" unfolding take_bit_eq_mod [of 64 "unat a"] .
  show "unat (high_64 a) = unat a div 2 ^ 64" unfolding high_64_def by (rule unat_drop_bit)
qed

lemma shift_split: "(x div W) * (W * W) + (x * W) mod (W * W) = x * (W :: nat)"
proof -
  have "(x div W) * (W * W) + (x * W) mod (W * W) = (x div W * W + x mod W) * W" by (simp only: mult_mod_left [symmetric] distrib_right mult.assoc)
  then show ?thesis by simp
qed

lemma left_shift_val: "val256 (left_shift_64 x) = unat x * 2 ^ 64"
proof -
  define W :: nat where "W = 2 ^ 64"
  have "unat (push_bit 64 x) = (unat x * W) mod (W * W)" unfolding unat_push_bit W_def by simp
  moreover have "unat (drop_bit 64 x) = unat x div W" unfolding W_def by (rule unat_drop_bit)
  moreover have "2 ^ 128 = W * W" by (simp add: W_def)
  ultimately have "val256 (left_shift_64 x) = (unat x div W) * (W * W) + (unat x * W) mod (W * W)"
    by (simp only: val256_def left_shift_64_def Double128.simps)
  then show ?thesis unfolding shift_split W_def .
qed

lemma product_val: "val256 (product_of a b) = unat a * unat b"
proof -
  define W :: nat where "W = 2 ^ 64"
  define al ah bl bh where h: "al = unat a mod W" "ah = unat a div W" "bl = unat b mod W" "bh = unat b div W"
  have WW: "2 ^ 128 = W * W" "2 ^ 256 = (W * W) * (W * W)" by (simp_all add: W_def)
  have bd: "al < W" "ah < W" "bl < W" "bh < W"
    using unat_lt_128 [of a] unat_lt_128 [of b] unfolding WW h by (simp_all add: less_mult_imp_div_less W_def)
  have hv: "unat (low_64 a) = al" "unat (high_64 a) = ah" "unat (low_64 b) = bl" "unat (high_64 b) = bh"
    by (simp_all only: unat_halves h W_def)
  have ab: "unat a = ah * W + al" "unat b = bh * W + bl" by (simp_all add: h)
  have tm: "unat (x * y) = unat x * unat y" if "unat x < W" "unat y < W" for x y :: u128
    using mult_strict_mono [OF that] that(1) by (intro unat_times_ok) (simp add: WW [symmetric])
  have e: "unat (low_64 a * low_64 b) = al * bl" "unat (low_64 a * high_64 b) = al * bh"
    "unat (high_64 a * low_64 b) = ah * bl" "unat (high_64 a * high_64 b) = ah * bh"
    using bd by (simp_all add: tm hv)
  have eq: "ah * bh * 2 ^ 128 + al * bl + ah * bl * 2 ^ 64 + al * bh * 2 ^ 64 = unat a * unat b"
    unfolding WW W_def [symmetric] ab by (simp add: algebra_simps)
  have "unat a * unat b < 2 ^ 256" using mult_strict_mono [OF unat_lt_128 [of a] unat_lt_128 [of b]] by simp
  then have s: "ah * bh * 2 ^ 128 + al * bl + ah * bl * 2 ^ 64 + al * bh * 2 ^ 64 < 2 ^ 256" unfolding eq .
  have v: "val256 \<lparr>d_high = high_64 a * high_64 b, d_low = low_64 a * low_64 b\<rparr> = ah * bh * 2 ^ 128 + al * bl" by (simp add: val256_def e)
  have "val256 (double_add \<lparr>d_high = high_64 a * high_64 b, d_low = low_64 a * low_64 b\<rparr> (left_shift_64 (high_64 a * low_64 b)))
      = ah * bh * 2 ^ 128 + al * bl + ah * bl * 2 ^ 64"
    using s v by (subst double_add_exact) (simp_all add: left_shift_val e)
  then have "val256 (product_of a b) = ah * bh * 2 ^ 128 + al * bl + ah * bl * 2 ^ 64 + al * bh * 2 ^ 64"
    unfolding product_of_def Let_def prod.case using s by (subst double_add_exact) (simp_all add: left_shift_val e)
  then show ?thesis unfolding eq .
qed

section \<open>Division\<close>

lemma unat_neg128: "a \<noteq> 0 \<Longrightarrow> unat (neg128 a) = 2 ^ 128 - unat a"
proof -
  assume "a \<noteq> 0"
  have "neg128 a = - a" by (simp add: neg128_def minus_eq_not_plus_1)
  then show ?thesis using unat_positive [OF \<open>a \<noteq> 0\<close>] unat_sub_if' [of 0 a] by simp
qed

lemma div_mod_128:
  assumes "2 \<le> unat a"
  shows "\<exists>q r. div128 a = Some q \<and> mod128 a = Some r \<and> unat q = 2 ^ 128 div unat a \<and> unat r = 2 ^ 128 mod unat a"
proof -
  define N :: nat where "N = 2 ^ 128"
  have a: "a \<noteq> 0" "unat a \<le> N" "0 < unat a" using assms unat_lt_128 [of a] by (auto simp: N_def)
  have n: "unat (neg128 a) = N - unat a" using unat_neg128 [OF a(1)] by (simp add: N_def)
  have d: "N div unat a = (N - unat a) div unat a + 1" using a by (simp add: le_div_geq)
  have "N div unat a \<le> N div 2" using assms by (rule div_le_mono2 [rotated]) simp
  then have "(N - unat a) div unat a + 1 < 2 ^ 128" unfolding d [symmetric] by (simp add: N_def)
  then have "unat (neg128 a div a + 1) = N div unat a" using d n by (simp add: unat_word_ariths N_def)
  moreover have "unat (neg128 a mod a) = N mod unat a" using n a by (simp add: unat_mod le_mod_geq)
  ultimately show ?thesis using a by (simp add: div128_def mod128_def N_def)
qed

lemma div_loop_ok:
  assumes "unat q * c + unat r = 2 ^ 128" "1 \<le> c" "val256 x * c + val256 a < 2 ^ 256"
  shows "\<exists>x' a'. div_loop q r x a = Some (x', a') \<and> d_high a' = 0 \<and> val256 x' * c + val256 a' = val256 x * c + val256 a"
  using assms(3)
proof (induction "val256 a" arbitrary: x a rule: less_induct)
  case less
  show ?case
  proof (cases "d_high a = 0")
    case True
    then show ?thesis by (simp add: div_loop.simps)
  next
    case False
    let ?h = "unat (d_high a)" and ?x = "double_add x (product_of (d_high a) q)" and ?a = "double_add (product_of (d_high a) r) (low_part a)"
    have h: "0 < ?h" using False by (rule unat_positive)
    have lp: "val256 (low_part a) = unat (d_low a)" by (simp add: val256_def low_part_def)
    have va: "val256 a = ?h * (unat q * c + unat r) + unat (d_low a)" unfolding assms(1) by (simp add: val256_def)
    have s: "(val256 x + ?h * unat q) * c + (?h * unat r + unat (d_low a)) = val256 x * c + val256 a" unfolding va by (simp add: algebra_simps)
    have "val256 x + ?h * unat q \<le> (val256 x + ?h * unat q) * c" using assms(2) by simp
    then have "val256 x + ?h * unat q < 2 ^ 256" using s less.prems by linarith
    then have x: "val256 ?x = val256 x + ?h * unat q" by (simp add: double_add_exact product_val)
    have "?h * unat r + unat (d_low a) < 2 ^ 256" using s less.prems by linarith
    then have a: "val256 ?a = ?h * unat r + unat (d_low a)" by (simp add: double_add_exact product_val lp)
    have "?h * unat r < ?h * 2 ^ 128" using h unat_lt_128 [of r] by simp
    then have "val256 ?a < val256 a" unfolding a by (simp add: val256_def)
    moreover have "val256 ?x * c + val256 ?a = val256 x * c + val256 a" unfolding x a by (rule s)
    ultimately show ?thesis using less.hyps [of ?a ?x] less.prems False by (subst div_loop.simps) auto
  qed
qed

lemma double_div_ok:
  assumes "c \<noteq> 0"
  shows "\<exists>q r. double_div a c = Some (q, r) \<and> val256 q = val256 a div unat c \<and> unat r = val256 a mod unat c"
proof (cases "c = 1")
  case True
  then show ?thesis by (simp add: double_div_def)
next
  case False
  have "unat c \<noteq> 1" using False by (metis unsigned_1 unsigned_word_eqI)
  then have c: "2 \<le> unat c" using unat_positive [OF assms] by simp
  obtain q r where qr: "div128 c = Some q" "mod128 c = Some r" "unat q = 2 ^ 128 div unat c" "unat r = 2 ^ 128 mod unat c"
    using div_mod_128 [OF c] by blast
  have "unat q * unat c + unat r = 2 ^ 128" unfolding qr by simp
  moreover have z: "val256 double_zero = 0" by (simp add: val256_def double_zero_def)
  ultimately obtain x b where l: "div_loop q r double_zero a = Some (x, b)" "d_high b = 0" "val256 x * unat c + val256 b = val256 a"
    using div_loop_ok [of q "unat c" r double_zero a] c val256_bound [of a] by auto
  have b: "val256 b = unat (d_low b)" using l(2) by (simp add: val256_def)
  have f: "val256 (from_low (d_low b div c)) = unat (d_low b) div unat c" by (simp add: val256_def from_low_def unat_div)
  have q: "val256 x + unat (d_low b) div unat c = val256 a div unat c" unfolding l(3) [symmetric] b using c by simp
  have "val256 a div unat c < 2 ^ 256" using val256_bound [of a] div_le_dividend [of "val256 a" "unat c"] by linarith
  then have "val256 (double_add x (from_low (d_low b div c))) = val256 a div unat c" using q f by (simp add: double_add_exact)
  moreover have "unat (d_low b mod c) = val256 a mod unat c" unfolding l(3) [symmetric] b by (simp add: unat_mod)
  ultimately show ?thesis using False qr l by (simp add: double_div_def)
qed

section \<open>Rounding\<close>

text \<open>The quotient rounded as each mode says, on natural numbers.\<close>

definition round_div :: "Rounding \<Rightarrow> nat \<Rightarrow> nat \<Rightarrow> nat" where
  "round_div r p c =
     (case r of
        Up \<Rightarrow> (p + (c - 1)) div c
      | Down \<Rightarrow> p div c
      | NearestPrefUp \<Rightarrow> (2 * p + c) div (2 * c)
      | NearestPrefDown \<Rightarrow> (2 * p + (c - 1)) div (2 * c))"

definition rounds_up :: "Rounding \<Rightarrow> nat \<Rightarrow> nat \<Rightarrow> bool" where
  "rounds_up r m c = (case r of Up \<Rightarrow> 0 < m | Down \<Rightarrow> False | NearestPrefUp \<Rightarrow> c \<le> 2 * m | NearestPrefDown \<Rightarrow> c < 2 * m)"

lemma div_offset: "m < d \<Longrightarrow> k \<le> d \<Longrightarrow> (q * d + (m + k)) div d = q + (if d \<le> m + k then 1 else (0 :: nat))"
  by (simp add: div_nat_eqI)

lemma round_div_eq: "0 < c \<Longrightarrow> round_div r p c = p div c + (if rounds_up r (p mod c) c then 1 else 0)"
proof -
  assume c: "0 < c"
  define q m where qm: "q = p div c" "m = p mod c"
  have m: "m < c" and p: "p = q * c + m" using c by (simp_all add: qm)
  have "(p + (c - 1)) div c = q + (if 0 < m then 1 else 0)"
    using div_offset [OF m, of "c - 1" q] m by (auto simp: p add.assoc split: if_splits)
  moreover have "(2 * p + c) div (2 * c) = q + (if c \<le> 2 * m then 1 else 0)"
    using div_offset [of "2 * m" "2 * c" c q] m by (auto simp: p algebra_simps split: if_splits)
  moreover have "(2 * p + (c - 1)) div (2 * c) = q + (if c < 2 * m then 1 else 0)"
    using div_offset [of "2 * m" "2 * c" "c - 1" q] m by (auto simp: p algebra_simps split: if_splits)
  ultimately show ?thesis by (cases r) (simp_all add: round_div_def rounds_up_def qm)
qed

lemma rounds_up_word:
  fixes m c :: "'a::len word"
  assumes "1 < LENGTH('a)"
  shows "(case r of Up \<Rightarrow> m > 0 | NearestPrefUp \<Rightarrow> m \<ge> c div 2 + c mod 2 | NearestPrefDown \<Rightarrow> m > c div 2 | Down \<Rightarrow> False)
    = rounds_up r (unat m) (unat c)"
proof -
  have "2 ^ 1 < (2 :: nat) ^ LENGTH('a)" using assms by (intro power_strict_increasing) simp_all
  then have "unat (2 :: 'a word) = 2" using assms by (simp add: unat_numeral)
  then have d: "unat (c div 2) = unat c div 2" "unat (c mod 2) = unat c mod 2" by (simp_all add: unat_div unat_mod)
  have "unat c div 2 + unat c mod 2 \<le> unat c" by linarith
  then have "unat c div 2 + unat c mod 2 < 2 ^ LENGTH('a)" using unsigned_less [of c, where ?'a = nat] by linarith
  then have s: "unat (c div 2 + c mod 2) = unat c div 2 + unat c mod 2" using d by (simp add: unat_word_ariths)
  have "k div 2 + k mod 2 \<le> n \<longleftrightarrow> k \<le> 2 * n" "k div 2 < n \<longleftrightarrow> k < 2 * n" for k n :: nat by presburger+
  then show ?thesis using d s by (cases r) (simp_all add: rounds_up_def word_le_nat_alt word_less_nat_alt)
qed

lemma try_into_val: "try_into_u128 x = (if val256 x < 2 ^ 128 then Inr (of_nat (val256 x)) else Inl ())"
proof (cases "d_high x = 0")
  case True
  then show ?thesis using unat_lt_128 [of "d_low x"] by (simp add: try_into_u128_def val256_def)
next
  case False
  then have "2 ^ 128 \<le> val256 x" using unat_positive [OF False] by (simp add: val256_def)
  then show ?thesis using False by (simp add: try_into_u128_def)
qed

lemma multiply_by_rational_ok:
  assumes "c \<noteq> 0"
  shows "multiply_by_rational_with_rounding a b c r =
    Some (let n = round_div r (unat a * unat b) (unat c) in if n < 2 ^ 128 then Some (of_nat n) else None)"
proof -
  let ?p = "unat a * unat b"
  have c: "0 < unat c" by (rule unat_positive [OF assms])
  obtain q m where qm: "double_div (product_of a b) c = Some (q, m)" "val256 q = ?p div unat c" "unat m = ?p mod unat c"
    using double_div_ok [OF assms, of "product_of a b"] by (auto simp: product_val)
  define n where "n = ?p div unat c"
  have t: "try_into_u128 q = (if n < 2 ^ 128 then Inr (of_nat n) else Inl ())" unfolding try_into_val qm(2) n_def ..
  have u: "unat (of_nat n :: u128) = n" if "n < 2 ^ 128" using that by (simp add: unat_of_nat)
  show ?thesis
    using assms u by (simp add: multiply_by_rational_with_rounding_def qm(1) t rounds_up_word round_div_eq [OF c] qm(3) n_def [symmetric]
        checked_add128_def Let_def add.commute)
qed

section \<open>Greatest common divisor\<close>

lemma and_one_parity: "a AND 1 = 0 \<longleftrightarrow> even (unat a)" "a AND 1 = 1 \<longleftrightarrow> odd (unat (a :: u128))"
proof -
  have "unat (a AND 1) = unat a mod 2" by (simp add: and_one_eq unat_mod)
  then show "a AND 1 = 0 \<longleftrightarrow> even (unat a)" "a AND 1 = 1 \<longleftrightarrow> odd (unat a)"
    by (metis even_iff_mod_2_eq_zero unsigned_0 unsigned_word_eqI, metis odd_iff_mod_2_eq_one unsigned_1 unsigned_word_eqI)
qed

lemma gcd_even_odd: "even a \<Longrightarrow> odd b \<Longrightarrow> gcd (a div 2) b = gcd a (b :: nat)"
  by (elim evenE) (simp add: gcd_mult_left_left_cancel)

lemma gcd_odd_odd: "odd a \<Longrightarrow> odd b \<Longrightarrow> gcd ((max a b - min a b) div 2) (min a b) = gcd a (b :: nat)"
proof -
  assume o: "odd a" "odd b"
  have g: "gcd (max a b - min a b) (min a b) = gcd a b" by (metis gcd_diff1_nat gcd.commute max_def min_def nat_le_linear)
  have "gcd ((max a b - min a b) div 2) (min a b) = gcd (max a b - min a b) (min a b)"
    using o by (intro gcd_even_odd) (auto simp: max_def min_def)
  then show ?thesis using g by simp
qed

lemma gcd128_ok: "unat (gcd128 a b) = gcd (unat a) (unat b)"
proof (induction a b rule: gcd128.induct)
  case (1 a b)
  note p = and_one_parity [of a] and_one_parity [of b]
  consider "a = b" | "a \<noteq> b" "a = 0 \<or> b = 0" | "a \<noteq> b" "a \<noteq> 0" "b \<noteq> 0" "even (unat a)" "odd (unat b)"
    | "a \<noteq> b" "a \<noteq> 0" "b \<noteq> 0" "odd (unat a)" "even (unat b)" | "a \<noteq> b" "a \<noteq> 0" "b \<noteq> 0" "even (unat a)" "even (unat b)"
    | "a \<noteq> b" "a \<noteq> 0" "b \<noteq> 0" "odd (unat a)" "odd (unat b)" by blast
  then show ?case
  proof cases
    case 1
    then show ?thesis by (subst gcd128.simps) simp
  next
    case 2
    then show ?thesis by (subst gcd128.simps) auto
  next
    case 3
    then have "gcd128 a b = gcd128 (drop_bit 1 a) b" by (subst gcd128.simps) (simp add: p)
    then show ?thesis using 1(1) 3 p gcd_even_odd [OF 3(4,5)] by (simp add: unat_drop_bit)
  next
    case 4
    then have "gcd128 a b = gcd128 (drop_bit 1 b) a" by (subst gcd128.simps) (simp add: p)
    then show ?thesis using 1(2) 4 p gcd_even_odd [OF 4(5,4)] by (simp add: unat_drop_bit gcd.commute)
  next
    case 5
    let ?g = "gcd128 (drop_bit 1 a) (drop_bit 1 b)"
    have e: "gcd128 a b = push_bit 1 ?g" using 5 by (subst gcd128.simps) (simp add: p)
    have "unat ?g = gcd (unat a div 2) (unat b div 2)" using 1(3) 5 p by (simp add: unat_drop_bit)
    then have g: "unat ?g * 2 = gcd (unat a) (unat b)" using 5 by (metis dvd_mult_div_cancel gcd_mult_distrib_nat mult.commute)
    also have "\<dots> \<le> unat a" using unat_positive [OF 5(2)] by (simp add: gcd_le1_nat)
    finally show ?thesis using g unat_lt_128 [of a] unfolding e unat_push_bit by simp
  next
    case 6
    have m: "unat (min a b) = min (unat a) (unat b)" "unat (max a b) = max (unat a) (unat b)"
      by (simp_all add: min_def max_def word_le_nat_alt)
    have "gcd128 a b = gcd128 (drop_bit 1 (max a b - min a b)) (min a b)" using 6 by (subst gcd128.simps) (simp add: p Let_def)
    then show ?thesis using 1(4) [of "min a b" "max a b"] 6 p gcd_odd_odd [OF 6(4,5)] by (simp add: unat_drop_bit unat_min_max m)
  qed
qed

section \<open>Square root\<close>

lemma sqrt_square: "(r + 2 ^ k) ^ 2 = r ^ 2 + (r * 2 ^ Suc k + 4 ^ k)" for r :: nat
proof -
  have "(4::nat) ^ k = 2 ^ k * 2 ^ k" by (simp add: power_mult_distrib [symmetric])
  then show ?thesis by (simp add: power2_eq_square algebra_simps)
qed

lemma sqrt_fits:
  assumes "r + 2 ^ Suc k \<le> (2 :: nat) ^ 64"
  shows "r * 2 ^ Suc k + 4 ^ k < 2 ^ 128"
proof -
  have "(0::nat) < 2 ^ k" by simp
  then have "r + 2 ^ k < 2 ^ 64" using assms unfolding power_Suc by linarith
  then have "(r + 2 ^ k) ^ 2 < (2 ^ 64) ^ 2" by (intro power_strict_mono) simp_all
  also have "\<dots> = (2::nat) ^ 128" by (simp only: power_mult [symmetric]) simp
  finally show ?thesis unfolding sqrt_square by (rule add_lessD1 [of _ "r ^ 2", OF ord_eq_less_trans [OF add.commute]])
qed

text \<open>One round tries the next binary digit of the root.\<close>

lemma sqrt_round:
  assumes b: "unat bt = 4 ^ k" and res: "unat result = r * 2 ^ Suc k" and n: "r ^ 2 + unat n = N" and up: "N < (r + 2 ^ Suc k) ^ 2"
    and bd: "r + 2 ^ Suc k \<le> 2 ^ 64"
  shows "\<exists>r' n' result'. sqrt_loop bt n result = sqrt_loop (drop_bit 2 bt) n' result' \<and> unat result' = r' * 2 ^ k \<and> r' ^ 2 + unat n' = N \<and>
    N < (r' + 2 ^ k) ^ 2 \<and> r' + 2 ^ k \<le> 2 ^ 64"
proof -
  have k4: "(4::nat) ^ k = 2 ^ k * 2 ^ k" by (simp add: power_mult_distrib [symmetric])
  note sq = sqrt_square [of r k] and lt = sqrt_fits [OF bd]
  have s: "unat (result + bt) = r * 2 ^ Suc k + 4 ^ k" using b res lt unat_plus_ok [of result bt] by simp
  have h: "unat (drop_bit 1 result) = r * 2 ^ k" using res by (simp add: unat_drop_bit)
  have bt: "bt \<noteq> 0" using b by auto
  show ?thesis
  proof (cases "result + bt \<le> n")
    case True
    then have "sqrt_loop bt n result = sqrt_loop (drop_bit 2 bt) (n - (result + bt)) (drop_bit 1 result + bt)" using bt by (subst sqrt_loop.simps) simp
    moreover have "r * 2 ^ k + 4 ^ k < 2 ^ 128" using lt unfolding power_Suc by linarith
    then have "unat (drop_bit 1 result + bt) = r * 2 ^ k + 4 ^ k" using h b unat_plus_ok [of "drop_bit 1 result" bt] by simp
    then have "unat (drop_bit 1 result + bt) = (r + 2 ^ k) * 2 ^ k" unfolding k4 by (simp only: distrib_right)
    moreover have "unat (n - (result + bt)) = unat n - (r * 2 ^ Suc k + 4 ^ k)" "r * 2 ^ Suc k + 4 ^ k \<le> unat n"
      using unat_sub [OF True] s True by (simp_all add: word_le_nat_alt)
    then have "(r + 2 ^ k) ^ 2 + unat (n - (result + bt)) = N" using n unfolding sq by simp
    ultimately show ?thesis using up bd by (intro exI [of _ "r + 2 ^ k"] exI conjI) (auto simp: mult_2 add.assoc)
  next
    case False
    then have "sqrt_loop bt n result = sqrt_loop (drop_bit 2 bt) n (drop_bit 1 result)" using bt by (subst sqrt_loop.simps) simp
    moreover have "N < (r + 2 ^ k) ^ 2" using False s n unfolding sq by (simp add: word_le_nat_alt)
    moreover have "r + 2 ^ k \<le> 2 ^ 64" using bd by simp
    ultimately show ?thesis using h n by blast
  qed
qed

lemma sqrt_loop_ok:
  assumes "unat bt = 4 ^ k" "unat result = r * 2 ^ Suc k" "r ^ 2 + unat n = N" "N < (r + 2 ^ Suc k) ^ 2" "r + 2 ^ Suc k \<le> 2 ^ 64"
  shows "(unat (sqrt_loop bt n result)) ^ 2 \<le> N \<and> N < (unat (sqrt_loop bt n result) + 1) ^ 2"
  using assms
proof (induction k arbitrary: bt result r n)
  case 0
  have "unat (drop_bit 2 bt) = 0" using 0(1) by (simp add: unat_drop_bit)
  then have "sqrt_loop (drop_bit 2 bt) n' result' = result'" for n' result' by (simp add: sqrt_loop.simps unsigned_eq_0_iff)
  then show ?case using sqrt_round [OF 0] by auto
next
  case (Suc k)
  obtain r' n' result' where s: "sqrt_loop bt n result = sqrt_loop (drop_bit 2 bt) n' result'" "unat result' = r' * 2 ^ Suc k"
    "r' ^ 2 + unat n' = N" "N < (r' + 2 ^ Suc k) ^ 2" "r' + 2 ^ Suc k \<le> 2 ^ 64" using sqrt_round [OF Suc.prems] by blast
  have "unat (drop_bit 2 bt) = 4 ^ k" using Suc.prems(1) by (simp add: unat_drop_bit)
  then show ?case using Suc.IH [OF _ s(2-5)] s(1) by simp
qed

lemma leading_zeros_0: "leading_zeros (0 :: 'a::len word) = LENGTH('a)"
  by (simp add: leading_zeros_def takeWhile_eq_all_conv [THEN iffD2])

lemma leading_zeros_bounds:
  fixes n :: "'a::len word"
  assumes "n \<noteq> 0" and z: "z = leading_zeros n"
  shows "z < LENGTH('a)" "2 ^ (LENGTH('a) - 1 - z) \<le> unat n" "unat n < 2 ^ (LENGTH('a) - z)"
proof -
  let ?L = "LENGTH('a)" and ?xs = "rev [0..<LENGTH('a)]"
  have nth: "?xs ! i = ?L - 1 - i" if "i < ?L" for i using that by (simp add: rev_nth)
  have low: "\<not> bit n (?L - 1 - i)" if "i < z" "i < ?L" for i
  proof -
    have "takeWhile (\<lambda>i. \<not> bit n i) ?xs ! i = ?xs ! i" using that(1) unfolding z leading_zeros_def by (rule takeWhile_nth)
    moreover have "takeWhile (\<lambda>i. \<not> bit n i) ?xs ! i \<in> set (takeWhile (\<lambda>i. \<not> bit n i) ?xs)"
      using that(1) unfolding z leading_zeros_def by (rule nth_mem)
    ultimately show ?thesis using nth [OF that(2)] by (metis set_takeWhileD)
  qed
  show zl: "z < ?L"
  proof (rule ccontr)
    assume "\<not> z < ?L"
    then have "\<not> bit n j" for j using low [of "?L - 1 - j"] bit_imp_le_length [of n j] by (cases "j < ?L") auto
    then show False using assms(1) by (simp add: bit_eq_iff)
  qed
  have "bit n (?xs ! z)" using nth_length_takeWhile [of "\<lambda>i. \<not> bit n i" ?xs] zl unfolding z leading_zeros_def by simp
  then have "bit (unat n) (?L - 1 - z)" using nth [OF zl] by (simp add: bit_unsigned_iff)
  then show "2 ^ (?L - 1 - z) \<le> unat n" by (metis bit_iff_odd div_less even_zero not_le)
  have "n = take_bit (?L - z) n"
  proof (rule bit_word_eqI)
    fix j assume "j < ?L"
    then show "bit n j = bit (take_bit (?L - z) n) j" using low [of "?L - 1 - j"] by (cases "j < ?L - z") (auto simp: bit_take_bit_iff)
  qed
  then have "unat n = take_bit (?L - z) (unat n)" by (metis unsigned_take_bit_eq)
  then show "unat n < 2 ^ (?L - z)" by (metis take_bit_nat_less_exp)
qed

lemma sqrt128_ok: "(unat (sqrt128 n)) ^ 2 \<le> unat n \<and> unat n < (unat (sqrt128 n) + 1) ^ 2"
proof (cases "n = 0")
  case True
  then show ?thesis by (simp add: sqrt128_def)
next
  case False
  define z where "z = leading_zeros n"
  define k where "k = (127 - z) div 2"
  note b = leading_zeros_bounds [OF False z_def]
  have z: "z < 128" using b(1) by simp
  have k: "k \<le> 63" "128 - z \<le> 2 * Suc k" "(127 - z) div 2 * 2 = 2 * k" using z by (auto simp: k_def)
  have f: "sqrt128 n = sqrt_loop (push_bit (2 * k) 1) n 0" using False k(3) by (simp add: sqrt128_def leading_zeros_0 z_def [symmetric] mult.commute)
  have "(2::nat) ^ (2 * k) < 2 ^ 128" using k(1) by (intro power_strict_increasing) auto
  then have bt: "unat (push_bit (2 * k) 1 :: u128) = 4 ^ k" unfolding unat_push_bit by (simp add: power_mult)
  have "unat n < 2 ^ (128 - z)" using b(3) by simp
  also have "\<dots> \<le> 2 ^ (2 * Suc k)" by (rule power_increasing [OF k(2)]) simp
  also have "\<dots> = (0 + 2 ^ Suc k) ^ 2" by (simp add: power_mult [symmetric] mult.commute)
  finally have up: "unat n < (0 + 2 ^ Suc k) ^ 2" .
  have "(2::nat) ^ Suc k \<le> 2 ^ 64" using k(1) by (intro power_increasing) auto
  then have "0 + (2::nat) ^ Suc k \<le> 2 ^ 64" by simp
  from sqrt_loop_ok [OF bt _ _ up this, of 0 n] show ?thesis unfolding f by simp
qed

end
