(* ===== verification/BigUint.thy ===== *)
theory BigUint
  imports Wide_Arith
begin

text \<open>
  Unsigned integers of arbitrary size (\<^verbatim>\<open>primitives/arithmetic/src/biguint.rs\<close>): limbs of 32 bits with
  intermediate results of 64 bits, most significant limb first; addition, subtraction, multiplication,
  division by one limb and Knuth's division. \<open>None\<close> in front of a result is a panic (an index out of
  range, a division by zero).
\<close>

section \<open>Limbs\<close>

type_synonym Single = u32
type_synonym Double = u64

definition SHIFT :: nat where
  "SHIFT = 32"

definition B :: Double where
  "B = ucast (- 1 :: Single) + 1"

definition split_double :: "Double \<Rightarrow> Single \<times> Single" where
  "split_double a = (let al = ucast a; ah = ucast (drop_bit SHIFT a) in (ah, al))"

definition mul_single :: "Single \<Rightarrow> Single \<Rightarrow> Double" where
  "mul_single a b = ucast a * ucast b"

definition add_single :: "Single \<Rightarrow> Single \<Rightarrow> Single \<times> Single" where
  "add_single a b = (let q = (ucast a :: Double) + ucast b; (carry, r) = split_double q in (r, carry))"

definition div_single :: "Double \<Rightarrow> Single \<Rightarrow> (Double \<times> Single) option" where
  "div_single a b = (if b = 0 then None else Some (a div ucast b, ucast (a mod ucast b)))"

record BigUint =
  digits :: "Single list"

definition big_len :: "BigUint \<Rightarrow> nat" where
  "big_len x = length (digits x)"

definition with_capacity :: "nat \<Rightarrow> BigUint" where
  "with_capacity sz = \<lparr>digits = replicate (max sz 1) 0\<rparr>"

definition big_zero :: BigUint where
  "big_zero = \<lparr>digits = [0]\<rparr>"

definition big_one :: BigUint where
  "big_one = \<lparr>digits = [1]\<rparr>"

definition big_is_zero :: "BigUint \<Rightarrow> bool" where
  "big_is_zero x = list_all (\<lambda>d. d = 0) (digits x)"

definition from_limbs :: "Single list \<Rightarrow> BigUint" where
  "from_limbs limbs = (if limbs \<noteq> [] then \<lparr>digits = limbs\<rparr> else big_zero)"

text \<open>Indices count from the least significant limb.\<close>

definition get_limb :: "BigUint \<Rightarrow> nat \<Rightarrow> Single option" where
  "get_limb x index = (if index < big_len x then Some (digits x ! (big_len x - 1 - index)) else None)"

definition checked_get :: "BigUint \<Rightarrow> nat \<Rightarrow> Single option" where
  "checked_get x index =
     (if 1 \<le> big_len x
      then (let i = big_len x - 1 in if index \<le> i then nth_opt (digits x) (i - index) else None)
      else None)"

definition set_limb :: "BigUint \<Rightarrow> nat \<Rightarrow> Single \<Rightarrow> BigUint option" where
  "set_limb x index v = (if index < big_len x then Some (x\<lparr>digits := (digits x)[big_len x - 1 - index := v]\<rparr>) else None)"

definition big_lsb :: "BigUint \<Rightarrow> Single option" where
  "big_lsb x = (if digits x \<noteq> [] then Some (digits x ! (big_len x - 1)) else None)"

definition big_msb :: "BigUint \<Rightarrow> Single option" where
  "big_msb x = nth_opt (digits x) 0"

definition lstrip :: "BigUint \<Rightarrow> BigUint" where
  "lstrip x =
     (if big_len x = 0 then x
      else
        (let zs = takeWhile (\<lambda>d. d = 0) (digits x);
             index = (if length zs < big_len x then length zs else big_len x - 1)
         in if index > 0 then x\<lparr>digits := drop index (digits x)\<rparr> else x))"

definition lpad :: "BigUint \<Rightarrow> nat \<Rightarrow> BigUint" where
  "lpad x sz =
     (let n = big_len x
      in if n \<ge> sz then x else (let pad = sz - n in x\<lparr>digits := replicate pad 0 @ digits x\<rparr>))"

section \<open>Addition and subtraction\<close>

definition limb_or_0 :: "BigUint \<Rightarrow> nat \<Rightarrow> Double" where
  "limb_or_0 x j = ucast (case checked_get x j of Some d \<Rightarrow> d | None \<Rightarrow> 0)"

fun add_loop :: "BigUint \<Rightarrow> BigUint \<Rightarrow> nat list \<Rightarrow> Double \<Rightarrow> BigUint \<Rightarrow> (Double \<times> BigUint) option" where
  "add_loop x y [] k w = Some (k, w)"
| "add_loop x y (j # js) k w =
     (let u = limb_or_0 x j;
          v = limb_or_0 y j;
          s = u + v + k
      in do { w \<leftarrow> set_limb w j (ucast (s mod B)); add_loop x y js (s div B) w })"

definition big_add :: "BigUint \<Rightarrow> BigUint \<Rightarrow> BigUint option" where
  "big_add x y =
     (let n = max (big_len x) (big_len y);
          w = with_capacity (n + 1)
      in do { (k, w) \<leftarrow> add_loop x y [0..<n] 0 w; set_limb w n (ucast k) })"

definition checked_sub64 :: "Double \<Rightarrow> Double \<Rightarrow> Double option" where
  "checked_sub64 a b = (if b \<le> a then Some (a - b) else None)"

fun sub_loop :: "BigUint \<Rightarrow> BigUint \<Rightarrow> nat list \<Rightarrow> Double \<Rightarrow> BigUint \<Rightarrow> (Double \<times> BigUint) option" where
  "sub_loop x y [] k w = Some (k, w)"
| "sub_loop x y (j # js) k w =
     (let u = limb_or_0 x j;
          v = limb_or_0 y j;
          (s, k) = (case Option.bind (checked_sub64 u v) (\<lambda>v1. checked_sub64 v1 k) of
                      Some v2 \<Rightarrow> (v2, 0)
                    | None \<Rightarrow> (u + B - v - k, 1))
      in do { w \<leftarrow> set_limb w j (ucast s); sub_loop x y js k w })"

definition big_sub :: "BigUint \<Rightarrow> BigUint \<Rightarrow> (BigUint, BigUint) result option" where
  "big_sub x y =
     (let n = max (big_len x) (big_len y);
          w = with_capacity n
      in do { (k, w) \<leftarrow> sub_loop x y [0..<n] 0 w; Some (if k = 0 then Inr w else Inl w) })"

section \<open>Multiplication\<close>

fun mul_inner :: "Single \<Rightarrow> BigUint \<Rightarrow> nat \<Rightarrow> nat list \<Rightarrow> Single \<Rightarrow> BigUint \<Rightarrow> (Single \<times> BigUint) option" where
  "mul_inner d y j [] k w = Some (k, w)"
| "mul_inner d y j (i # is) k w = do {
     e \<leftarrow> get_limb y i;
     c \<leftarrow> get_limb w (i + j);
     let t = mul_single d e + ucast c + ucast k;
     w \<leftarrow> set_limb w (i + j) (ucast (t mod B));
     mul_inner d y j is (ucast (t div B)) w
   }"

fun mul_loop :: "BigUint \<Rightarrow> BigUint \<Rightarrow> nat list \<Rightarrow> BigUint \<Rightarrow> BigUint option" where
  "mul_loop x y [] w = Some w"
| "mul_loop x y (j # js) w = do {
     d \<leftarrow> get_limb x j;
     if d = 0 then mul_loop x y js w
     else do {
       (k, w) \<leftarrow> mul_inner d y j [0..<big_len y] 0 w;
       w \<leftarrow> set_limb w (j + big_len y) k;
       mul_loop x y js w
     }
   }"

definition big_mul :: "BigUint \<Rightarrow> BigUint \<Rightarrow> BigUint option" where
  "big_mul x y = mul_loop x y [0..<big_len x] (with_capacity (big_len y + big_len x))"

section \<open>Division\<close>

fun div_unit_loop :: "BigUint \<Rightarrow> Single \<Rightarrow> nat list \<Rightarrow> Single \<Rightarrow> BigUint \<Rightarrow> BigUint option" where
  "div_unit_loop x other [] r out = Some out"
| "div_unit_loop x other (d # ds) r out = do {
     v \<leftarrow> get_limb x d;
     (q, rr) \<leftarrow> div_single (ucast r * B + ucast v) other;
     out \<leftarrow> set_limb out d (ucast q);
     div_unit_loop x other ds rr out
   }"

definition div_unit :: "BigUint \<Rightarrow> Single \<Rightarrow> BigUint option" where
  "div_unit x other =
     (let other = max other 1; n = big_len x in div_unit_loop x other (rev [0..<n]) 0 (with_capacity n))"

definition from_u32 :: "Single \<Rightarrow> BigUint" where
  "from_u32 a = \<lparr>digits = [a]\<rparr>"

definition from_u64 :: "Double \<Rightarrow> BigUint" where
  "from_u64 a = (let (ah, al) = split_double a in \<lparr>digits = [ah, al]\<rparr>)"

text \<open>The limbs from \<open>j\<close> on, \<open>n + 1\<close> of them, and writing them back.\<close>

fun get_limbs :: "BigUint \<Rightarrow> nat list \<Rightarrow> Single list option" where
  "get_limbs x [] = Some []"
| "get_limbs x (d # ds) = do { v \<leftarrow> get_limb x d; vs \<leftarrow> get_limbs x ds; Some (v # vs) }"

definition window :: "BigUint \<Rightarrow> nat \<Rightarrow> nat \<Rightarrow> BigUint option" where
  "window x j n = do { ds \<leftarrow> get_limbs x (rev [j..<j + n + 1]); Some \<lparr>digits = ds\<rparr> }"

fun write_limbs :: "BigUint \<Rightarrow> nat \<Rightarrow> nat list \<Rightarrow> BigUint \<Rightarrow> BigUint option" where
  "write_limbs s j [] x = Some x"
| "write_limbs s j (d # ds) x = do { v \<leftarrow> get_limb s (d - j); x \<leftarrow> set_limb x d v; write_limbs s j ds x }"

text \<open>One test of the estimated digit: \<open>v1\<close> and \<open>v2\<close> are the leading limbs of the divisor, \<open>u2\<close> the third limb of the window.\<close>

definition qhat_test :: "Single \<Rightarrow> Single \<Rightarrow> Single \<Rightarrow> Double \<times> Double \<Rightarrow> bool \<times> (Double \<times> Double)" where
  "qhat_test v1 v2 u2 = (\<lambda>(qhat, rhat).
     let predicate_1 = qhat \<ge> B;
         predicate_2 = (let lhs = qhat * ucast v2; rhs = B * rhat + ucast u2 in lhs > rhs)
     in if predicate_1 \<or> predicate_2 then (True, (qhat - 1, rhat + ucast v1)) else (False, (qhat, rhat)))"

partial_function (option) qhat_loop :: "Single \<Rightarrow> Single \<Rightarrow> Single \<Rightarrow> Double \<times> Double \<Rightarrow> (Double \<times> Double) option" where
  "qhat_loop v1 v2 u2 qr =
     (if snd qr < B
      then (let (again, qr) = qhat_test v1 v2 u2 qr in if again then qhat_loop v1 v2 u2 qr else Some qr)
      else Some qr)"

declare qhat_loop.simps [code]

definition div_step :: "BigUint \<Rightarrow> nat \<Rightarrow> nat \<Rightarrow> BigUint \<times> BigUint \<Rightarrow> (BigUint \<times> BigUint) option" where
  "div_step other_norm n j = (\<lambda>(self_norm, q). do {
     u0 \<leftarrow> get_limb self_norm (j + n);
     u1 \<leftarrow> get_limb self_norm (j + n - 1);
     v1 \<leftarrow> get_limb other_norm (n - 1);
     (qhat, rhat) \<leftarrow> div_single (ucast u0 * B + ucast u1) v1;
     v2 \<leftarrow> get_limb other_norm (n - 2);
     u2 \<leftarrow> get_limb self_norm (j + n - 2);
     let (_, qr) = qhat_test v1 v2 u2 (qhat, ucast rhat);
     (qhat, _) \<leftarrow> qhat_loop v1 v2 u2 qr;
     lhs \<leftarrow> window self_norm j n;
     rhs \<leftarrow> big_mul other_norm (from_u64 qhat);
     maybe_sub \<leftarrow> big_sub lhs rhs;
     let (negative, sub) = (case maybe_sub of Inr t \<Rightarrow> (False, t) | Inl t \<Rightarrow> (True, t));
     self_norm \<leftarrow> write_limbs sub j [j..<j + n + 1] self_norm;
     q \<leftarrow> set_limb q j (ucast qhat);
     if negative then do {
       d \<leftarrow> get_limb q j;
       q \<leftarrow> set_limb q j (d - 1);
       u \<leftarrow> window self_norm j n;
       r \<leftarrow> big_add other_norm u;
       self_norm \<leftarrow> write_limbs r j (rev [j..<j + n + 1]) self_norm;
       Some (self_norm, q)
     }
     else Some (self_norm, q)
   })"

fun div_steps :: "BigUint \<Rightarrow> nat \<Rightarrow> nat list \<Rightarrow> BigUint \<times> BigUint \<Rightarrow> (BigUint \<times> BigUint) option" where
  "div_steps other_norm n [] s = Some s"
| "div_steps other_norm n (j # js) s = do { s \<leftarrow> div_step other_norm n j s; div_steps other_norm n js s }"

text \<open>Undoes the normalization: each limb takes the low bits of the next one.\<close>

fun shift_limbs :: "BigUint \<Rightarrow> nat \<Rightarrow> nat list \<Rightarrow> BigUint \<Rightarrow> BigUint option" where
  "shift_limbs self_norm nb [] r = Some r"
| "shift_limbs self_norm nb (d # ds) r = do {
     a \<leftarrow> get_limb self_norm d;
     b \<leftarrow> get_limb self_norm (d + 1);
     r \<leftarrow> set_limb r d (drop_bit nb a OR push_bit (SHIFT - nb) b);
     shift_limbs self_norm nb ds r
   }"

definition big_div :: "BigUint \<Rightarrow> BigUint \<Rightarrow> bool \<Rightarrow> (BigUint \<times> BigUint) option option" where
  "big_div x other rem =
     (if big_len other \<le> 1 then Some None
      else do {
        om \<leftarrow> big_msb other;
        if om = 0 then Some None
        else do {
          sm \<leftarrow> big_msb x;
          if sm = 0 \<or> big_len x \<le> big_len other then Some None
          else
            (let n = big_len other;
                 m = big_len x - n;
                 q = with_capacity (m + 1);
                 r = with_capacity n;
                 normalizer_bits = leading_zeros om;
                 normalizer = (2 :: Single) ^ normalizer_bits
             in do {
               self_norm \<leftarrow> big_mul x (from_u32 normalizer);
               other_norm \<leftarrow> big_mul other (from_u32 normalizer);
               let self_norm = lpad self_norm (n + m + 1);
               let other_norm = lstrip other_norm;
               (self_norm, q) \<leftarrow> div_steps other_norm n (rev [0..<m + 1]) (self_norm, q);
               r \<leftarrow> (if rem then
                        (if normalizer_bits > 0 then do {
                           r \<leftarrow> shift_limbs self_norm normalizer_bits [0..<n - 1] r;
                           t \<leftarrow> get_limb self_norm (n - 1);
                           set_limb r (n - 1) (drop_bit normalizer_bits t)
                         }
                         else Some self_norm)
                      else Some r);
               Some (Some (q, r))
             })
        }
      })"

section \<open>Comparison and conversions\<close>

datatype Ordering = Less | Equal | Greater

definition cmp :: "'a::linorder \<Rightarrow> 'a \<Rightarrow> Ordering" where
  "cmp a b = (if a < b then Less else if a = b then Equal else Greater)"

text \<open>Slices are compared from their first elements on.\<close>

fun cmp_slices :: "Single list \<Rightarrow> Single list \<Rightarrow> Ordering" where
  "cmp_slices [] [] = Equal"
| "cmp_slices [] (_ # _) = Less"
| "cmp_slices (_ # _) [] = Greater"
| "cmp_slices (a # as) (b # bs) = (case cmp a b of Equal \<Rightarrow> cmp_slices as bs | c \<Rightarrow> c)"

definition big_cmp :: "BigUint \<Rightarrow> BigUint \<Rightarrow> Ordering" where
  "big_cmp x y =
     (let lhs = dropWhile (\<lambda>e. e = 0) (digits x);
          rhs = dropWhile (\<lambda>e. e = 0) (digits y)
      in case (lhs, rhs) of
           ([], []) \<Rightarrow> Equal
         | (_ # _, []) \<Rightarrow> Greater
         | ([], _ # _) \<Rightarrow> Less
         | _ \<Rightarrow>
             (let len_cmp = cmp (length lhs) (length rhs)
              in case len_cmp of Equal \<Rightarrow> cmp_slices lhs rhs | _ \<Rightarrow> len_cmp))"

definition big_eq :: "BigUint \<Rightarrow> BigUint \<Rightarrow> bool" where
  "big_eq x y \<longleftrightarrow> big_cmp x y = Equal"

definition op_sub :: "BigUint \<Rightarrow> BigUint \<Rightarrow> BigUint option" where
  "op_sub x y = map_option (\<lambda>r. case r of Inr w \<Rightarrow> w | Inl e \<Rightarrow> e) (big_sub x y)"

fun acc_limbs :: "nat \<Rightarrow> Single list \<Rightarrow> 'a::len word \<Rightarrow> 'a word" where
  "acc_limbs i [] acc = acc"
| "acc_limbs i (d # ds) acc = acc_limbs (i + 1) ds (acc + push_bit (SHIFT * i) (ucast d))"

text \<open>The conversion to a word type of \<open>len\<close> bits.\<close>

definition try_from_big :: "nat \<Rightarrow> BigUint \<Rightarrow> (unit, 'a::len word) result" where
  "try_from_big len value =
     (let value = lstrip value
      in if big_len value * SHIFT > len then Inl () else Inr (acc_limbs 0 (rev (digits value)) 0))"

definition to_big_uint :: "u128 \<Rightarrow> BigUint" where
  "to_big_uint x =
     (let (xh, xl) = split128 x;
          (xhh, xhl) = split_double xh;
          (xlh, xll) = split_double xl
      in lstrip (from_limbs [xhh, xhl, xlh, xll]))"

end
