(* ===== verification/BigUint_Value.thy ===== *)
theory BigUint_Value
  imports BigUint
begin

text \<open>
  The number a list of limbs stands for, and addition, subtraction, multiplication, division by one limb,
  comparison and conversion as operations on these numbers.
\<close>

section \<open>Words\<close>

definition base :: nat where
  "base = 2 ^ 32"

lemma base_bounds: "0 < base" "1 < base" "2 \<le> base"
  by (simp_all add: base_def)

lemma base_square: "base * base = 2 ^ 64"
  by (simp add: base_def)

lemma single_lt: "unat (d :: Single) < base"
  using unsigned_less [of d, where ?'a = nat] by (simp add: base_def)

lemma double_lt: "unat (d :: Double) < base * base"
  using unsigned_less [of d, where ?'a = nat] by (simp add: base_def)

lemma unat_widen: "unat (ucast (d :: Single) :: Double) = unat d"
  using single_lt [of d] by (simp add: unsigned_ucast_eq take_bit_nat_eq_self base_def)

lemma unat_B: "unat B = base"
proof -
  have "unat (ucast (- 1 :: Single) :: Double) = 2 ^ 32 - 1" by (simp only: unat_widen) (simp add: unsigned_minus_1_eq_mask mask_eq_exp_minus_1)
  then show ?thesis by (simp add: B_def base_def unat_word_ariths)
qed

lemma unat_narrow: "unat (s :: Double) < base \<Longrightarrow> unat (ucast s :: Single) = unat s"
  by (simp add: unsigned_ucast_eq take_bit_nat_eq_self base_def)

lemma unat_div_B: "unat (s div B) = unat s div base"
  by (simp add: unat_div unat_B)

lemma unat_mod_B: "unat (ucast (s mod B) :: Single) = unat s mod base"
proof -
  have "unat (s mod B) = unat s mod base" by (simp add: unat_mod unat_B)
  then show ?thesis using unat_narrow [of "s mod B"] base_bounds(1) by simp
qed

lemma unat_add64: "unat (a :: Double) + unat b < base * base \<Longrightarrow> unat (a + b) = unat a + unat b"
  using unat_plus_ok [of a b] by (simp add: base_square)

lemma unat_mul64: "unat (a :: Double) * unat b < base * base \<Longrightarrow> unat (a * b) = unat a * unat b"
  using unat_times_ok [of a b] by (simp add: base_square)

text \<open>The greatest sums and products the code forms fit.\<close>

lemma product_fits: "a < base \<Longrightarrow> b < base \<Longrightarrow> c < base \<Longrightarrow> k < base \<Longrightarrow> a * b + c + k < base * base"
proof -
  assume a: "a < base" "b < base" "c < base" "k < base"
  have "a * b \<le> (base - 1) * (base - 1)" using a by (intro mult_mono) auto
  moreover obtain b where b: "base = Suc b" using base_bounds(1) gr0_implies_Suc by blast
  then have "(base - 1) * (base - 1) + (base - 1) + (base - 1) + 1 = base * base" unfolding b by simp
  ultimately show ?thesis using a by linarith
qed

lemma carry_fits: "a < base \<Longrightarrow> b < base \<Longrightarrow> a + b * base < base * base"
proof -
  assume a: "a < base" "b < base"
  have "b * base + base \<le> base * base" using a(2) mult_le_mono1 [of "Suc b" base base] by simp
  then show ?thesis using a(1) by linarith
qed

lemma carry_split: "(s mod base) * p + (s div base) * (base * p) = s * p"
proof -
  have "(s mod base) * p + (s div base) * (base * p) = (s mod base + s div base * base) * p" by (simp only: distrib_right mult.assoc)
  then show ?thesis by simp
qed

section \<open>Values\<close>

definition limb :: "BigUint \<Rightarrow> nat \<Rightarrow> Single" where
  "limb x i = (if i < big_len x then digits x ! (big_len x - 1 - i) else 0)"

definition digit :: "BigUint \<Rightarrow> nat \<Rightarrow> nat" where
  "digit x i = unat (limb x i)"

definition low :: "BigUint \<Rightarrow> nat \<Rightarrow> nat" where
  "low x j = (\<Sum>i<j. digit x i * base ^ i)"

definition val :: "BigUint \<Rightarrow> nat" where
  "val x = low x (big_len x)"

definition put :: "BigUint \<Rightarrow> nat \<Rightarrow> Single \<Rightarrow> BigUint" where
  "put x i v = x\<lparr>digits := (digits x)[big_len x - 1 - i := v]\<rparr>"

lemma digit_lt: "digit x i < base"
  by (simp add: digit_def single_lt)

lemma digit_out: "big_len x \<le> i \<Longrightarrow> digit x i = 0"
  by (simp add: digit_def limb_def)

lemma low_simps [simp]: "low x 0 = 0" "low x (Suc j) = low x j + digit x j * base ^ j"
  by (simp_all add: low_def)

lemma low_cong: "(\<And>i. i < j \<Longrightarrow> digit x i = digit y i) \<Longrightarrow> low x j = low y j"
  by (simp add: low_def)

lemma low_lt: "low x j < base ^ j"
proof (induction j)
  case (Suc j)
  have "Suc (digit x j) * base ^ j \<le> base * base ^ j" using digit_lt [of x j] by (intro mult_le_mono1) simp
  then show ?case using Suc by simp
qed simp

lemma low_beyond: "low x (big_len x + k) = val x"
  by (induction k) (simp_all add: val_def digit_out)

lemma low_val: "big_len x \<le> j \<Longrightarrow> low x j = val x"
  using low_beyond [of x "j - big_len x"] by simp

lemma val_lt: "big_len x \<le> j \<Longrightarrow> val x < base ^ j"
  using low_lt [of x j] low_val [of x j] by simp

lemma get_limb_ok: "i < big_len x \<Longrightarrow> get_limb x i = Some (limb x i)"
  by (simp add: get_limb_def limb_def)

lemma set_limb_ok: "i < big_len x \<Longrightarrow> set_limb x i v = Some (put x i v)"
  by (simp add: set_limb_def put_def)

lemma big_len_put [simp]: "big_len (put x i v) = big_len x"
  by (simp add: put_def big_len_def)

lemma limb_put: "i < big_len x \<Longrightarrow> limb (put x i v) j = (if j = i then v else limb x j)"
  by (auto simp: limb_def put_def big_len_def nth_list_update)

lemma digit_put: "i < big_len x \<Longrightarrow> digit (put x i v) j = (if j = i then unat v else digit x j)"
  by (simp add: digit_def limb_put)

lemma low_put: "i < big_len x \<Longrightarrow> j \<le> i \<Longrightarrow> low (put x i v) j = low x j"
  by (intro low_cong) (simp add: digit_put)

lemma unat_limb_or_0: "unat (limb_or_0 x j) = digit x j"
proof -
  have "(case checked_get x j of Some d \<Rightarrow> d | None \<Rightarrow> 0) = limb x j"
    by (auto simp: checked_get_def limb_def nth_opt_def big_len_def Let_def)
  then show ?thesis by (simp add: limb_or_0_def unat_widen digit_def)
qed

lemma capacity_simps [simp]: "big_len (with_capacity n) = max n 1" "digit (with_capacity n) i = 0"
  by (auto simp: with_capacity_def big_len_def digit_def limb_def)

lemma val_digits: "val \<lparr>digits = ds\<rparr> = (\<Sum>i<length ds. unat (ds ! (length ds - 1 - i)) * base ^ i)"
  by (simp add: val_def low_def digit_def limb_def big_len_def)

lemma upt_step: "[j..<j + Suc m] = j # [Suc j..<Suc j + m]"
  by (simp add: upt_rec)

section \<open>Addition\<close>

lemma add_loop_ok:
  assumes "j + m \<le> big_len w" "unat k \<le> 1" "low w j + unat k * base ^ j = low x j + low y j"
  shows "\<exists>k' w'. add_loop x y [j..<j + m] k w = Some (k', w') \<and> unat k' \<le> 1 \<and> big_len w' = big_len w \<and>
    low w' (j + m) + unat k' * base ^ (j + m) = low x (j + m) + low y (j + m)"
  using assms
proof (induction m arbitrary: j k w)
  case 0
  then show ?case by simp
next
  case (Suc m)
  define s where "s = limb_or_0 x j + limb_or_0 y j + k"
  let ?s = "digit x j + digit y j + unat k"
  have lt: "?s < 2 * base" "?s < base * base"
    using digit_lt [of x j] digit_lt [of y j] Suc.prems(2) mult_le_mono1 [OF base_bounds(3), of base] by linarith+
  have "unat (limb_or_0 x j + limb_or_0 y j) = digit x j + digit y j" using lt by (subst unat_add64) (simp_all add: unat_limb_or_0)
  then have s: "unat s = ?s" unfolding s_def using lt by (subst unat_add64) simp_all
  let ?w = "put w j (ucast (s mod B))"
  have j: "j < big_len w" using Suc.prems(1) by simp
  have "low ?w (Suc j) + unat (s div B) * base ^ Suc j = low x (Suc j) + low y (Suc j)"
  proof -
    have "low ?w (Suc j) + unat (s div B) * base ^ Suc j = low w j + ((?s mod base) * base ^ j + (?s div base) * (base * base ^ j))"
      using j by (simp add: low_put digit_put unat_mod_B unat_div_B s)
    also have "\<dots> = low w j + ?s * base ^ j" unfolding carry_split ..
    also have "\<dots> = (low w j + unat k * base ^ j) + (digit x j + digit y j) * base ^ j" by (simp add: algebra_simps)
    finally show ?thesis unfolding Suc.prems(3) by (simp add: algebra_simps)
  qed
  moreover have "unat (s div B) \<le> 1" using lt(1) unfolding unat_div_B s by (simp add: less_mult_imp_div_less less_Suc_eq_le [symmetric])
  ultimately obtain k' w' where "add_loop x y [Suc j..<Suc j + m] (s div B) ?w = Some (k', w')" "unat k' \<le> 1" "big_len w' = big_len ?w"
    "low w' (Suc j + m) + unat k' * base ^ (Suc j + m) = low x (Suc j + m) + low y (Suc j + m)"
    using Suc.IH [of "Suc j" ?w "s div B"] Suc.prems(1) by auto
  then show ?case unfolding upt_step using j by (simp add: s_def [symmetric] Let_def set_limb_ok)
qed

lemma big_add_ok: "\<exists>w. big_add x y = Some w \<and> big_len w = max (big_len x) (big_len y) + 1 \<and> val w = val x + val y"
proof -
  define n where "n = max (big_len x) (big_len y)"
  obtain k w where w: "add_loop x y [0..<n] 0 (with_capacity (n + 1)) = Some (k, w)" "unat k \<le> 1" "big_len w = n + 1"
    "low w n + unat k * base ^ n = low x n + low y n"
    using add_loop_ok [of 0 n "with_capacity (n + 1)" 0 x y] by auto
  have v: "low x n = val x" "low y n = val y" by (simp_all add: low_val n_def)
  have k: "unat (ucast k :: Single) = unat k" using w(2) base_bounds(2) by (intro unat_narrow) simp
  have "val (put w n (ucast k)) = val x + val y" using w v k by (simp add: val_def low_put digit_put)
  then show ?thesis using w by (simp add: big_add_def Let_def set_limb_ok n_def [symmetric])
qed

section \<open>Subtraction\<close>

text \<open>One limb: the difference with a borrow.\<close>

lemma sub_limb:
  assumes "u < base" "v < base" "unat k \<le> 1" "unat a = u" "unat b = v"
    and e: "(s, k' :: Double) = (case Option.bind (checked_sub64 a b) (\<lambda>v1. checked_sub64 v1 k) of Some v2 \<Rightarrow> (v2, 0) | None \<Rightarrow> (a + B - b - k, 1))"
  shows "unat s < base \<and> unat k' \<le> 1 \<and> unat s + v + unat k = u + unat k' * base"
proof (cases "v + unat k \<le> u")
  case True
  then have "b \<le> a" "unat (a - b) = u - v" using assms by (simp_all add: word_le_nat_alt unat_sub)
  moreover have "k \<le> a - b" using calculation True by (simp add: word_le_nat_alt)
  then have "unat (a - b - k) = u - v - unat k" using calculation by (simp add: unat_sub)
  ultimately have "s = a - b - k" "k' = 0" using e \<open>k \<le> a - b\<close> by (simp_all add: checked_sub64_def)
  then show ?thesis using \<open>unat (a - b - k) = u - v - unat k\<close> True assms(1) by simp
next
  case False
  have "(s, k') = (a + B - b - k, 1)"
    unfolding e using False assms(4,5) by (auto simp: checked_sub64_def word_le_nat_alt unat_sub)
  then have s: "s = a + B - b - k" "k' = 1" by simp_all
  have "u + base < base * base" using assms(1) mult_le_mono1 [OF base_bounds(3), of base] by linarith
  then have 1: "unat (a + B) = u + base" using assms by (subst unat_add64) (simp_all add: unat_B)
  then have 2: "unat (a + B - b) = u + base - v" using assms by (subst unat_sub) (simp_all add: word_le_nat_alt)
  then have "unat (a + B - b - k) = u + base - v - unat k" using assms by (subst unat_sub) (simp_all add: word_le_nat_alt)
  then show ?thesis unfolding s using False assms by simp
qed

lemma sub_loop_ok:
  assumes "j + m \<le> big_len w" "unat k \<le> 1" "low w j + low y j = low x j + unat k * base ^ j"
  shows "\<exists>k' w'. sub_loop x y [j..<j + m] k w = Some (k', w') \<and> unat k' \<le> 1 \<and> big_len w' = big_len w \<and>
    low w' (j + m) + low y (j + m) = low x (j + m) + unat k' * base ^ (j + m)"
  using assms
proof (induction m arbitrary: j k w)
  case 0
  then show ?case by simp
next
  case (Suc m)
  let ?u = "limb_or_0 x j" and ?v = "limb_or_0 y j"
  obtain s and k1 :: Double where sk: "(s, k1) = (case Option.bind (checked_sub64 ?u ?v) (\<lambda>v1. checked_sub64 v1 k) of Some v2 \<Rightarrow> (v2, 0) | None \<Rightarrow> (?u + B - ?v - k, 1))"
    by (metis surj_pair)
  have s: "unat s < base" "unat k1 \<le> 1" "unat s + digit y j + unat k = digit x j + unat k1 * base"
    using sub_limb [OF digit_lt digit_lt Suc.prems(2) unat_limb_or_0 unat_limb_or_0 sk] by blast+
  let ?w = "put w j (ucast s)"
  have j: "j < big_len w" using Suc.prems(1) by simp
  have "low ?w (Suc j) + low y (Suc j) + unat k * base ^ j = (low w j + low y j) + (unat s + digit y j + unat k) * base ^ j"
    using j s(1) by (simp add: low_put digit_put unat_narrow algebra_simps)
  also have "\<dots> = low x (Suc j) + unat k1 * base ^ Suc j + unat k * base ^ j" unfolding s(3) Suc.prems(3) by (simp add: algebra_simps)
  finally have "low ?w (Suc j) + low y (Suc j) = low x (Suc j) + unat k1 * base ^ Suc j" by simp
  then obtain k' w' where "sub_loop x y [Suc j..<Suc j + m] k1 ?w = Some (k', w')" "unat k' \<le> 1" "big_len w' = big_len ?w"
    "low w' (Suc j + m) + low y (Suc j + m) = low x (Suc j + m) + unat k' * base ^ (Suc j + m)"
    using Suc.IH [of "Suc j" ?w k1] Suc.prems(1) s(2) by auto
  then show ?case unfolding upt_step using j by (simp add: sk [symmetric] Let_def set_limb_ok)
qed

lemma big_sub_ok:
  assumes n: "n = max (big_len x) (big_len y)"
  shows "\<exists>w. big_len w = max n 1 \<and> (if val y \<le> val x then big_sub x y = Some (Inr w) \<and> val w = val x - val y
    else big_sub x y = Some (Inl w) \<and> val w + val y = val x + base ^ n)"
proof -
  obtain k w where w: "sub_loop x y [0..<n] 0 (with_capacity n) = Some (k, w)" "unat k \<le> 1" "big_len w = max n 1"
    "low w n + low y n = low x n + unat k * base ^ n"
    using sub_loop_ok [of 0 n "with_capacity n" 0 y x] by auto
  have v: "low x n = val x" "low y n = val y" by (simp_all add: low_val n)
  have wn: "low w n = val w"
  proof (cases n)
    case 0
    have "w = with_capacity n" using w(1) 0 by simp
    then show ?thesis using 0 by (simp add: val_def)
  qed (simp add: val_def w(3))
  have r: "big_sub x y = Some (if k = 0 then Inr w else Inl w)" using w(1) by (simp add: big_sub_def Let_def n [symmetric])
  show ?thesis
  proof (cases "k = 0")
    case True
    then show ?thesis using w wn v r by (intro exI [of _ w]) auto
  next
    case False
    then have "unat k = 1" using w(2) unat_positive [OF False] by simp
    moreover have "val w < base ^ n" using low_lt [of w n] wn by simp
    ultimately show ?thesis using w wn v r False by (intro exI [of _ w]) auto
  qed
qed

section \<open>Multiplication\<close>

lemma low_change: "i < big_len w \<Longrightarrow> i < n \<Longrightarrow> low (put w i v) n + digit w i * base ^ i = low w n + unat v * base ^ i"
proof (induction n)
  case (Suc n)
  then show ?case by (cases "i = n") (simp_all add: low_put digit_put)
qed simp

lemma unat_limb: "unat (limb x i) = digit x i"
  by (simp add: digit_def)

lemma mul_limb:
  assumes "t = mul_single d e + ucast (c :: Single) + ucast (k :: Single)"
  shows "unat t = unat d * unat e + unat c + unat k" "unat (ucast (t div B) :: Single) = unat t div base"
proof -
  have f: "unat d * unat e + unat c + unat k < base * base" by (intro product_fits single_lt)
  have 1: "unat (mul_single d e) = unat d * unat e" unfolding mul_single_def using f by (subst unat_mul64) (simp_all add: unat_widen)
  have 2: "unat (mul_single d e + ucast c) = unat d * unat e + unat c" using f 1 by (subst unat_add64) (simp_all add: unat_widen)
  show u: "unat t = unat d * unat e + unat c + unat k" unfolding assms using f 2 by (subst unat_add64) (simp_all add: unat_widen)
  have "unat (t div B) < base" unfolding unat_div_B using double_lt [of t] by (simp add: less_mult_imp_div_less)
  then show "unat (ucast (t div B) :: Single) = unat t div base" using unat_narrow unat_div_B by simp
qed

lemma mul_inner_ok:
  assumes "i + r \<le> big_len y" "i + r + j \<le> big_len w"
  shows "\<exists>k' w'. mul_inner d y j [i..<i + r] k w = Some (k', w') \<and> big_len w' = big_len w \<and>
    (\<forall>t. t < i + j \<or> i + r + j \<le> t \<longrightarrow> digit w' t = digit w t) \<and>
    low w' (i + r + j) + unat k' * base ^ (i + r + j) + unat d * low y i * base ^ j
      = low w (i + r + j) + unat k * base ^ (i + j) + unat d * low y (i + r) * base ^ j"
  using assms
proof (induction r arbitrary: i k w)
  case 0
  then show ?case by simp
next
  case (Suc r)
  define t where "t = mul_single d (limb y i) + ucast (limb w (i + j)) + ucast k"
  let ?w = "put w (i + j) (ucast (t mod B))" and ?k = "ucast (t div B) :: Single" and ?P = "base ^ (i + j)" and ?N = "i + Suc r + j"
  note f = mul_limb [OF t_def]
  have ij: "i < big_len y" "i + j < big_len w" using Suc.prems by simp_all
  obtain k' w' where w': "mul_inner d y j [Suc i..<Suc i + r] ?k ?w = Some (k', w')" "big_len w' = big_len ?w"
    "\<forall>t. t < Suc i + j \<or> Suc i + r + j \<le> t \<longrightarrow> digit w' t = digit ?w t"
    "low w' ?N + unat k' * base ^ ?N + unat d * low y (Suc i) * base ^ j = low ?w ?N + unat ?k * base ^ (Suc i + j) + unat d * low y (i + Suc r) * base ^ j"
    using Suc.IH [of "Suc i" ?w ?k] Suc.prems by auto
  have c: "low ?w ?N + digit w (i + j) * ?P = low w ?N + (unat t mod base) * ?P" using low_change [OF ij(2), of ?N "ucast (t mod B)"] by (simp add: unat_mod_B)
  have s: "(unat t mod base) * ?P + unat ?k * base ^ (Suc i + j) = (unat d * digit y i + digit w (i + j) + unat k) * ?P"
    using carry_split [of "unat t" ?P] f by (simp add: unat_limb)
  have y: "unat d * low y (Suc i) * base ^ j = unat d * low y i * base ^ j + unat d * digit y i * ?P" by (simp add: power_add algebra_simps)
  have "low w' ?N + unat k' * base ^ ?N + unat d * low y i * base ^ j = low w ?N + unat k * ?P + unat d * low y (i + Suc r) * base ^ j"
    using w'(4) c s unfolding y distrib_right by linarith
  moreover have "mul_inner d y j [i..<i + Suc r] k w = Some (k', w')"
    unfolding upt_step using ij w'(1) by (simp add: get_limb_ok set_limb_ok t_def Let_def)
  ultimately show ?case using w'(2,3) ij(2) by (auto simp: digit_put)
qed

lemma mul_loop_ok:
  assumes "j + r \<le> big_len x" "j + r + big_len y \<le> big_len w" "\<And>t. j + big_len y \<le> t \<Longrightarrow> digit w t = 0" "low w (j + big_len y) = low x j * val y"
  shows "\<exists>w'. mul_loop x y [j..<j + r] w = Some w' \<and> big_len w' = big_len w \<and> (\<forall>t. j + r + big_len y \<le> t \<longrightarrow> digit w' t = 0) \<and>
    low w' (j + r + big_len y) = low x (j + r) * val y"
  using assms
proof (induction r arbitrary: j w)
  case 0
  then show ?case by simp
next
  case (Suc r)
  let ?m = "big_len y"
  have j: "j < big_len x" "j + ?m < big_len w" using Suc.prems by simp_all
  show ?case
  proof (cases "limb x j = 0")
    case True
    then have d: "digit x j = 0" by (simp add: digit_def)
    have "low w (Suc j + ?m) = low x (Suc j) * val y" using Suc.prems(3) [of "j + ?m"] Suc.prems(4) d by simp
    then show ?thesis unfolding upt_step using Suc.IH [of "Suc j" w] Suc.prems True j by (simp add: get_limb_ok)
  next
    case False
    obtain k w1 where w1: "mul_inner (limb x j) y j [0..<?m] 0 w = Some (k, w1)" "big_len w1 = big_len w"
      "\<And>t. t < j \<or> ?m + j \<le> t \<Longrightarrow> digit w1 t = digit w t"
      "low w1 (?m + j) + unat k * base ^ (?m + j) = low w (?m + j) + digit x j * val y * base ^ j"
      using mul_inner_ok [of 0 ?m y j w "limb x j" 0] Suc.prems(2) by (auto simp: unat_limb val_def)
    let ?w = "put w1 (j + ?m) k"
    have z: "digit ?w t = 0" if "Suc j + ?m \<le> t" for t using that w1(2,3) j(2) Suc.prems(3) by (simp add: digit_put)
    have "low ?w (Suc j + ?m) = low w1 (?m + j) + unat k * base ^ (?m + j)" using w1(2) j(2) by (simp add: low_put digit_put add.commute)
    also have "\<dots> = low x (Suc j) * val y" unfolding w1(4) using Suc.prems(4) by (simp add: algebra_simps)
    finally show ?thesis unfolding upt_step using Suc.IH [of "Suc j" ?w] z w1 j False Suc.prems by (simp add: get_limb_ok set_limb_ok)
  qed
qed

lemma big_mul_ok: "\<exists>w. big_mul x y = Some w \<and> big_len w = max (big_len x + big_len y) 1 \<and> val w = val x * val y"
proof -
  obtain w where w: "big_mul x y = Some w" "big_len w = max (big_len x + big_len y) 1"
    "\<forall>t. big_len x + big_len y \<le> t \<longrightarrow> digit w t = 0" "low w (big_len x + big_len y) = val x * val y"
    using mul_loop_ok [of 0 "big_len x" x y "with_capacity (big_len y + big_len x)"]
    by (auto simp: big_mul_def val_def low_def add.commute)
  have "val w = low w (big_len x + big_len y)"
    using w(2,3) by (cases "big_len x + big_len y = 0") (simp_all add: val_def)
  then show ?thesis using w by simp
qed

section \<open>The upper part of a number\<close>

definition high :: "BigUint \<Rightarrow> nat \<Rightarrow> nat" where
  "high x j = val x div base ^ j"

lemma low_add: "low x (j + k) = low x j + base ^ j * (\<Sum>i<k. digit x (j + i) * base ^ i)"
  by (induction k) (simp_all add: power_add algebra_simps)

lemma high_sum: "big_len x \<le> j + k \<Longrightarrow> high x j = (\<Sum>i<k. digit x (j + i) * base ^ i)"
proof -
  assume "big_len x \<le> j + k"
  then have "val x = low x j + base ^ j * (\<Sum>i<k. digit x (j + i) * base ^ i)" using low_add [of x j k] low_val [of x "j + k"] by simp
  moreover have "base ^ j \<noteq> 0" using base_bounds(1) by simp
  ultimately show ?thesis using low_lt [of x j] by (simp add: high_def)
qed

lemma high_cong: "(\<And>i. j \<le> i \<Longrightarrow> digit x i = digit y i) \<Longrightarrow> high x j = high y j"
  using high_sum [of x j "big_len x + big_len y"] high_sum [of y j "big_len x + big_len y"] by simp

lemma val_high: "val x = low x j + base ^ j * high x j"
  using high_sum [of x j "big_len x"] low_add [of x j "big_len x"] low_val [of x "j + big_len x"] by simp

lemma high_step: "high x j = digit x j + base * high x (Suc j)"
proof -
  have "low x j + base ^ j * high x j = low x j + base ^ j * (digit x j + base * high x (Suc j))"
    using val_high [of x j] val_high [of x "Suc j"] by (simp add: algebra_simps)
  then show ?thesis using base_bounds(1) by simp
qed

lemma high_out: "big_len x \<le> j \<Longrightarrow> high x j = 0"
  using val_lt [of x j] by (simp add: high_def)

lemma high_0: "high x 0 = val x"
  by (simp add: high_def)

lemma high_put: "i < j \<Longrightarrow> i < big_len x \<Longrightarrow> high (put x i v) j = high x j"
  by (intro high_cong) (simp add: digit_put)

lemma val_cong: "(\<And>i. digit x i = digit y i) \<Longrightarrow> val x = val y"
  using high_cong [of 0 x y] by (simp add: high_0)

lemma digit_val: "digit x i = val x div base ^ i mod base"
  using high_step [of x i] digit_lt [of x i] by (simp add: high_def mod_mult_self2)

section \<open>Division by one limb\<close>

lemma div_unit_loop_ok:
  assumes "d \<le> big_len x" "d \<le> big_len out" "unat r < unat c" "high out d * unat c + unat r = high x d"
  shows "\<exists>out'. div_unit_loop x c (rev [0..<d]) r out = Some out' \<and> big_len out' = big_len out \<and> val out' = val x div unat c"
  using assms
proof (induction d arbitrary: r out)
  case 0
  have "(high out 0 * unat c + unat r) div unat c = high out 0" using 0(3) by simp
  then show ?case using 0(4) by (simp add: high_0)
next
  case (Suc d)
  define s where "s = ucast r * B + ucast (limb x d)"
  have c: "0 < unat c" "c \<noteq> 0" using Suc.prems(3) by auto
  have b: "digit x d + unat r * base < base * base" by (intro carry_fits digit_lt single_lt)
  have "unat (ucast r * B) = unat r * base" using single_lt [of r] base_bounds(1) by (subst unat_mul64) (simp_all add: unat_widen unat_B)
  then have s: "unat s = unat r * base + digit x d" unfolding s_def using b by (subst unat_add64) (simp_all add: unat_widen unat_limb)
  have "unat s < unat c * base"
  proof -
    have "(unat r + 1) * base \<le> unat c * base" using Suc.prems(3) by (intro mult_le_mono1) simp
    then show ?thesis unfolding s using digit_lt [of x d] by simp
  qed
  then have "unat s div unat c < base" by (simp add: less_mult_imp_div_less mult.commute)
  then have q: "unat (ucast (s div ucast c) :: Single) = unat s div unat c" by (subst unat_narrow) (simp_all add: unat_div unat_widen)
  have "unat s mod unat c < base" using mod_less_divisor [OF c(1), of "unat s"] single_lt [of c] by linarith
  then have m: "unat (ucast (s mod ucast c) :: Single) = unat s mod unat c" by (subst unat_narrow) (simp_all add: unat_mod unat_widen)
  let ?o = "put out d (ucast (s div ucast c))"
  have d: "d < big_len out" "d < big_len x" using Suc.prems by simp_all
  have "high ?o d * unat c + unat s mod unat c = (unat s div unat c * unat c + unat s mod unat c) + base * (high out (Suc d) * unat c)"
    using d high_step [of ?o d] by (simp add: digit_put q high_put algebra_simps)
  also have "\<dots> = digit x d + base * (high out (Suc d) * unat c + unat r)" by (simp add: s algebra_simps)
  finally have "high ?o d * unat c + unat s mod unat c = high x d" unfolding Suc.prems(4) high_step [of x d, symmetric] .
  then show ?case using Suc.IH [of ?o "ucast (s mod ucast c)"] Suc.prems d c m
    by (simp add: get_limb_ok set_limb_ok div_single_def s_def [symmetric])
qed

lemma div_unit_ok: "\<exists>w. div_unit x other = Some w \<and> big_len w = max (big_len x) 1 \<and> val w = val x div max (unat other) 1"
proof -
  have m: "unat (max other 1) = max (unat other) 1" by (simp add: max_def word_le_nat_alt)
  have "high (with_capacity (big_len x)) (big_len x) = 0" using high_sum [of "with_capacity (big_len x)" "big_len x" 1] by simp
  then show ?thesis using div_unit_loop_ok [of "big_len x" x "with_capacity (big_len x)" 0 "max other 1"] m
    by (simp add: div_unit_def Let_def high_out)
qed

section \<open>Stripping and padding\<close>

lemma val_Cons: "val \<lparr>digits = d # ds\<rparr> = unat d * base ^ length ds + val \<lparr>digits = ds\<rparr>"
proof -
  have "(\<Sum>i<length ds. unat ((d # ds) ! (length ds - i)) * base ^ i) = (\<Sum>i<length ds. unat (ds ! (length ds - 1 - i)) * base ^ i)"
    by (intro sum.cong) (simp_all add: nth_Cons_pos)
  then show ?thesis by (simp add: val_digits)
qed

lemma val_Nil [simp]: "val \<lparr>digits = []\<rparr> = 0"
  by (simp add: val_digits)

lemma val_list_lt: "val \<lparr>digits = ds\<rparr> < base ^ length ds"
  using val_lt [of "\<lparr>digits = ds\<rparr>" "length ds"] by (simp add: big_len_def)

lemma val_leading: "d \<noteq> 0 \<Longrightarrow> base ^ length ds \<le> val \<lparr>digits = d # ds\<rparr>"
  unfolding val_Cons using unat_positive [of d] by (cases "unat d") auto

lemma val_eta: "val \<lparr>digits = digits x\<rparr> = val x"
  by (simp add: val_def low_def digit_def limb_def big_len_def)

lemma val_snoc: "val \<lparr>digits = ds @ [d]\<rparr> = val \<lparr>digits = ds\<rparr> * base + unat d"
  by (induction ds) (simp_all add: val_Cons algebra_simps)

lemma val_dropWhile: "val \<lparr>digits = dropWhile (\<lambda>e. e = 0) ds\<rparr> = val \<lparr>digits = ds\<rparr>"
  by (induction ds) (simp_all add: val_Cons)

lemma lstrip_digits:
  "digits (lstrip x) = (if digits x \<noteq> [] \<and> list_all (\<lambda>d. d = 0) (digits x) then [0] else dropWhile (\<lambda>d. d = 0) (digits x))"
proof (cases "digits x = [] \<or> \<not> list_all (\<lambda>d. d = 0) (digits x)")
  case True
  let ?zs = "takeWhile (\<lambda>d. d = 0) (digits x)"
  have "length (digits x) = length ?zs + length (dropWhile (\<lambda>d. d = 0) (digits x))"
    unfolding length_append [symmetric] takeWhile_dropWhile_id ..
  moreover have "digits x \<noteq> [] \<Longrightarrow> dropWhile (\<lambda>d. d = 0) (digits x) \<noteq> []" using True by (simp add: dropWhile_eq_Nil_conv list_all_iff)
  ultimately have "digits x \<noteq> [] \<Longrightarrow> length ?zs < length (digits x)" by simp
  moreover have "drop (length ?zs) (digits x) = dropWhile (\<lambda>d. d = 0) (digits x)" by (simp add: dropWhile_eq_drop)
  ultimately show ?thesis using True by (auto simp: lstrip_def Let_def big_len_def)
next
  case False
  then have "digits x = replicate (length (digits x)) 0" by (intro replicate_eqI) (auto simp: list_all_iff)
  moreover obtain ds where "length (digits x) = Suc ds" using False by (cases "digits x") auto
  ultimately have ds: "digits x = replicate (Suc ds) 0" by simp
  then have "lstrip x = x\<lparr>digits := drop ds (digits x)\<rparr>" by (cases x) (simp add: lstrip_def big_len_def Let_def)
  moreover have "drop ds (replicate (Suc ds) 0) = [0 :: Single]" by (simp only: drop_replicate) simp
  ultimately show ?thesis using False ds by simp
qed

lemma val_zero: "val \<lparr>digits = ds\<rparr> = 0 \<longleftrightarrow> list_all (\<lambda>d. d = 0) ds"
proof (induction ds)
  case (Cons d ds)
  then show ?case using base_bounds(1) by (auto simp: val_Cons unat_eq_zero)
qed simp

lemma lstrip_val: "val (lstrip x) = val x"
proof -
  have "val \<lparr>digits = digits (lstrip x)\<rparr> = val \<lparr>digits = digits x\<rparr>" unfolding lstrip_digits by (auto simp: val_zero val_Cons val_dropWhile)
  then show ?thesis unfolding val_eta .
qed

lemma lstrip_leading:
  assumes "val x \<noteq> 0"
  shows "\<exists>d ds. digits (lstrip x) = d # ds \<and> d \<noteq> 0"
proof -
  have n: "\<not> list_all (\<lambda>d. d = 0) (digits x)" using assms by (simp add: val_zero [symmetric] val_eta)
  then have d: "digits (lstrip x) = dropWhile (\<lambda>d. d = 0) (digits x)" by (simp add: lstrip_digits)
  have "dropWhile (\<lambda>d. d = 0) (digits x) \<noteq> []" using n by (simp add: list_all_iff)
  then show ?thesis unfolding d using hd_dropWhile [of "\<lambda>d. d = 0" "digits x"] by (cases "dropWhile (\<lambda>d. d = 0) (digits x)") simp_all
qed

lemma lstrip_zero: "val x = 0 \<Longrightarrow> big_len (lstrip x) \<le> 1"
proof -
  assume "val x = 0"
  then have "list_all (\<lambda>d. d = 0) (digits x)" by (simp add: val_zero [symmetric] val_eta)
  then have "digits (lstrip x) = (if digits x = [] then [] else [0])" by (auto simp: lstrip_digits)
  then show ?thesis by (simp add: big_len_def)
qed

lemma lstrip_lower: "val x \<noteq> 0 \<Longrightarrow> 0 < big_len (lstrip x) \<and> base ^ (big_len (lstrip x) - 1) \<le> val x"
proof -
  assume "val x \<noteq> 0"
  then obtain d ds where d: "digits (lstrip x) = d # ds" "d \<noteq> 0" using lstrip_leading by blast
  have "val x = val \<lparr>digits = d # ds\<rparr>" using val_eta [of "lstrip x"] by (simp add: d(1) lstrip_val)
  then show ?thesis using val_leading [OF d(2), of ds] by (simp add: big_len_def d(1))
qed

lemma lstrip_upper: "val x < base ^ big_len (lstrip x)"
  using val_lt [of "lstrip x" "big_len (lstrip x)"] by (simp add: lstrip_val)

lemma lstrip_len:
  assumes "base ^ n \<le> val x" "val x < base ^ Suc n"
  shows "big_len (lstrip x) = Suc n"
proof -
  have "0 < base ^ n" using base_bounds(1) by simp
  then have "val x \<noteq> 0" using assms(1) by linarith
  then have l: "0 < big_len (lstrip x)" "base ^ (big_len (lstrip x) - 1) \<le> val x" using lstrip_lower by blast+
  have "base ^ (big_len (lstrip x) - 1) < base ^ Suc n" using l(2) assms(2) by (rule le_less_trans)
  then have 1: "big_len (lstrip x) - 1 < Suc n" by (rule power_less_imp_less_exp [OF base_bounds(2)])
  have "base ^ n < base ^ big_len (lstrip x)" using assms(1) lstrip_upper by (rule le_less_trans)
  then have "n < big_len (lstrip x)" by (rule power_less_imp_less_exp [OF base_bounds(2)])
  then show ?thesis using 1 by simp
qed

lemma lpad_noop: "sz \<le> big_len x \<Longrightarrow> lpad x sz = x"
  by (simp add: lpad_def)

lemma lpad_val: "val (lpad x sz) = val x \<and> big_len (lpad x sz) = max (big_len x) sz"
proof -
  have "val \<lparr>digits = replicate k 0 @ ds\<rparr> = val \<lparr>digits = ds\<rparr>" for k ds by (induction k) (simp_all add: val_Cons)
  then show ?thesis by (cases x) (simp add: lpad_def Let_def big_len_def)
qed

section \<open>Comparison\<close>

lemma cmp_simps: "cmp a b = Less \<longleftrightarrow> a < b" "cmp a b = Equal \<longleftrightarrow> a = b" "cmp a b = Greater \<longleftrightarrow> b < (a :: 'a::linorder)"
  by (auto simp: cmp_def)

lemma cmp_same [simp]: "cmp a a = Equal"
  by (simp add: cmp_def)

lemma cmp_shift: "cmp (k + a) (k + b) = cmp a (b :: nat)"
  by (simp add: cmp_def)

lemma leading_less:
  assumes "a < b" "r < p"
  shows "a * p + r < b * p + (s :: nat)"
proof -
  have "Suc a * p \<le> b * p" using assms(1) by (intro mult_le_mono1) simp
  then show ?thesis using assms(2) by simp
qed

lemma cmp_leading:
  assumes "r < p" "s < p" "a \<noteq> b"
  shows "cmp (a * p + r) (b * p + s) = cmp a (b :: nat)"
proof (cases "a < b")
  case True
  then show ?thesis using leading_less [OF True assms(1), of s] by (simp add: cmp_def)
next
  case False
  then have "b < a" using assms(3) by simp
  from leading_less [OF this assms(2), of r] show ?thesis using \<open>b < a\<close> by (simp add: cmp_def)
qed

lemma cmp_slices_ok: "length as = length bs \<Longrightarrow> cmp_slices as bs = cmp (val \<lparr>digits = as\<rparr>) (val \<lparr>digits = bs\<rparr>)"
proof (induction as bs rule: list_induct2)
  case (Cons a as b bs)
  show ?case
  proof (cases "a = b")
    case True
    then show ?thesis using Cons by (simp add: val_Cons cmp_simps cmp_shift)
  next
    case False
    then have "unat a \<noteq> unat b" by (metis unsigned_word_eqI)
    then have "cmp (val \<lparr>digits = a # as\<rparr>) (val \<lparr>digits = b # bs\<rparr>) = cmp (unat a) (unat b)"
      unfolding val_Cons Cons.hyps using val_list_lt [of as] val_list_lt [of bs] Cons.hyps by (intro cmp_leading) simp_all
    moreover have "cmp (unat a) (unat b) = cmp a b" using False \<open>unat a \<noteq> unat b\<close> by (simp add: cmp_def word_less_nat_alt)
    moreover have "cmp_slices (a # as) (b # bs) = cmp a b" using False by (auto simp: cmp_def)
    ultimately show ?thesis by simp
  qed
qed (simp add: cmp_def)

lemma longer_greater:
  assumes "as = d # ds" "d \<noteq> 0" "length bs < length as"
  shows "val \<lparr>digits = bs\<rparr> < val \<lparr>digits = as\<rparr>"
proof -
  have "val \<lparr>digits = bs\<rparr> < base ^ length bs" by (rule val_list_lt)
  also have "\<dots> \<le> base ^ length ds" using assms(1,3) base_bounds(2) by (intro power_increasing) simp_all
  also have "\<dots> \<le> val \<lparr>digits = as\<rparr>" unfolding assms(1) by (rule val_leading [OF assms(2)])
  finally show ?thesis .
qed

lemma big_cmp_ok: "big_cmp x y = cmp (val x) (val y)"
proof -
  define as bs where ab: "as = dropWhile (\<lambda>e. e = 0) (digits x)" "bs = dropWhile (\<lambda>e. e = 0) (digits y)"
  have v: "val x = val \<lparr>digits = as\<rparr>" "val y = val \<lparr>digits = bs\<rparr>" unfolding ab val_dropWhile val_eta by (rule refl)+
  have h: "as = d # ds \<Longrightarrow> d \<noteq> 0" "bs = d # ds \<Longrightarrow> d \<noteq> 0" for d ds
    using hd_dropWhile [of "\<lambda>e. e = 0" "digits x"] hd_dropWhile [of "\<lambda>e. e = 0" "digits y"] unfolding ab by (metis list.distinct(1) list.sel(1))+
  show ?thesis
  proof (cases "as = [] \<or> bs = []")
    case True
    then show ?thesis unfolding big_cmp_def Let_def ab [symmetric] v
      using h longer_greater [of as _ _ "[]"] longer_greater [of bs _ _ "[]"] by (cases as; cases bs) (auto simp: cmp_def)
  next
    case False
    then obtain a as' b bs' where c: "as = a # as'" "bs = b # bs'" by (meson list.exhaust)
    have e: "big_cmp x y = (case cmp (length as) (length bs) of Equal \<Rightarrow> cmp_slices as bs | c \<Rightarrow> c)"
      unfolding big_cmp_def Let_def ab [symmetric] c by (simp split: Ordering.splits)
    consider "length as = length bs" | "length as < length bs" | "length bs < length as" by linarith
    then show ?thesis
    proof cases
      case 1
      then show ?thesis unfolding e v by (simp add: cmp_slices_ok cmp_def)
    next
      case 2
      then show ?thesis unfolding e v using longer_greater [OF c(2) h(2) [OF c(2)] 2] by (simp add: cmp_def)
    next
      case 3
      then show ?thesis unfolding e v using longer_greater [OF c(1) h(1) [OF c(1)] 3] by (simp add: cmp_def)
    qed
  qed
qed

section \<open>Conversions\<close>

lemma split_double_ok: "split_double a = (h, l) \<Longrightarrow> unat a = unat h * base + unat l"
proof -
  assume e: "split_double a = (h, l)"
  have d: "unat (drop_bit 32 a) = unat a div base" by (simp add: unat_drop_bit base_def)
  then have "unat (drop_bit 32 a) < base" using double_lt [of a] by (simp add: less_mult_imp_div_less)
  then have "unat h = unat a div base" using e d unat_narrow by (auto simp: split_double_def Let_def SHIFT_def)
  moreover have "unat l = unat a mod base" using e by (auto simp: split_double_def Let_def unsigned_ucast_eq take_bit_eq_mod base_def)
  ultimately show ?thesis by simp
qed

lemma from_u64_val: "val (from_u64 a) = unat a"
  using split_double_ok [of a] by (cases "split_double a") (simp add: from_u64_def val_Cons)

lemma from_u32_val: "val (from_u32 a) = unat a"
  by (simp add: from_u32_def val_Cons)

lemma to_big_uint_val: "val (to_big_uint x) = unat x"
proof -
  obtain xh xl where s: "split128 x = (xh, xl)" by fastforce
  obtain a b where ab: "split_double xh = (a, b)" by fastforce
  obtain c d where cd: "split_double xl = (c, d)" by fastforce
  have u: "unat (ucast y :: u64) = unat y mod 2 ^ 64" for y :: u128 by (simp add: unsigned_ucast_eq take_bit_eq_mod)
  have e: "xh = ucast (drop_bit 64 x)" "xl = ucast x" using s unfolding split128_def Let_def by blast+
  have "unat x < 2 ^ 64 * 2 ^ 64" using unat_lt_128 [of x] by simp
  then have "unat x div 2 ^ 64 < 2 ^ 64" by (rule less_mult_imp_div_less)
  then have 1: "unat xh = unat x div 2 ^ 64" unfolding e u unat_drop_bit by (rule mod_less)
  have 2: "unat xl = unat x mod 2 ^ 64" unfolding e by (rule u)
  have "unat x = unat xh * (base * base) + unat xl" unfolding base_square 1 2 by (rule div_mult_mod_eq [symmetric])
  then have "unat x = (unat a * base + unat b) * (base * base) + (unat c * base + unat d)"
    unfolding split_double_ok [OF ab] split_double_ok [OF cd] .
  moreover have "val \<lparr>digits = [a, b, c, d]\<rparr> = (unat a * base + unat b) * (base * base) + (unat c * base + unat d)"
    by (simp add: val_Cons distrib_right mult.assoc)
  moreover have "to_big_uint x = lstrip \<lparr>digits = [a, b, c, d]\<rparr>" using s ab cd by (simp add: to_big_uint_def from_limbs_def)
  ultimately show ?thesis by (simp only: lstrip_val)
qed

lemma acc_limbs_ok: "acc_limbs i ds acc = acc + (of_nat (val \<lparr>digits = rev ds\<rparr> * base ^ i) :: 'a::len word)"
proof (induction ds arbitrary: i acc)
  case (Cons d ds)
  have "push_bit (SHIFT * i) (ucast d :: 'a word) = of_nat (unat d * base ^ i)"
    by (simp add: push_bit_eq_mult SHIFT_def base_def power_mult of_nat_unat)
  then show ?case by (simp add: Cons val_snoc algebra_simps)
qed simp

lemma try_from_big_ok:
  assumes "LENGTH('a) = 32 * k" "0 < k"
  shows "try_from_big (LENGTH('a)) x = (if val x < 2 ^ LENGTH('a) then Inr (of_nat (val x) :: 'a::len word) else Inl ())"
proof -
  have p: "2 ^ LENGTH('a) = base ^ k" unfolding assms(1) by (simp add: base_def power_mult)
  have a: "acc_limbs 0 (rev (digits (lstrip x))) 0 = (of_nat (val x) :: 'a word)" by (simp add: acc_limbs_ok val_eta lstrip_val)
  have "32 * k < big_len (lstrip x) * SHIFT \<longleftrightarrow> base ^ k \<le> val x"
  proof
    assume "32 * k < big_len (lstrip x) * SHIFT"
    then have l: "k \<le> big_len (lstrip x) - 1" "1 < big_len (lstrip x)" using assms(2) by (auto simp: SHIFT_def)
    have "val x \<noteq> 0" using l(2) lstrip_zero [of x] by auto
    then have "base ^ (big_len (lstrip x) - 1) \<le> val x" using lstrip_lower by blast
    then show "base ^ k \<le> val x" using power_increasing [OF l(1), of base] base_bounds(1) by linarith
  next
    assume "base ^ k \<le> val x"
    then have "base ^ k < base ^ big_len (lstrip x)" using lstrip_upper by (rule le_less_trans)
    then have "k < big_len (lstrip x)" by (rule power_less_imp_less_exp [OF base_bounds(2)])
    then show "32 * k < big_len (lstrip x) * SHIFT" by (simp add: SHIFT_def)
  qed
  then show ?thesis unfolding p by (simp add: try_from_big_def Let_def a assms(1) not_le)
qed

end
