(* ===== verification/BigUint_Div.thy ===== *)
theory BigUint_Div
  imports BigUint_Value
begin

text \<open>
  Knuth's division of \<^verbatim>\<open>BigUint::div\<close>: the estimated digit is the true one or one too big, a step replaces the
  window by its remainder, the whole loop computes quotient and remainder of the normalised operands, and
  the final shift undoes the normalisation.
\<close>

section \<open>Windows\<close>

lemma low_mod: "low x j = val x mod base ^ j"
  using val_high [of x j] low_lt [of x j] by simp

lemma high_split: "high x j = (\<Sum>i<k. digit x (j + i) * base ^ i) + base ^ k * high x (j + k)"
proof -
  have "low x j + base ^ j * high x j = low x j + base ^ j * ((\<Sum>i<k. digit x (j + i) * base ^ i) + base ^ k * high x (j + k))"
    using val_high [of x j] val_high [of x "j + k"] low_add [of x j k] by (simp add: power_add algebra_simps)
  then show ?thesis using base_bounds(1) by simp
qed

lemma high_beyond: "high x j < base ^ k \<Longrightarrow> high x (j + k) = 0"
  by (simp add: high_def power_add div_mult2_eq)

lemma get_limbs_ok: "\<forall>d\<in>set ds. d < big_len x \<Longrightarrow> get_limbs x ds = Some (map (limb x) ds)"
  by (induction ds) (simp_all add: get_limb_ok)

lemma window_ok:
  assumes "j + n < big_len x"
  shows "\<exists>w. window x j n = Some w \<and> big_len w = n + 1 \<and> (\<forall>i\<le>n. digit w i = digit x (j + i))"
proof -
  let ?w = "\<lparr>digits = map (limb x) (rev [j..<j + n + 1])\<rparr>"
  have "limb ?w i = limb x (j + i)" if "i \<le> n" for i
  proof -
    have "rev [j..<j + n + 1] ! (n - i) = [j..<j + n + 1] ! i" using that by (subst rev_nth) simp_all
    also have "\<dots> = j + i" using that by (subst nth_upt) simp_all
    finally show ?thesis using that by (simp add: limb_def big_len_def del: upt_Suc)
  qed
  then show ?thesis using assms by (intro exI [of _ ?w]) (simp add: window_def get_limbs_ok big_len_def digit_def del: upt_Suc)
qed

lemma window_val:
  assumes "j + n < big_len x" "high x (j + n + 1) = 0"
  shows "\<exists>w. window x j n = Some w \<and> big_len w = n + 1 \<and> val w = high x j \<and> (\<forall>i\<le>n. digit w i = digit x (j + i))"
proof -
  obtain w where w: "window x j n = Some w" "big_len w = n + 1" "\<forall>i\<le>n. digit w i = digit x (j + i)" using window_ok [OF assms(1)] by blast
  have "high x j = (\<Sum>i<n + 1. digit x (j + i) * base ^ i)" using high_split [of x j "n + 1"] assms(2) by (simp add: add.assoc)
  also have "\<dots> = (\<Sum>i<n + 1. digit w i * base ^ i)" using w(3) by (intro sum.cong) simp_all
  also have "\<dots> = val w" using low_val [of w "n + 1"] w(2) by (simp add: low_def)
  finally show ?thesis using w by metis
qed

lemma write_limbs_ok:
  assumes "\<forall>d\<in>set ds. j \<le> d \<and> d < big_len x \<and> d - j < big_len s"
  shows "\<exists>x'. write_limbs s j ds x = Some x' \<and> big_len x' = big_len x \<and>
    (\<forall>i. digit x' i = (if i \<in> set ds then digit s (i - j) else digit x i))"
  using assms
proof (induction ds arbitrary: x)
  case (Cons d ds)
  from Cons.IH [of "put x d (limb s (d - j))"] Cons.prems obtain x' where
    x': "write_limbs s j ds (put x d (limb s (d - j))) = Some x'" "big_len x' = big_len x"
      "\<forall>i. digit x' i = (if i \<in> set ds then digit s (i - j) else digit (put x d (limb s (d - j))) i)" by auto
  then show ?case using Cons.prems by (intro exI [of _ x']) (auto simp: get_limb_ok set_limb_ok digit_put unat_limb)
qed simp

lemma write_limbs_val:
  assumes "set ds = {j..j + n}" "j + n < big_len x" "n < big_len s" "high x (j + n + 1) = 0"
  shows "\<exists>x'. write_limbs s j ds x = Some x' \<and> big_len x' = big_len x \<and> low x' j = low x j \<and>
    high x' j = val s mod base ^ (n + 1) \<and> high x' (j + n + 1) = 0"
proof -
  have "\<forall>d\<in>set ds. j \<le> d \<and> d < big_len x \<and> d - j < big_len s" using assms(1-3) by auto
  from write_limbs_ok [OF this] obtain x' where x': "write_limbs s j ds x = Some x'" "big_len x' = big_len x"
    "\<And>i. digit x' i = (if i \<in> {j..j + n} then digit s (i - j) else digit x i)" unfolding assms(1) by blast
  have l: "low x' j = low x j" by (intro low_cong) (simp add: x'(3))
  have h: "high x' (j + n + 1) = 0" unfolding assms(4) [symmetric] by (intro high_cong) (simp add: x'(3))
  have "high x' j = (\<Sum>i<n + 1. digit x' (j + i) * base ^ i)" using high_split [of x' j "n + 1"] h by (simp add: add.assoc)
  also have "\<dots> = low s (n + 1)" unfolding low_def by (intro sum.cong) (simp_all add: x'(3))
  finally show ?thesis using x' l h by (metis low_mod)
qed

section \<open>The estimated digit\<close>

text \<open>
  \<open>V\<close> is the divisor with leading limbs \<open>v1\<close> and \<open>v2\<close>, \<open>U\<close> the window with leading limbs \<open>u0\<close>, \<open>u1\<close> and \<open>u2\<close>;
  \<open>P\<close> is the weight of \<open>v2\<close> and \<open>u2\<close>.
\<close>

lemma estimate_initial:
  assumes U: "U = ul + u2 * P + u1 * (base * P) + u0 * (base * (base * P))" and V: "V = vl + v2 * P + v1 * (base * P)"
    and b: "ul < P" "u2 < base" and v1: "0 < v1"
  shows "U < ((u0 * base + u1) div v1 + 1) * V"
proof -
  define q where "q = (u0 * base + u1) div v1"
  have "u0 * base + u1 < (q + 1) * v1" unfolding q_def using dividend_less_div_times [OF v1, of "u0 * base + u1"] by simp
  then have "(u0 * base + u1 + 1) * (base * P) \<le> (q + 1) * v1 * (base * P)" by (intro mult_le_mono1) simp
  also have "\<dots> \<le> (q + 1) * V" unfolding V by (simp add: algebra_simps)
  finally have 1: "(u0 * base + u1 + 1) * (base * P) \<le> (q + 1) * V" .
  have "ul + u2 * P < base * P" using leading_less [OF b(2,1), of 0] by simp
  then have "U < (u0 * base + u1 + 1) * (base * P)" unfolding U by (simp add: algebra_simps)
  then show ?thesis using 1 unfolding q_def by (rule less_le_trans)
qed

lemma estimate_too_big:
  assumes U: "U = ul + u2 * P + u1 * (base * P) + u0 * (base * (base * P))" and V: "V = vl + v2 * P + v1 * (base * P)"
    and b: "ul < P" and e: "q * v1 + r = u0 * base + u1" and t: "base * r + u2 < q * v2"
  shows "U < q * V"
proof -
  have "(u0 * base + u1) * (base * P) + (base * r + u2 + 1) * P \<le> (q * v1 + r) * (base * P) + q * v2 * P"
    unfolding e using t by (intro add_left_mono mult_le_mono1) simp
  then have "(u0 * base + u1) * (base * P) + u2 * P + P \<le> q * v1 * (base * P) + q * v2 * P" by (simp add: algebra_simps)
  moreover have "q * v1 * (base * P) + q * v2 * P \<le> q * V" unfolding V by (simp add: algebra_simps)
  moreover have "U < (u0 * base + u1) * (base * P) + u2 * P + P" unfolding U using b by (simp add: algebra_simps)
  ultimately show ?thesis by linarith
qed

lemma estimate_close:
  assumes U: "U = ul + u2 * P + u1 * (base * P) + u0 * (base * (base * P))" and V: "V = vl + v2 * P + v1 * (base * P)"
    and b: "vl < P" "0 < v1" and e: "q * v1 + r = u0 * base + u1" and t: "q * v2 \<le> base * r + u2" "q < base"
  shows "q * V < U + V"
proof -
  have "q * v1 * (base * P) + q * v2 * P \<le> q * v1 * (base * P) + (base * r + u2) * P" using t(1) by (intro add_left_mono mult_le_mono1)
  also have "\<dots> = (q * v1 + r) * (base * P) + u2 * P" by (simp add: algebra_simps)
  also have "\<dots> \<le> U" unfolding e U by (simp add: algebra_simps)
  finally have 1: "q * v1 * (base * P) + q * v2 * P \<le> U" .
  have "q * vl \<le> q * P" using b(1) by simp
  also have "\<dots> < base * P" using t(2) b(1) by simp
  also have "\<dots> \<le> V" unfolding V using b(2) by (cases v1) simp_all
  finally have "q * vl < V" .
  moreover have "q * V = q * v1 * (base * P) + q * v2 * P + q * vl" unfolding V by (simp add: algebra_simps)
  ultimately show ?thesis using 1 by linarith
qed

lemma estimate_exact:
  fixes U q V :: nat
  assumes "U < (q + 1) * V" "q * V < U + V" "0 < V"
  shows "if q * V \<le> U then q = U div V \<and> U - q * V = U mod V else q = U div V + 1 \<and> U + V - q * V = U mod V"
proof (cases "q * V \<le> U")
  case True
  then obtain r where r: "U = r + q * V" by (metis le_add_diff_inverse2)
  then have "r < V" using assms(1) by (simp add: distrib_right)
  then have "U div V = q" "U mod V = r" unfolding r using assms(3) by simp_all
  then show ?thesis using r by simp
next
  case False
  then obtain p where p: "q = Suc p" by (cases q) auto
  then have "p * V \<le> U" using assms(2) by simp
  then obtain r where r: "U = r + p * V" by (metis le_add_diff_inverse2)
  then have "r < V" using False unfolding p by simp
  then have "U div V = p" "U mod V = r" unfolding r using assms(3) by simp_all
  then show ?thesis using False p r by simp
qed

definition qhat_inv :: "Single \<Rightarrow> nat \<Rightarrow> nat \<Rightarrow> nat \<Rightarrow> Double \<times> Double \<Rightarrow> bool" where
  "qhat_inv v1 u U V = (\<lambda>(qhat, rhat). unat qhat * unat v1 + unat rhat = u \<and> U < (unat qhat + 1) * V \<and> unat qhat \<le> base + 1)"

definition qhat_done :: "Single \<Rightarrow> Single \<Rightarrow> Double \<times> Double \<Rightarrow> bool" where
  "qhat_done v2 u2 = (\<lambda>(qhat, rhat). unat qhat < base \<and> unat qhat * unat v2 \<le> base * unat rhat + unat u2)"

lemma qhat_test_eq:
  assumes "unat qhat \<le> base + 1" "unat rhat < base"
  shows "qhat_test v1 v2 u2 (qhat, rhat) =
    (if qhat_done v2 u2 (qhat, rhat) then (False, (qhat, rhat)) else (True, (qhat - 1, rhat + ucast v1)))"
proof -
  have "unat qhat * unat v2 \<le> (base + 1) * (base - 1)" using assms(1) single_lt [of v2] by (intro mult_le_mono) simp_all
  also have "(base + 1) * (base - 1) < base * base"
  proof -
    have "(Suc b + 1) * (Suc b - 1) < Suc b * Suc b" for b :: nat by simp
    from this [of "base - 1"] show ?thesis using base_bounds(1) by simp
  qed
  finally have l: "unat (qhat * ucast v2) = unat qhat * unat v2" by (subst unat_mul64) (simp_all add: unat_widen)
  have c: "unat u2 + unat rhat * base < base * base" by (intro carry_fits assms(2) single_lt)
  then have "unat (B * rhat) = base * unat rhat" using assms(2) base_bounds(1) by (subst unat_mul64) (simp_all add: unat_B mult.commute)
  then have "unat (B * rhat + ucast u2) = base * unat rhat + unat u2" using c by (subst unat_add64) (simp_all add: unat_widen algebra_simps)
  then show ?thesis using l by (auto simp: qhat_test_def qhat_done_def Let_def word_le_nat_alt word_less_nat_alt unat_B)
qed

lemma qhat_decrease:
  assumes i: "qhat_inv v1 u U V (qhat, rhat)" and r: "unat rhat < base" and d: "\<not> qhat_done v2 u2 (qhat, rhat)"
    and U: "U < V * base" and A: "\<And>q r. q * unat v1 + r = u \<Longrightarrow> base * r + unat u2 < q * unat v2 \<Longrightarrow> U < q * V"
  shows "qhat_inv v1 u U V (qhat - 1, rhat + ucast v1)" "unat (rhat + ucast v1) = unat rhat + unat v1"
proof -
  have i': "unat qhat * unat v1 + unat rhat = u" "U < (unat qhat + 1) * V" "unat qhat \<le> base + 1" using i by (simp_all add: qhat_inv_def)
  have q: "U < unat qhat * V"
  proof (cases "base \<le> unat qhat")
    case True
    then have "V * base \<le> unat qhat * V" by (simp add: mult.commute)
    then show ?thesis using U by linarith
  next
    case False
    then show ?thesis using d A [OF i'(1)] by (simp add: qhat_done_def)
  qed
  then have "qhat \<noteq> 0" by (cases "qhat = 0") simp_all
  then have m: "unat (qhat - 1) + 1 = unat qhat" using unat_minus_one [of qhat] unat_positive [of qhat] by simp
  have "unat rhat + unat v1 < base * base" using r single_lt [of v1] base_bounds(3) mult_le_mono1 [OF base_bounds(3), of base] by linarith
  then show s: "unat (rhat + ucast v1) = unat rhat + unat v1" by (subst unat_add64) (simp_all add: unat_widen)
  have "unat qhat * unat v1 = unat (qhat - 1) * unat v1 + unat v1" unfolding m [symmetric] by simp
  moreover have "U < (unat (qhat - 1) + 1) * V" unfolding m by (rule q)
  ultimately show "qhat_inv v1 u U V (qhat - 1, rhat + ucast v1)" unfolding qhat_inv_def using i' m by (simp add: s)
qed

lemma qhat_overshoot:
  assumes "qhat_inv v1 u U V (qhat, rhat)" "base \<le> unat rhat" "u = u0 * base + u1" "u0 \<le> unat v1" "u1 < base"
  shows "qhat_done v2 u2 (qhat, rhat)"
proof -
  have "unat qhat * unat v1 + base \<le> u" using assms(1,2) by (simp add: qhat_inv_def)
  also have "\<dots> < unat v1 * base + base" unfolding assms(3) using mult_le_mono1 [OF assms(4), of base] assms(5) by linarith
  finally have "unat qhat * unat v1 < base * unat v1" by (simp add: mult.commute)
  then have q: "unat qhat < base" by simp
  have "unat qhat * unat v2 \<le> base * base" using q single_lt [of v2] by (intro mult_le_mono) simp_all
  also have "\<dots> \<le> base * unat rhat" using assms(2) by simp
  finally show ?thesis using q by (simp add: qhat_done_def)
qed

lemma qhat_loop_ok:
  assumes i: "qhat_inv v1 u U V (qhat, rhat)" and u: "u = u0 * base + u1" "u0 \<le> unat v1" "u1 < base" and v1: "0 < unat v1"
    and U: "U < V * base" and A: "\<And>q r. q * unat v1 + r = u \<Longrightarrow> base * r + unat u2 < q * unat v2 \<Longrightarrow> U < q * V"
  shows "\<exists>qr. qhat_loop v1 v2 u2 (qhat, rhat) = Some qr \<and> qhat_inv v1 u U V qr \<and> qhat_done v2 u2 qr"
  using i
proof (induction "base - unat rhat" arbitrary: qhat rhat rule: less_induct)
  case less
  show ?case
  proof (cases "unat rhat < base \<and> \<not> qhat_done v2 u2 (qhat, rhat)")
    case True
    have d: "qhat_inv v1 u U V (qhat - 1, rhat + ucast v1)" "unat (rhat + ucast v1) = unat rhat + unat v1"
      using qhat_decrease [OF less.prems True [THEN conjunct1] True [THEN conjunct2] U] A by blast+
    have "qhat_test v1 v2 u2 (qhat, rhat) = (True, (qhat - 1, rhat + ucast v1))"
      using True less.prems by (subst qhat_test_eq) (simp_all add: qhat_inv_def)
    then have "qhat_loop v1 v2 u2 (qhat, rhat) = qhat_loop v1 v2 u2 (qhat - 1, rhat + ucast v1)"
      using True by (subst qhat_loop.simps) (simp add: word_less_nat_alt unat_B)
    moreover have "base - unat (rhat + ucast v1) < base - unat rhat" using True v1 unfolding d(2) by linarith
    ultimately show ?thesis using less.hyps [OF _ d(1)] by simp
  next
    case False
    then have d: "qhat_done v2 u2 (qhat, rhat)" using qhat_overshoot [OF less.prems _ u] by force
    have "qhat_loop v1 v2 u2 (qhat, rhat) = Some (qhat, rhat)"
    proof (cases "unat rhat < base")
      case True
      then have "qhat_test v1 v2 u2 (qhat, rhat) = (False, (qhat, rhat))" using d less.prems by (subst qhat_test_eq) (simp_all add: qhat_inv_def)
      then show ?thesis using True by (subst qhat_loop.simps) (simp add: word_less_nat_alt unat_B)
    qed (subst qhat_loop.simps, simp add: word_less_nat_alt unat_B)
    then show ?thesis using d less.prems by blast
  qed
qed

lemma estimate_start:
  fixes u0 u1 :: Single
  assumes "unat u0 \<le> unat v1" "base \<le> 2 * unat v1" "0 < unat v1"
  shows "div_single (ucast u0 * B + ucast u1) v1 = Some (q, r) \<Longrightarrow>
    unat q = (unat u0 * base + unat u1) div unat v1 \<and> unat (ucast r :: Double) = (unat u0 * base + unat u1) mod unat v1 \<and> unat q \<le> base + 1"
proof -
  assume d: "div_single (ucast u0 * B + ucast u1) v1 = Some (q, r)"
  define s where "s = ucast u0 * B + ucast u1"
  have b: "unat u1 + unat u0 * base < base * base" by (intro carry_fits single_lt)
  have "unat (ucast u0 * B) = unat u0 * base" using single_lt [of u0] base_bounds(1) by (subst unat_mul64) (simp_all add: unat_widen unat_B)
  then have s: "unat s = unat u0 * base + unat u1" unfolding s_def using b by (subst unat_add64) (simp_all add: unat_widen)
  have qr: "q = s div ucast v1" "r = ucast (s mod ucast v1)" using d by (auto simp: div_single_def s_def split: if_splits)
  have "unat s mod unat v1 < base" using mod_less_divisor [OF assms(3), of "unat s"] single_lt [of v1] by linarith
  then have r: "unat r = unat s mod unat v1" unfolding qr by (subst unat_narrow) (simp_all add: unat_mod unat_widen)
  have "(base + 2) * unat v1 = unat v1 * base + 2 * unat v1" by (simp add: algebra_simps)
  then have "unat s < (base + 2) * unat v1" unfolding s using mult_le_mono1 [OF assms(1), of base] assms(2) single_lt [of u1] by linarith
  then have "unat s div unat v1 < base + 2" by (rule less_mult_imp_div_less)
  then show ?thesis using r unfolding s [symmetric] by (simp add: qr(1) unat_div unat_widen)
qed

text \<open>The first test and the loop: the estimate is the true digit or one more.\<close>

lemma estimate_ok:
  fixes u0 u1 u2 v1 v2 :: Single
  assumes U: "U = ul + unat u2 * P + unat u1 * (base * P) + unat u0 * (base * (base * P))"
    and V: "V = vl + unat v2 * P + unat v1 * (base * P)" and b: "ul < P" "vl < P"
    and v: "unat u0 \<le> unat v1" "base \<le> 2 * unat v1" and UV: "U < V * base"
  shows "\<exists>q r qr. div_single (ucast u0 * B + ucast u1) v1 = Some (q, r) \<and>
    qhat_loop v1 v2 u2 (snd (qhat_test v1 v2 u2 (q, ucast r))) = Some qr \<and>
    unat (fst qr) < base \<and> U < (unat (fst qr) + 1) * V \<and> unat (fst qr) * V < U + V"
proof -
  define u where "u = unat u0 * base + unat u1"
  have v1: "0 < unat v1" using v(2) base_bounds(1) by linarith
  then obtain q r where d: "div_single (ucast u0 * B + ucast u1) v1 = Some (q, r)" by (cases "v1 = 0") (simp_all add: div_single_def)
  note s = estimate_start [OF v v1 d, folded u_def]
  have A: "U < q * V" if "q * unat v1 + r = u" "base * r + unat u2 < q * unat v2" for q r
    by (rule estimate_too_big [OF U V b(1) that(1) [unfolded u_def] that(2)])
  have "U < (unat q + 1) * V" using estimate_initial [OF U V b(1) single_lt v1] s unfolding u_def by simp
  then have i: "qhat_inv v1 u U V (q, ucast r)" using s by (simp add: qhat_inv_def)
  have r: "unat (ucast r :: Double) < base" unfolding s [THEN conjunct2, THEN conjunct1]
    using mod_less_divisor [OF v1, of u] single_lt [of v1] by linarith
  obtain q' r' where t: "snd (qhat_test v1 v2 u2 (q, ucast r)) = (q', r')" by fastforce
  have "qhat_inv v1 u U V (q', r')"
  proof (cases "qhat_done v2 u2 (q, ucast r)")
    case True
    then show ?thesis using t s r i by (simp add: qhat_test_eq)
  next
    case False
    then have "qhat_inv v1 u U V (q - 1, ucast r + ucast v1)" using qhat_decrease [OF i r False UV] A by blast
    then show ?thesis using t s r False by (simp add: qhat_test_eq)
  qed
  from qhat_loop_ok [OF this u_def v(1) single_lt v1 UV A] obtain q'' r'' where
    l: "qhat_loop v1 v2 u2 (q', r') = Some (q'', r'')" "qhat_inv v1 u U V (q'', r'')" "qhat_done v2 u2 (q'', r'')" by fastforce
  have "unat q'' * V < U + V" using l(2,3) by (intro estimate_close [OF U V b(2) v1, of "unat q''" "unat r''"]) (simp_all add: qhat_inv_def qhat_done_def u_def)
  then show ?thesis using d t l by (intro exI [of _ q] exI [of _ r] exI [of _ "(q'', r'')"]) (simp add: qhat_inv_def qhat_done_def)
qed

section \<open>One step\<close>

lemma from_u64_len: "big_len (from_u64 a) = 2"
  by (simp add: from_u64_def big_len_def case_prod_beta)

lemma subtract_ok:
  assumes w: "big_len w = n + 1" and o: "big_len other = n" and q: "unat qhat < base"
    "val w < (unat qhat + 1) * val other" "unat qhat * val other < val w + val other"
  obtains rhs t where "big_mul other (from_u64 qhat) = Some rhs" "big_len t = n + 2"
    "if unat qhat * val other \<le> val w then big_sub w rhs = Some (Inr t) \<and> val t = val w mod val other \<and> unat qhat = val w div val other
     else big_sub w rhs = Some (Inl t) \<and> val t + val other = val w mod val other + base ^ (n + 2) \<and> unat qhat = val w div val other + 1"
proof -
  have V: "0 < val other" using q(2) by (cases "val other") simp_all
  obtain rhs where rhs: "big_mul other (from_u64 qhat) = Some rhs" "big_len rhs = n + 2" "val rhs = unat qhat * val other"
    using big_mul_ok [of other "from_u64 qhat"] o by (auto simp: from_u64_len from_u64_val mult.commute)
  have "n + 2 = max (big_len w) (big_len rhs)" using w rhs(2) by simp
  from big_sub_ok [OF this] obtain t where t: "big_len t = n + 2"
    "if val rhs \<le> val w then big_sub w rhs = Some (Inr t) \<and> val t = val w - val rhs else big_sub w rhs = Some (Inl t) \<and> val t + val rhs = val w + base ^ (n + 2)" by auto
  note e = estimate_exact [OF q(2,3) V]
  show ?thesis
  proof (cases "unat qhat * val other \<le> val w")
    case True
    then show ?thesis using t e rhs by (intro that [OF rhs(1) t(1)]) simp
  next
    case False
    have n: "unat qhat = val w div val other + 1" "val w + val other - unat qhat * val other = val w mod val other"
      using e unfolding if_not_P [OF False] by blast+
    have "val t + unat qhat * val other = val w + base ^ (n + 2)" using t(2) False rhs(3) by simp
    then have "val t + val other = val w mod val other + base ^ (n + 2)" using q(3) n(2) by linarith
    then show ?thesis using False t(2) rhs(3) n(1) by (intro that [OF rhs(1) t(1)]) simp
  qed
qed

lemma leading_limbs:
  assumes "big_len other = Suc (Suc k)"
  shows "val other = low other k + digit other k * base ^ k + digit other (Suc k) * (base * base ^ k)"
  using low_val [of other "Suc (Suc k)"] assms by simp

lemma window_limbs:
  assumes "big_len w = Suc (Suc (Suc k))"
  shows "val w = low w k + digit w k * base ^ k + digit w (Suc k) * (base * base ^ k) + digit w (Suc (Suc k)) * (base * (base * base ^ k))"
  using low_val [of w "Suc (Suc (Suc k))"] assms by simp

lemma leading_le:
  assumes "high x j < val other" "big_len other = Suc k"
  shows "digit x (j + k) \<le> digit other k"
proof -
  have "high x (j + k) = high x j div base ^ k" by (simp add: high_def power_add div_mult2_eq)
  also have "\<dots> \<le> val other div base ^ k" using assms(1) by (intro div_le_mono) simp
  also have "\<dots> = digit other k" using high_step [of other k] high_out [of other "Suc k"] assms(2) by (simp add: high_def)
  finally show ?thesis using high_step [of x "j + k"] by simp
qed

lemma div_step_estimate:
  assumes s: "j + n < big_len self" and o: "big_len other = n" "2 \<le> n" "base \<le> 2 * digit other (n - 1)"
    and h: "high self (Suc j) < val other"
  obtains q r qhat rhat w where
    "div_single (ucast (limb self (j + n)) * B + ucast (limb self (j + n - 1))) (limb other (n - 1)) = Some (q, r)"
    "qhat_loop (limb other (n - 1)) (limb other (n - 2)) (limb self (j + n - 2))
      (snd (qhat_test (limb other (n - 1)) (limb other (n - 2)) (limb self (j + n - 2)) (q, ucast r))) = Some (qhat, rhat)"
    "window self j n = Some w" "big_len w = n + 1" "val w = high self j" "high self (j + n + 1) = 0"
    "unat qhat < base" "val w < (unat qhat + 1) * val other" "unat qhat * val other < val w + val other"
proof -
  obtain k where k: "n = Suc (Suc k)" using o(2) by (metis add_2_eq_Suc le_Suc_ex)
  have "high self (Suc j) < base ^ n" using h val_lt [of other n] o(1) by simp
  then have z: "high self (j + n + 1) = 0" using high_beyond [of self "Suc j" n] by simp
  obtain w where w: "window self j n = Some w" "big_len w = n + 1" "val w = high self j" "\<forall>i\<le>n. digit w i = digit self (j + i)"
    using window_val [OF s z] by blast
  have le: "digit self (j + n) \<le> digit other (n - 1)" using leading_le [OF h, of "n - 1"] o k by simp
  have UV: "val w < val other * base"
  proof -
    have "base * (high self (Suc j) + 1) \<le> base * val other" using h by (intro mult_le_mono2) simp
    then show ?thesis unfolding w(3) high_step [of self j] using digit_lt [of self j] by (simp add: algebra_simps)
  qed
  have wl: "val w = low w k + digit self (j + n - 2) * base ^ k + digit self (j + n - 1) * (base * base ^ k) + digit self (j + n) * (base * (base * base ^ k))"
    using window_limbs [of w k] w(2,4) by (simp add: k)
  have ol: "val other = low other k + digit other (n - 2) * base ^ k + digit other (n - 1) * (base * base ^ k)"
    using leading_limbs [of other k] o(1) by (simp add: k)
  from estimate_ok [OF wl [folded unat_limb] ol [folded unat_limb] low_lt low_lt le [folded unat_limb] o(3) [folded unat_limb] UV]
  obtain q r qr where e: "div_single (ucast (limb self (j + n)) * B + ucast (limb self (j + n - 1))) (limb other (n - 1)) = Some (q, r)"
    "qhat_loop (limb other (n - 1)) (limb other (n - 2)) (limb self (j + n - 2))
      (snd (qhat_test (limb other (n - 1)) (limb other (n - 2)) (limb self (j + n - 2)) (q, ucast r))) = Some qr"
    "unat (fst qr) < base" "val w < (unat (fst qr) + 1) * val other" "unat (fst qr) * val other < val w + val other" by blast
  obtain qhat rhat where qr: "qr = (qhat, rhat)" by (cases qr)
  show ?thesis by (rule that [OF e(1) e(2) [unfolded qr] w(1-3) z e(3-5) [unfolded qr fst_conv]])
qed

lemma unat_dec: "unat a = Suc n \<Longrightarrow> unat (a - 1 :: 'a::len word) = n"
  using unat_minus_one [of a] by (cases "a = 0") simp_all

lemma add_back_ok:
  assumes o: "big_len other = n" and x: "j + n < big_len x" "high x (j + n + 1) = 0" "high x j = val t mod base ^ (n + 1)"
    and t: "val t + val other = R + base ^ (n + 2)" "R < base ^ (n + 1)"
  obtains u r x' where "window x j n = Some u" "big_add other u = Some r" "write_limbs r j (rev [j..<j + n + 1]) x = Some x'"
    "big_len x' = big_len x" "low x' j = low x j" "high x' j = R"
proof -
  obtain u where u: "window x j n = Some u" "big_len u = n + 1" "val u = high x j" using window_val [OF x(1,2)] by blast
  obtain r where r: "big_add other u = Some r" "big_len r = n + 2" "val r = val other + val u" using big_add_ok [of other u] o u(2) by auto
  obtain x' where x': "write_limbs r j (rev [j..<j + n + 1]) x = Some x'" "big_len x' = big_len x" "low x' j = low x j"
    "high x' j = val r mod base ^ (n + 1)"
    using write_limbs_val [of "rev [j..<j + n + 1]" j n x r] x(1,2) r(2) by (auto simp: atLeastLessThanSuc_atLeastAtMost simp del: upt_Suc)
  have "val r mod base ^ (n + 1) = (val t + val other) mod base ^ (n + 1)" unfolding r(3) u(3) x(3) by (simp add: mod_add_right_eq add.commute)
  also have "\<dots> = (R + base ^ (n + 1) * base) mod base ^ (n + 1)" unfolding t(1) by (simp add: mult.commute mult.left_commute)
  also have "\<dots> = R" using t(2) by (simp only: mod_mult_self2 mod_less)
  finally show ?thesis using that u r x' by metis
qed

lemma div_step_ok:
  assumes s: "j + n < big_len self" and o: "big_len other = n" "2 \<le> n" "base \<le> 2 * digit other (n - 1)"
    and h: "high self (Suc j) < val other" and q: "j < big_len q"
  shows "\<exists>self' q'. div_step other n j (self, q) = Some (self', q') \<and> big_len self' = big_len self \<and> big_len q' = big_len q \<and>
    low self' j = low self j \<and> high self' j = high self j mod val other \<and> digit q' j = high self j div val other \<and> high q' (Suc j) = high q (Suc j)"
proof -
  obtain q0 r0 qhat rhat w where
    e: "div_single (ucast (limb self (j + n)) * B + ucast (limb self (j + n - 1))) (limb other (n - 1)) = Some (q0, r0)"
      "qhat_loop (limb other (n - 1)) (limb other (n - 2)) (limb self (j + n - 2))
        (snd (qhat_test (limb other (n - 1)) (limb other (n - 2)) (limb self (j + n - 2)) (q0, ucast r0))) = Some (qhat, rhat)"
    and w: "window self j n = Some w" "big_len w = n + 1" "val w = high self j" "high self (j + n + 1) = 0"
    and qh: "unat qhat < base" "val w < (unat qhat + 1) * val other" "unat qhat * val other < val w + val other"
    using div_step_estimate [OF s o h] by metis
  obtain rhs t where t: "big_mul other (from_u64 qhat) = Some rhs" "big_len t = n + 2"
    "if unat qhat * val other \<le> val w then big_sub w rhs = Some (Inr t) \<and> val t = val w mod val other \<and> unat qhat = val w div val other
     else big_sub w rhs = Some (Inl t) \<and> val t + val other = val w mod val other + base ^ (n + 2) \<and> unat qhat = val w div val other + 1"
    using subtract_ok [OF w(2) o(1) qh] by metis
  have V: "0 < val other" using h by simp
  have "val w mod val other < base ^ n" using mod_less_divisor [OF V, of "val w"] val_lt [of other n] o(1) by simp
  also have "\<dots> \<le> base ^ (n + 1)" using base_bounds(1) by simp
  finally have R: "val w mod val other < base ^ (n + 1)" .
  obtain x where x: "write_limbs t j [j..<j + n + 1] self = Some x" "big_len x = big_len self" "low x j = low self j"
    "high x j = val t mod base ^ (n + 1)" "high x (j + n + 1) = 0"
    using write_limbs_val [of "[j..<j + n + 1]" j n self t] s t(2) w(4) by (auto simp: atLeastLessThanSuc_atLeastAtMost simp del: upt_Suc)
  have l: "get_limb self (j + n) = Some (limb self (j + n))" "get_limb self (j + n - 1) = Some (limb self (j + n - 1))"
    "get_limb self (j + n - 2) = Some (limb self (j + n - 2))" "get_limb other (n - 1) = Some (limb other (n - 1))"
    "get_limb other (n - 2) = Some (limb other (n - 2))" using s o by (simp_all add: get_limb_ok)
  note u = unat_narrow [OF qh(1)]
  show ?thesis
  proof (cases "unat qhat * val other \<le> val w")
    case True
    then have "div_step other n j (self, q) = Some (x, put q j (ucast qhat))"
      using t(3) l e t(1) w(1) x(1) q by (simp add: div_step_def case_prod_beta set_limb_ok del: upt_Suc)
    then show ?thesis using t(3) True x R w(3) q by (simp add: digit_put high_put u)
  next
    case False
    then have t': "big_sub w rhs = Some (Inl t)" "val t + val other = val w mod val other + base ^ (n + 2)" "unat qhat = val w div val other + 1"
      using t(3) by simp_all
    obtain u r x' where b: "window x j n = Some u" "big_add other u = Some r" "write_limbs r j (rev [j..<j + n + 1]) x = Some x'"
      "big_len x' = big_len x" "low x' j = low x j" "high x' j = val w mod val other"
      using add_back_ok [OF o(1) _ x(5,4) t'(2) R] s x(2) by metis
    have "div_step other n j (self, q) = Some (x', put (put q j (ucast qhat)) j (ucast qhat - 1))"
      using t'(1) b(1-3) q l e t(1) w(1) x(1) by (simp add: div_step_def case_prod_beta get_limb_ok set_limb_ok limb_put del: upt_Suc)
    then show ?thesis using b(4-6) x(2,3) w(3) q u t'(3) by (simp add: digit_put high_put unat_dec)
  qed
qed

section \<open>All steps\<close>

lemma digit_low_unique:
  assumes "a + d * p = b + e * p" "a < p" "b < (p :: nat)"
  shows "d = e \<and> a = b"
proof -
  have "(a + d * p) div p = d" "(b + e * p) div p = e" "(a + d * p) mod p = a" "(b + e * p) mod p = b" using assms(2,3) by simp_all
  then show ?thesis using assms(1) by simp
qed

lemma div_steps_ok:
  assumes o: "big_len other = n" "2 \<le> n" "base \<le> 2 * digit other (n - 1)"
    and "j + n \<le> big_len self" "j \<le> big_len q" "high self j < val other" "low self j = low x j" "high q j * val other + high self j = high x j"
  shows "\<exists>self' q'. div_steps other n (rev [0..<j]) (self, q) = Some (self', q') \<and> big_len self' = big_len self \<and> big_len q' = big_len q \<and>
    val q' = val x div val other \<and> val self' = val x mod val other"
  using assms(4-)
proof (induction j arbitrary: self q)
  case 0
  then have "val x = val self + val q * val other" by (simp add: high_0)
  then show ?case using 0(3) by (simp add: high_0)
next
  case (Suc j)
  obtain self' q' where s: "div_step other n j (self, q) = Some (self', q')" "big_len self' = big_len self" "big_len q' = big_len q"
    "low self' j = low self j" "high self' j = high self j mod val other" "digit q' j = high self j div val other" "high q' (Suc j) = high q (Suc j)"
    using div_step_ok [OF _ o Suc.prems(3), of q] Suc.prems(1,2) by auto
  have V: "0 < val other" using Suc.prems(3) by simp
  have lj: "low self j + digit self j * base ^ j = low x j + digit x j * base ^ j" using Suc.prems(4) by simp
  have d: "digit self j = digit x j" and l: "low self j = low x j"
    using digit_low_unique [OF lj low_lt low_lt] by simp_all
  have "high q' j * val other + high self' j = (high self j div val other * val other + high self j mod val other) + base * (high q (Suc j) * val other)"
    unfolding s(5) high_step [of q' j] s(6,7) by (simp add: algebra_simps)
  also have "\<dots> = digit x j + base * (high q (Suc j) * val other + high self (Suc j))" using high_step [of self j] d by (simp add: algebra_simps)
  also have "\<dots> = high x j" unfolding Suc.prems(5) by (rule high_step [symmetric])
  finally have "high q' j * val other + high self' j = high x j" .
  moreover have "high self' j < val other" unfolding s(5) by (rule mod_less_divisor [OF V])
  ultimately show ?case using Suc.IH [of self' q'] Suc.prems(1,2) s l by auto
qed

section \<open>Undoing the normalisation\<close>

lemma unat_or_disjoint: "a AND b = 0 \<Longrightarrow> unat (a OR b :: 'a::len word) = unat a + unat b"
proof -
  assume "a AND b = 0"
  then have "unat a AND unat b = 0" by (metis unsigned_and_eq unsigned_0)
  then show ?thesis unfolding unsigned_or_eq by (rule disjunctive_add_eq_or [symmetric])
qed

lemma unat_shift_limb:
  fixes a b :: Single
  assumes "0 < nb" "nb < 32"
  shows "2 ^ nb * unat (drop_bit nb a OR push_bit (SHIFT - nb) b) + unat a mod 2 ^ nb = unat a + (unat b mod 2 ^ nb) * base"
proof -
  have p: "(2 :: nat) ^ 32 = 2 ^ nb * 2 ^ (32 - nb)" using assms(2) by (simp flip: power_add)
  have "drop_bit nb a AND push_bit (SHIFT - nb) b = 0"
    using assms by (intro bit_word_eqI) (auto simp: bit_simps SHIFT_def dest: bit_imp_le_length)
  then have "unat (drop_bit nb a OR push_bit (SHIFT - nb) b) = unat a div 2 ^ nb + unat b * 2 ^ (32 - nb) mod 2 ^ 32"
    by (simp add: unat_or_disjoint unat_drop_bit unat_push_bit SHIFT_def)
  also have "unat b * 2 ^ (32 - nb) mod 2 ^ 32 = unat b mod 2 ^ nb * 2 ^ (32 - nb)" unfolding p by (rule mult_mod_left [symmetric])
  finally have "2 ^ nb * unat (drop_bit nb a OR push_bit (SHIFT - nb) b) = 2 ^ nb * (unat a div 2 ^ nb) + unat b mod 2 ^ nb * base"
    unfolding base_def p by (simp only: distrib_left mult_ac)
  then show ?thesis using mult_div_mod_eq [of "2 ^ nb" "unat a"] by linarith
qed

lemma shift_limbs_ok:
  assumes nb: "0 < nb" "nb < 32"
    and "j + m < big_len self" "j + m \<le> big_len r" "2 ^ nb * low r j + digit self 0 mod 2 ^ nb = low self j + (digit self j mod 2 ^ nb) * base ^ j"
  shows "\<exists>r'. shift_limbs self nb [j..<j + m] r = Some r' \<and> big_len r' = big_len r \<and>
    2 ^ nb * low r' (j + m) + digit self 0 mod 2 ^ nb = low self (j + m) + (digit self (j + m) mod 2 ^ nb) * base ^ (j + m)"
  using assms(3-)
proof (induction m arbitrary: j r)
  case (Suc m)
  define v where "v = drop_bit nb (limb self j) OR push_bit (SHIFT - nb) (limb self (j + 1))"
  have v: "2 ^ nb * unat v + digit self j mod 2 ^ nb = digit self j + (digit self (Suc j) mod 2 ^ nb) * base"
    using unat_shift_limb [OF nb, of "limb self j" "limb self (j + 1)"] by (simp add: v_def unat_limb)
  have j: "j < big_len r" "j < big_len self" "Suc j < big_len self" using Suc.prems by simp_all
  have "2 ^ nb * low (put r j v) (Suc j) + digit self 0 mod 2 ^ nb = (2 ^ nb * low r j + digit self 0 mod 2 ^ nb) + 2 ^ nb * unat v * base ^ j"
    using j by (simp add: low_put digit_put distrib_left)
  also have "\<dots> = low self j + (2 ^ nb * unat v + digit self j mod 2 ^ nb) * base ^ j" unfolding Suc.prems(3) by (simp add: distrib_right)
  also have "\<dots> = low self (Suc j) + (digit self (Suc j) mod 2 ^ nb) * base ^ Suc j" unfolding v by (simp add: distrib_right mult.assoc)
  finally have "\<exists>r'. shift_limbs self nb [Suc j..<Suc j + m] (put r j v) = Some r' \<and> big_len r' = big_len r \<and>
      2 ^ nb * low r' (Suc j + m) + digit self 0 mod 2 ^ nb = low self (Suc j + m) + (digit self (Suc j + m) mod 2 ^ nb) * base ^ (Suc j + m)"
    using Suc.IH [of "Suc j" "put r j v"] Suc.prems by simp
  then show ?case unfolding upt_step using j by (simp add: get_limb_ok set_limb_ok v_def del: low_simps)
qed simp

lemma unnormalize_ok:
  assumes nb: "0 < nb" "nb < 32" and n: "0 < n" "n \<le> big_len self" "high self n = 0"
  shows "\<exists>r r'. shift_limbs self nb [0..<n - 1] (with_capacity n) = Some r \<and>
    set_limb r (n - 1) (drop_bit nb (limb self (n - 1))) = Some r' \<and> big_len r' = n \<and> val r' = val self div 2 ^ nb"
proof -
  obtain k where k: "n = Suc k" using n(1) by (cases n) simp_all
  obtain r where r: "shift_limbs self nb [0..<k] (with_capacity n) = Some r" "big_len r = n"
    "2 ^ nb * low r k + digit self 0 mod 2 ^ nb = low self k + (digit self k mod 2 ^ nb) * base ^ k"
    using shift_limbs_ok [OF nb, of 0 k self "with_capacity n"] n(2) k by auto
  define v where "v = drop_bit nb (limb self k)"
  have v: "unat v = digit self k div 2 ^ nb" by (simp add: v_def unat_drop_bit unat_limb)
  have "2 ^ nb * val (put r k v) + digit self 0 mod 2 ^ nb = (2 ^ nb * low r k + digit self 0 mod 2 ^ nb) + 2 ^ nb * unat v * base ^ k"
    using r(2) k by (simp add: val_def low_put digit_put distrib_left)
  also have "\<dots> = low self k + (2 ^ nb * (digit self k div 2 ^ nb) + digit self k mod 2 ^ nb) * base ^ k" unfolding r(3) v by (simp only: distrib_right add_ac)
  also have "\<dots> = low self n" unfolding mult_div_mod_eq k by simp
  also have "\<dots> = val self" using val_high [of self n] n(3) by simp
  finally have "val self = digit self 0 mod 2 ^ nb + 2 ^ nb * val (put r k v)" by simp
  then have "val self div 2 ^ nb = val (put r k v)" by simp
  then show ?thesis using r k by (simp add: set_limb_ok v_def)
qed

section \<open>The whole division\<close>

lemma normalizer_ok:
  assumes "om \<noteq> (0 :: Single)" and nb: "nb = leading_zeros om"
  shows "nb < 32" "unat ((2 :: Single) ^ nb) = 2 ^ nb" "base \<le> 2 * (unat om * 2 ^ nb)" "(unat om + 1) * 2 ^ nb \<le> base"
proof -
  note z = leading_zeros_bounds [OF assms]
  show n: "nb < 32" using z(1) by simp
  then show "unat ((2 :: Single) ^ nb) = 2 ^ nb" using unat_push_bit [of nb "1 :: Single"] power_strict_increasing [of nb 32 "2 :: nat"] by (simp add: push_bit_eq_mult)
  have "(2 :: nat) * (2 ^ (31 - nb) * 2 ^ nb) = base" unfolding base_def using n by (simp flip: power_add power_Suc)
  moreover have "2 ^ (31 - nb) * 2 ^ nb \<le> unat om * 2 ^ nb" using z(2) by (intro mult_le_mono1) simp
  ultimately show "base \<le> 2 * (unat om * 2 ^ nb)" by linarith
  have "(unat om + 1) * 2 ^ nb \<le> 2 ^ (32 - nb) * 2 ^ nb" using z(3) by (intro mult_le_mono1) simp
  also have "\<dots> = base" unfolding base_def using n by (simp flip: power_add)
  finally show "(unat om + 1) * 2 ^ nb \<le> base" .
qed

lemma divisor_ok:
  assumes o: "digits other = om # os" "om \<noteq> 0" and nb: "nb = leading_zeros om"
    and w: "val w = val other * 2 ^ nb"
  shows "big_len (lstrip w) = big_len other" "base \<le> 2 * digit (lstrip w) (big_len other - 1)"
proof -
  note z = normalizer_ok [OF o(2) nb]
  have l: "big_len other = Suc (length os)" using o(1) by (simp add: big_len_def)
  define P where "P = base ^ length os"
  have P: "0 < P" using base_bounds(1) by (simp add: P_def)
  have v: "val other = unat om * P + val \<lparr>digits = os\<rparr>" "val \<lparr>digits = os\<rparr> < P"
    using val_eta [of other] val_list_lt [of os] by (simp_all add: o(1) val_Cons P_def)
  have lo: "unat om * 2 ^ nb * P \<le> val w" unfolding w v(1) by (simp add: algebra_simps)
  have "val w < (unat om + 1) * P * 2 ^ nb" unfolding w v(1) using v(2) by simp
  also have "\<dots> = (unat om + 1) * 2 ^ nb * P" by (simp only: mult_ac)
  also have "\<dots> \<le> base * P" using z(4) by (rule mult_le_mono1)
  finally have hi: "val w < base ^ Suc (length os)" by (simp add: P_def)
  have "1 * P \<le> unat om * 2 ^ nb * P" using unat_positive [OF o(2)] by (intro mult_le_mono1) simp
  then have "base ^ length os \<le> val w" using lo unfolding P_def by linarith
  then show s: "big_len (lstrip w) = big_len other" unfolding l using hi by (rule lstrip_len)
  have "unat om * 2 ^ nb \<le> val w div P" using div_le_mono [OF lo, of P] P by simp
  also have "\<dots> = high (lstrip w) (length os)" by (simp add: high_def lstrip_val P_def)
  also have "\<dots> = digit (lstrip w) (length os)" using high_step [of "lstrip w" "length os"] high_out [of "lstrip w" "Suc (length os)"] s l by simp
  finally show "base \<le> 2 * digit (lstrip w) (big_len other - 1)" using z(3) l by simp
qed

lemma quotient_bound:
  assumes "val x < base ^ (n + m)" "base ^ (n - 1) \<le> val other" "0 < n" "0 < (d :: nat)"
  shows "val x * d div base ^ (m + 1) < val other * d"
proof -
  have "val x * d < base ^ (n + m) * d" using assms(1,4) by simp
  also have "base ^ (n + m) = base ^ (n - 1) * base ^ (m + 1)" unfolding power_add [symmetric] using assms(3) by simp
  also have "base ^ (n - 1) * base ^ (m + 1) * d \<le> val other * base ^ (m + 1) * d" using assms(2) by (intro mult_le_mono1)
  also have "\<dots> = val other * d * base ^ (m + 1)" by (simp only: mult_ac)
  finally show ?thesis by (rule less_mult_imp_div_less)
qed

lemma big_div_ok:
  assumes x: "digits x = xm # xs" "xm \<noteq> 0" and o: "digits other = om # os" "om \<noteq> 0"
    and l: "1 < big_len other" "big_len other < big_len x"
  shows "\<exists>q r. big_div x other rem = Some (Some (q, r)) \<and>
    big_len q = big_len x - big_len other + 1 \<and> val q = val x div val other \<and>
    big_len r = (if rem \<and> leading_zeros om = 0 then big_len x + 1 else big_len other) \<and>
    val r = (if rem then val x mod val other else 0)"
proof -
  define n m nb where d: "n = big_len other" "m = big_len x - n" "nb = leading_zeros om"
  note z = normalizer_ok [OF o(2) d(3)]
  have len: "big_len x = n + m" "1 < n" using l d by simp_all
  obtain s where s: "big_mul x (from_u32 (2 ^ nb)) = Some s" "big_len s = n + m + 1" "val s = val x * 2 ^ nb"
    using big_mul_ok [of x "from_u32 (2 ^ nb)"] len z(2) by (auto simp: from_u32_val) (simp add: from_u32_def big_len_def)
  obtain w where w: "big_mul other (from_u32 (2 ^ nb)) = Some w" "val w = val other * 2 ^ nb"
    using big_mul_ok [of other "from_u32 (2 ^ nb)"] z(2) by (auto simp: from_u32_val)
  have v: "val (lstrip w) = val other * 2 ^ nb" by (simp add: lstrip_val w(2))
  note dv = divisor_ok [OF o d(3) w(2), folded d(1)]
  have "base ^ (n - 1) \<le> val other" using val_leading [OF o(2), of os] val_eta [of other] by (simp add: o(1) d(1) big_len_def)
  then have start: "high s (m + 1) < val (lstrip w)" unfolding high_def s(3) v
    using len val_lt [of x "n + m"] by (intro quotient_bound [where n = n]) simp_all
  obtain s' q where q: "div_steps (lstrip w) n (rev [0..<m + 1]) (s, with_capacity (m + 1)) = Some (s', q)" "big_len s' = n + m + 1" "big_len q = m + 1"
    "val q = val s div val (lstrip w)" "val s' = val s mod val (lstrip w)"
    using div_steps_ok [OF dv(1) _ dv(2), of "m + 1" s "with_capacity (m + 1)" s] start len s(2)
    by (auto simp: high_out simp del: upt_Suc)
  have qv: "val q = val x div val other" and rv: "val s' = (val x mod val other) * 2 ^ nb" unfolding q(4,5) s(3) v by (simp_all add: mod_mult_mult2)
  define r where "r = (if rem then
      (if nb > 0 then do { r \<leftarrow> shift_limbs s' nb [0..<n - 1] (with_capacity n); t \<leftarrow> get_limb s' (n - 1); set_limb r (n - 1) (drop_bit nb t) }
       else Some s') else Some (with_capacity n))"
  have run: "big_div x other rem = Option.bind r (\<lambda>r. Some (Some (q, r)))"
  proof -
    have c: "big_msb other = Some om" "big_msb x = Some xm" "(om = 0) = False" "(xm = 0 \<or> big_len x \<le> n) = False" "(n \<le> 1) = False" "lpad s (n + m + 1) = s"
      using x o l len s(2) d(1) by (simp_all add: big_msb_def nth_opt_def lpad_noop)
    show ?thesis
      by (simp only: big_div_def d(1) [symmetric] d(2) [symmetric] d(3) [symmetric] c Let_def if_False Option.bind_lunit s(1) w(1) q(1) prod.case r_def)
  qed
  have "\<exists>r'. r = Some r' \<and> big_len r' = (if rem \<and> nb = 0 then n + m + 1 else n) \<and> val r' = (if rem then val x mod val other else 0)"
  proof (cases "rem \<and> 0 < nb")
    case True
    have "val s' < base ^ n" using start val_lt [of "lstrip w" n] dv(1) mod_less_divisor [of "val (lstrip w)" "val s"] unfolding q(5) by linarith
    then have "high s' n = 0" by (simp add: high_def)
    then obtain r1 r2 where r: "shift_limbs s' nb [0..<n - 1] (with_capacity n) = Some r1"
      "set_limb r1 (n - 1) (drop_bit nb (limb s' (n - 1))) = Some r2" "big_len r2 = n" "val r2 = val s' div 2 ^ nb"
      using unnormalize_ok [of nb n s'] True z(1) q(2) len(2) by auto
    have "get_limb s' (n - 1) = Some (limb s' (n - 1))" using q(2) len(2) by (intro get_limb_ok) simp
    then have "r = Some r2" using r(1,2) True by (simp add: r_def)
    moreover have "val r2 = val x mod val other" unfolding r(4) rv by simp
    ultimately show ?thesis using r(3) True by simp
  next
    case False
    show ?thesis
    proof (cases rem)
      case True
      then show ?thesis using False q(2) rv by (simp add: r_def)
    next
      case False
      moreover have "val (with_capacity n) = 0" by (simp add: val_def low_def)
      ultimately show ?thesis using len(2) by (simp add: r_def)
    qed
  qed
  then obtain r' where "r = Some r'" "big_len r' = (if rem \<and> nb = 0 then n + m + 1 else n)" "val r' = (if rem then val x mod val other else 0)" by blast
  then show ?thesis using run q(3) qv unfolding d(3) [symmetric] d(1) [symmetric] d(2) [symmetric] len(1) by (intro exI [of _ q] exI [of _ r']) simp
qed

end
