(* ===== verification/Rational.thy ===== *)
theory Rational
  imports BigUint_Div Complex_Main
begin

text \<open>
  Rational numbers (\<^verbatim>\<open>primitives/arithmetic/src/rational.rs\<close>): \<^verbatim>\<open>Rational128\<close> with 128-bit numerator and denominator,
  \<^verbatim>\<open>RationalInfinite\<close> over integers of arbitrary size, and multiplication by a rational on machine integers.
  The outer \<open>option\<close> of an operation is the panic of the integer operations it calls; the theorems show it
  does not happen.
\<close>

section \<open>Numbers with 128 bits\<close>

record Rational128 =
  r_n :: u128
  r_d :: u128

definition rational_zero :: Rational128 where
  "rational_zero = \<lparr>r_n = 0, r_d = 1\<rparr>"

definition rational_one :: Rational128 where
  "rational_one = \<lparr>r_n = 1, r_d = 1\<rparr>"

definition rational_is_zero :: "Rational128 \<Rightarrow> bool" where
  "rational_is_zero x \<longleftrightarrow> r_n x = 0"

definition rational_from :: "u128 \<Rightarrow> u128 \<Rightarrow> Rational128" where
  "rational_from n d = \<lparr>r_n = n, r_d = max d 1\<rparr>"

definition rational_from_unchecked :: "u128 \<Rightarrow> u128 \<Rightarrow> Rational128" where
  "rational_from_unchecked n d = \<lparr>r_n = n, r_d = d\<rparr>"

definition to_den :: "Rational128 \<Rightarrow> u128 \<Rightarrow> Rational128 option option" where
  "to_den x den =
     (if den = r_d x then Some (Some x)
      else map_option (map_option (\<lambda>n. \<lparr>r_n = n, r_d = den\<rparr>)) (multiply_by_rational_with_rounding (r_n x) den (r_d x) NearestPrefDown))"

definition rational_lcm :: "Rational128 \<Rightarrow> Rational128 \<Rightarrow> u128 option option" where
  "rational_lcm x y =
     (if r_d x = r_d y then Some (Some (r_d x))
      else (let g = gcd128 (r_d x) (r_d y) in multiply_by_rational_with_rounding (r_d x) (r_d y) g NearestPrefDown))"

definition saturating_add128 :: "u128 \<Rightarrow> u128 \<Rightarrow> u128" where
  "saturating_add128 a b = (case checked_add128 a b of Some s \<Rightarrow> s | None \<Rightarrow> - 1)"

definition checked_sub128 :: "u128 \<Rightarrow> u128 \<Rightarrow> u128 option" where
  "checked_sub128 a b = (if b \<le> a then Some (a - b) else None)"

definition saturating_sub128 :: "u128 \<Rightarrow> u128 \<Rightarrow> u128" where
  "saturating_sub128 a b = (case checked_sub128 a b of Some s \<Rightarrow> s | None \<Rightarrow> 0)"

definition lazy_saturating_add :: "Rational128 \<Rightarrow> Rational128 \<Rightarrow> Rational128" where
  "lazy_saturating_add x y = (if rational_is_zero y then x else \<lparr>r_n = saturating_add128 (r_n x) (r_n y), r_d = r_d x\<rparr>)"

definition lazy_saturating_sub :: "Rational128 \<Rightarrow> Rational128 \<Rightarrow> Rational128" where
  "lazy_saturating_sub x y = (if rational_is_zero y then x else \<lparr>r_n = saturating_sub128 (r_n x) (r_n y), r_d = r_d x\<rparr>)"

text \<open>\<^verbatim>\<open>ok_or\<close>, the error of the source being a string.\<close>

definition ok_or_str :: "'a option \<Rightarrow> 'e \<Rightarrow> ('e, 'a) result" where
  "ok_or_str x e = (case x of Some a \<Rightarrow> Inr a | None \<Rightarrow> Inl e)"

definition scale_both :: "Rational128 \<Rightarrow> Rational128 \<Rightarrow> (string, Rational128 \<times> Rational128) result option" where
  "scale_both x y = do {
     l \<leftarrow> rational_lcm x y;
     case l of
       None \<Rightarrow> Some (Inl ''failed to scale to denominator'')
     | Some den \<Rightarrow> do {
         self_scaled \<leftarrow> to_den x den;
         case self_scaled of
           None \<Rightarrow> Some (Inl ''failed to scale to denominator'')
         | Some self_scaled \<Rightarrow> do {
             other_scaled \<leftarrow> to_den y den;
             case other_scaled of
               None \<Rightarrow> Some (Inl ''failed to scale to denominator'')
             | Some other_scaled \<Rightarrow> Some (Inr (self_scaled, other_scaled))
           }
       }
   }"

definition rational_checked_add :: "Rational128 \<Rightarrow> Rational128 \<Rightarrow> (string, Rational128) result option" where
  "rational_checked_add x y = do {
     scaled \<leftarrow> scale_both x y;
     Some (case scaled of
             Inl e \<Rightarrow> Inl e
           | Inr (self_scaled, other_scaled) \<Rightarrow>
               (case ok_or_str (checked_add128 (r_n self_scaled) (r_n other_scaled)) ''overflow while adding numerators'' of
                  Inl e \<Rightarrow> Inl e
                | Inr n \<Rightarrow> Inr \<lparr>r_n = n, r_d = r_d self_scaled\<rparr>))
   }"

definition rational_checked_sub :: "Rational128 \<Rightarrow> Rational128 \<Rightarrow> (string, Rational128) result option" where
  "rational_checked_sub x y = do {
     scaled \<leftarrow> scale_both x y;
     Some (case scaled of
             Inl e \<Rightarrow> Inl e
           | Inr (self_scaled, other_scaled) \<Rightarrow>
               (case ok_or_str (checked_sub128 (r_n self_scaled) (r_n other_scaled)) ''overflow while subtracting numerators'' of
                  Inl e \<Rightarrow> Inl e
                | Inr n \<Rightarrow> Inr \<lparr>r_n = n, r_d = r_d self_scaled\<rparr>))
   }"

definition rational_min_value :: Rational128 where
  "rational_min_value = \<lparr>r_n = 0, r_d = 1\<rparr>"

definition rational_max_value :: Rational128 where
  "rational_max_value = \<lparr>r_n = - 1, r_d = 1\<rparr>"

text \<open>The two cross products.\<close>

definition cross :: "Rational128 \<Rightarrow> Rational128 \<Rightarrow> (BigUint \<times> BigUint) option" where
  "cross x y = do {
     self_n \<leftarrow> big_mul (to_big_uint (r_n x)) (to_big_uint (r_d y));
     other_n \<leftarrow> big_mul (to_big_uint (r_n y)) (to_big_uint (r_d x));
     Some (self_n, other_n)
   }"

definition rational_cmp :: "Rational128 \<Rightarrow> Rational128 \<Rightarrow> Ordering option" where
  "rational_cmp x y =
     (if r_d x = r_d y then Some (cmp (r_n x) (r_n y))
      else if r_d x = 0 then Some Greater
      else if r_d y = 0 then Some Less
      else do { (self_n, other_n) \<leftarrow> cross x y; Some (big_cmp self_n other_n) })"

definition rational_eq :: "Rational128 \<Rightarrow> Rational128 \<Rightarrow> bool option" where
  "rational_eq x y =
     (if r_d x = r_d y then Some (r_n x = r_n y)
      else do { (self_n, other_n) \<leftarrow> cross x y; Some (big_eq self_n other_n) })"

section \<open>Numbers of arbitrary size\<close>

record RationalInfinite =
  ri_n :: BigUint
  ri_d :: BigUint

text \<open>\<^verbatim>\<open>Ord::max\<close> returns its second argument for equal ones.\<close>

definition big_max :: "BigUint \<Rightarrow> BigUint \<Rightarrow> BigUint" where
  "big_max x y = (case big_cmp x y of Greater \<Rightarrow> x | _ \<Rightarrow> y)"

definition infinite_from :: "BigUint \<Rightarrow> BigUint \<Rightarrow> RationalInfinite" where
  "infinite_from n d = \<lparr>ri_n = n, ri_d = big_max d big_one\<rparr>"

definition infinite_zero :: RationalInfinite where
  "infinite_zero = \<lparr>ri_n = big_zero, ri_d = big_one\<rparr>"

definition infinite_one :: RationalInfinite where
  "infinite_one = \<lparr>ri_n = big_one, ri_d = big_one\<rparr>"

definition infinite_cmp :: "RationalInfinite \<Rightarrow> RationalInfinite \<Rightarrow> Ordering option" where
  "infinite_cmp x y =
     (if big_eq (ri_d x) (ri_d y) then Some (big_cmp (ri_n x) (ri_n y))
      else if big_is_zero (ri_d x) then Some Greater
      else if big_is_zero (ri_d y) then Some Less
      else do { a \<leftarrow> big_mul (ri_n x) (ri_d y); b \<leftarrow> big_mul (ri_n y) (ri_d x); Some (big_cmp a b) })"

definition infinite_eq :: "RationalInfinite \<Rightarrow> RationalInfinite \<Rightarrow> bool option" where
  "infinite_eq x y = map_option (\<lambda>c. c = Equal) (infinite_cmp x y)"

definition infinite_of :: "Rational128 \<Rightarrow> RationalInfinite" where
  "infinite_of t = \<lparr>ri_n = to_big_uint (r_n t), ri_d = to_big_uint (r_d t)\<rparr>"

section \<open>Multiplication by a rational\<close>

text \<open>
  The instances for \<^verbatim>\<open>u8\<close> to \<^verbatim>\<open>u64\<close>: the product is computed in a type of twice the width, given by its
  type \<open>'hi\<close>. The instance for \<^verbatim>\<open>u128\<close> is \<^const>\<open>multiply_by_rational_with_rounding\<close>.
\<close>

definition multiply_rational :: "'hi::len itself \<Rightarrow> 'lo::len word \<Rightarrow> 'lo word \<Rightarrow> 'lo word \<Rightarrow> Rounding \<Rightarrow> 'lo word option" where
  "multiply_rational TYPE('hi) self n d r =
     (if d = 0 then None
      else
        (let sn = (ucast self :: 'hi word) * ucast n;
             result = sn div ucast d;
             remainder = (ucast (sn mod ucast d) :: 'lo word);
             up = (case r of
                     Up \<Rightarrow> remainder > 0
                   | NearestPrefUp \<Rightarrow> remainder \<ge> d div 2 + d mod 2
                   | NearestPrefDown \<Rightarrow> remainder > d div 2
                   | Down \<Rightarrow> False);
             result = (if up then (if unat result + 1 < 2 ^ LENGTH('hi) then Some (result + 1) else None) else Some result)
         in case result of
              None \<Rightarrow> None
            | Some result \<Rightarrow> if result > ucast (- 1 :: 'lo word) then None else Some (ucast result)))"

section \<open>Scaling to a common denominator\<close>

lemma round_div_exact: "0 < c \<Longrightarrow> round_div r (k * c) c = k"
  by (cases r) (simp_all add: round_div_eq rounds_up_def)

lemma of_nat_u128: "n < 2 ^ 128 \<Longrightarrow> unat (of_nat n :: u128) = n"
  by (simp add: unat_of_nat)

lemma to_den_ok:
  assumes "r_d x \<noteq> 0" "unat den = k * unat (r_d x)"
  shows "to_den x den = Some (if unat (r_n x) * k < 2 ^ 128 then Some \<lparr>r_n = of_nat (unat (r_n x) * k), r_d = den\<rparr> else None)"
proof (cases "den = r_d x")
  case True
  then have "k = 1" using assms unat_positive [OF assms(1)] by simp
  then show ?thesis using True unat_lt_128 [of "r_n x"] by (simp add: to_den_def)
next
  case False
  have "unat (r_n x) * unat den = unat (r_n x) * k * unat (r_d x)" by (simp only: assms(2) mult.assoc)
  then have "round_div NearestPrefDown (unat (r_n x) * unat den) (unat (r_d x)) = unat (r_n x) * k"
    by (simp only: round_div_exact [OF unat_positive [OF assms(1)]])
  then show ?thesis using False by (simp add: to_den_def multiply_by_rational_ok [OF assms(1)] Let_def)
qed

lemma rational_lcm_ok:
  assumes "r_d x \<noteq> 0" "r_d y \<noteq> 0"
  shows "rational_lcm x y = Some (let l = lcm (unat (r_d x)) (unat (r_d y)) in if l < 2 ^ 128 then Some (of_nat l) else None)"
proof (cases "r_d x = r_d y")
  case True
  then show ?thesis using unat_lt_128 [of "r_d y"] by (simp add: rational_lcm_def)
next
  case False
  let ?a = "unat (r_d x)" and ?b = "unat (r_d y)"
  have g: "unat (gcd128 (r_d x) (r_d y)) = gcd ?a ?b" by (rule gcd128_ok)
  have "0 < gcd ?a ?b" using unat_positive [OF assms(1)] by simp
  then have "0 < unat (gcd128 (r_d x) (r_d y))" unfolding g .
  then have n: "gcd128 (r_d x) (r_d y) \<noteq> 0" by (rule unat_gt_0 [THEN iffD1])
  have "?a * ?b = lcm ?a ?b * gcd ?a ?b" by (rule trans [OF prod_gcd_lcm_nat mult.commute])
  then have "round_div NearestPrefDown (?a * ?b) (gcd ?a ?b) = lcm ?a ?b" by (simp only: round_div_exact [OF \<open>0 < gcd ?a ?b\<close>])
  then show ?thesis unfolding rational_lcm_def multiply_by_rational_ok [OF n] g Let_def using False by (simp only: if_False)
qed

text \<open>The common denominator and the numerators over it.\<close>

definition common_den :: "Rational128 \<Rightarrow> Rational128 \<Rightarrow> nat" where
  "common_den x y = lcm (unat (r_d x)) (unat (r_d y))"

definition over :: "nat \<Rightarrow> Rational128 \<Rightarrow> nat" where
  "over l x = unat (r_n x) * (l div unat (r_d x))"

definition scalable :: "Rational128 \<Rightarrow> Rational128 \<Rightarrow> bool" where
  "scalable x y \<longleftrightarrow> (let l = common_den x y in l < 2 ^ 128 \<and> over l x < 2 ^ 128 \<and> over l y < 2 ^ 128)"

lemma scale_both_ok:
  assumes "r_d x \<noteq> 0" "r_d y \<noteq> 0" and l: "l = common_den x y"
  shows "scale_both x y = Some (if scalable x y then
      Inr (\<lparr>r_n = of_nat (over l x), r_d = of_nat l\<rparr>, \<lparr>r_n = of_nat (over l y), r_d = of_nat l\<rparr>)
    else Inl ''failed to scale to denominator'')"
proof (cases "l < 2 ^ 128")
  case True
  have u: "unat (of_nat l :: u128) = l" by (rule of_nat_u128 [OF True])
  have k: "l = (l div unat (r_d x)) * unat (r_d x)" "l = (l div unat (r_d y)) * unat (r_d y)" unfolding l common_den_def by simp_all
  have m: "rational_lcm x y = Some (Some (of_nat l))"
    unfolding rational_lcm_ok [OF assms(1,2)] common_den_def [symmetric] l [symmetric] Let_def using True by (simp only: if_True)
  note t = to_den_ok [OF assms(1), of "of_nat l" "l div unat (r_d x)", unfolded u, OF k(1), folded over_def]
    to_den_ok [OF assms(2), of "of_nat l" "l div unat (r_d y)", unfolded u, OF k(2), folded over_def]
  have s: "scalable x y \<longleftrightarrow> over l x < 2 ^ 128 \<and> over l y < 2 ^ 128" using True unfolding scalable_def l [symmetric] Let_def by blast
  show ?thesis
    by (cases "over l x < 2 ^ 128"; cases "over l y < 2 ^ 128")
      (simp_all only: scale_both_def m Option.bind_lunit option.case t s if_True if_False simp_thms)
next
  case False
  then have "\<not> scalable x y" "rational_lcm x y = Some None"
    unfolding rational_lcm_ok [OF assms(1,2)] common_den_def [symmetric] l [symmetric] scalable_def Let_def by (simp_all only: if_False simp_thms)
  then show ?thesis by (simp add: scale_both_def)
qed

section \<open>Values\<close>

definition rval :: "Rational128 \<Rightarrow> rat" where
  "rval x = of_nat (unat (r_n x)) / of_nat (unat (r_d x))"

lemma over_val:
  assumes "r_d x \<noteq> 0" "unat (r_d x) dvd l" "0 < l"
  shows "of_nat (over l x) / of_nat l = rval x"
proof -
  from assms(2) obtain k where k: "l = unat (r_d x) * k" by (rule dvdE)
  have "0 < k" "0 < unat (r_d x)" using k assms(3) by simp_all
  then show ?thesis by (simp add: over_def rval_def k)
qed

lemma common_den_pos: "r_d x \<noteq> 0 \<Longrightarrow> r_d y \<noteq> 0 \<Longrightarrow> 0 < common_den x y"
  using unat_positive [of "r_d x"] unat_positive [of "r_d y"] by (simp add: common_den_def lcm_pos_nat)

lemma common_dvd: "unat (r_d x) dvd common_den x y" "unat (r_d y) dvd common_den x y"
  by (simp_all add: common_den_def)

lemma rational_add_ok:
  assumes "r_d x \<noteq> 0" "r_d y \<noteq> 0" and l: "l = common_den x y"
  shows "rational_checked_add x y = Some (if \<not> scalable x y then Inl ''failed to scale to denominator''
    else if over l x + over l y < 2 ^ 128 then Inr \<lparr>r_n = of_nat (over l x + over l y), r_d = of_nat l\<rparr>
    else Inl ''overflow while adding numerators'')"
proof (cases "scalable x y")
  case True
  then have u: "unat (of_nat (over l x) :: u128) = over l x" "unat (of_nat (over l y) :: u128) = over l y"
    unfolding scalable_def l [symmetric] Let_def by (blast intro: of_nat_u128)+
  show ?thesis unfolding rational_checked_add_def scale_both_ok [OF assms(1,2) l] checked_add128_def Option.bind_lunit if_P [OF True]
    using True u by (simp add: ok_or_str_def)
next
  case False
  then show ?thesis by (simp add: rational_checked_add_def scale_both_ok [OF assms(1,2) l])
qed

lemma rational_sub_ok:
  assumes "r_d x \<noteq> 0" "r_d y \<noteq> 0" and l: "l = common_den x y"
  shows "rational_checked_sub x y = Some (if \<not> scalable x y then Inl ''failed to scale to denominator''
    else if over l y \<le> over l x then Inr \<lparr>r_n = of_nat (over l x - over l y), r_d = of_nat l\<rparr>
    else Inl ''overflow while subtracting numerators'')"
proof (cases "scalable x y")
  case True
  then have u: "unat (of_nat (over l x) :: u128) = over l x" "unat (of_nat (over l y) :: u128) = over l y"
    unfolding scalable_def l [symmetric] Let_def by (blast intro: of_nat_u128)+
  show ?thesis unfolding rational_checked_sub_def scale_both_ok [OF assms(1,2) l] checked_sub128_def Option.bind_lunit if_P [OF True]
    using True u by (simp add: ok_or_str_def word_le_nat_alt of_nat_diff)
next
  case False
  then show ?thesis by (simp add: rational_checked_sub_def scale_both_ok [OF assms(1,2) l])
qed

lemma rval_common:
  assumes "n < 2 ^ 128" "l < 2 ^ 128" "0 < l"
  shows "r_d \<lparr>r_n = of_nat n, r_d = of_nat l\<rparr> \<noteq> 0 \<and> rval \<lparr>r_n = of_nat n, r_d = of_nat l\<rparr> = of_nat n / of_nat l"
proof -
  have u: "unat (of_nat n :: u128) = n" "unat (of_nat l :: u128) = l" by (rule of_nat_u128 [OF assms(1)], rule of_nat_u128 [OF assms(2)])
  then have "(of_nat l :: u128) \<noteq> 0" using assms(3) unat_gt_0 [of "of_nat l :: u128"] by simp
  then show ?thesis by (simp add: rval_def u)
qed

lemma scaled_values:
  assumes "r_d x \<noteq> 0" "r_d y \<noteq> 0" and l: "l = common_den x y" and s: "scalable x y"
  shows "l < 2 ^ 128 \<and> 0 < l \<and> over l x < 2 ^ 128" "rval x = of_nat (over l x) / of_nat l" "rval y = of_nat (over l y) / of_nat l"
proof -
  have p: "0 < l" unfolding l by (rule common_den_pos [OF assms(1,2)])
  then show "l < 2 ^ 128 \<and> 0 < l \<and> over l x < 2 ^ 128" using s unfolding scalable_def l [symmetric] Let_def by blast
  show "rval x = of_nat (over l x) / of_nat l" "rval y = of_nat (over l y) / of_nat l"
    using over_val [OF assms(1) common_dvd(1) [of x y, folded l] p] over_val [OF assms(2) common_dvd(2) [of y x, folded l] p] by simp_all
qed

lemma rational_add_value:
  assumes "r_d x \<noteq> 0" "r_d y \<noteq> 0" and l: "l = common_den x y"
  shows "\<exists>s. rational_checked_add x y = Some s \<and>
    (case s of
       Inr z \<Rightarrow> scalable x y \<and> over l x + over l y < 2 ^ 128 \<and> unat (r_d z) = l \<and> rval z = rval x + rval y
     | Inl e \<Rightarrow> if scalable x y then e = ''overflow while adding numerators'' \<and> 2 ^ 128 \<le> over l x + over l y
                else e = ''failed to scale to denominator'')"
proof (cases "scalable x y \<and> over l x + over l y < 2 ^ 128")
  case True
  note v = scaled_values [OF assms True [THEN conjunct1]]
  have s: "l < 2 ^ 128" "0 < l" using v(1) by blast+
  have u: "unat (of_nat l :: u128) = l" by (rule of_nat_u128 [OF s(1)])
  have "rval \<lparr>r_n = of_nat (over l x + over l y), r_d = of_nat l\<rparr> = rval x + rval y"
    using rval_common [OF True [THEN conjunct2] s] unfolding v by (simp add: add_divide_distrib)
  then show ?thesis unfolding rational_add_ok [OF assms] using True u by (simp del: of_nat_add)
next
  case False
  then show ?thesis unfolding rational_add_ok [OF assms] by (auto simp del: of_nat_add)
qed

lemma rational_sub_value:
  assumes "r_d x \<noteq> 0" "r_d y \<noteq> 0" and l: "l = common_den x y"
  shows "\<exists>d. rational_checked_sub x y = Some d \<and>
    (case d of
       Inr z \<Rightarrow> scalable x y \<and> rval y \<le> rval x \<and> unat (r_d z) = l \<and> rval z = rval x - rval y
     | Inl e \<Rightarrow> if scalable x y then e = ''overflow while subtracting numerators'' \<and> rval x < rval y
                else e = ''failed to scale to denominator'')"
proof (cases "scalable x y")
  case True
  note v = scaled_values [OF assms True]
  have s: "l < 2 ^ 128" "0 < l" "over l x < 2 ^ 128" using v(1) by blast+
  have u: "unat (of_nat l :: u128) = l" by (rule of_nat_u128 [OF s(1)])
  have o: "rval y \<le> rval x \<longleftrightarrow> over l y \<le> over l x" unfolding v(2,3) using s(2) by (simp add: divide_le_cancel)
  show ?thesis
  proof (cases "over l y \<le> over l x")
    case le: True
    have "over l x - over l y < 2 ^ 128" using s(3) by linarith
    from rval_common [OF this s(1,2)] have "rval \<lparr>r_n = of_nat (over l x - over l y), r_d = of_nat l\<rparr> = rval x - rval y"
      unfolding v(2,3) using le by (simp add: of_nat_diff diff_divide_distrib)
    then show ?thesis unfolding rational_sub_ok [OF assms] using True le u o by (simp del: of_nat_diff)
  next
    case False
    then have "rval x < rval y" using o by linarith
    then show ?thesis unfolding rational_sub_ok [OF assms] using True False by (simp del: of_nat_diff)
  qed
next
  case False
  then show ?thesis unfolding rational_sub_ok [OF assms] by simp
qed

section \<open>Comparison\<close>

lemma cmp_iff: "(a < b \<longleftrightarrow> c < d) \<Longrightarrow> (a = b \<longleftrightarrow> c = d) \<Longrightarrow> cmp a b = cmp c d"
  by (simp add: cmp_def)

lemma cmp_unat: "cmp (unat a) (unat b) = cmp a (b :: 'a::len word)"
  by (intro cmp_iff) (simp_all add: word_less_nat_alt word_unat_eq_iff)

lemma cross_ok: "\<exists>a b. cross x y = Some (a, b) \<and> val a = unat (r_n x) * unat (r_d y) \<and> val b = unat (r_n y) * unat (r_d x)"
  using big_mul_ok [of "to_big_uint (r_n x)" "to_big_uint (r_d y)"] big_mul_ok [of "to_big_uint (r_n y)" "to_big_uint (r_d x)"]
  by (auto simp: cross_def to_big_uint_val)

lemma rational_cmp_ok:
  "rational_cmp x y = Some (if r_d x = r_d y then cmp (unat (r_n x)) (unat (r_n y)) else if r_d x = 0 then Greater
    else if r_d y = 0 then Less else cmp (unat (r_n x) * unat (r_d y)) (unat (r_n y) * unat (r_d x)))"
  using cross_ok [of x y] by (auto simp: rational_cmp_def cmp_unat big_cmp_ok)

lemma rational_eq_ok:
  "rational_eq x y = Some (if r_d x = r_d y then r_n x = r_n y else unat (r_n x) * unat (r_d y) = unat (r_n y) * unat (r_d x))"
  using cross_ok [of x y] by (auto simp: rational_eq_def big_eq_def big_cmp_ok cmp_simps)

lemma big_eq_ok: "big_eq x y \<longleftrightarrow> val x = val y"
  by (simp add: big_eq_def big_cmp_ok cmp_simps)

lemma big_is_zero_ok: "big_is_zero x \<longleftrightarrow> val x = 0"
  unfolding big_is_zero_def val_zero [symmetric] val_eta ..

lemma infinite_cmp_ok:
  "infinite_cmp x y = Some (if val (ri_d x) = val (ri_d y) then cmp (val (ri_n x)) (val (ri_n y)) else if val (ri_d x) = 0 then Greater
    else if val (ri_d y) = 0 then Less else cmp (val (ri_n x) * val (ri_d y)) (val (ri_n y) * val (ri_d x)))"
proof -
  obtain a b where "big_mul (ri_n x) (ri_d y) = Some a" "val a = val (ri_n x) * val (ri_d y)"
    "big_mul (ri_n y) (ri_d x) = Some b" "val b = val (ri_n y) * val (ri_d x)"
    using big_mul_ok [of "ri_n x" "ri_d y"] big_mul_ok [of "ri_n y" "ri_d x"] by blast
  then show ?thesis by (simp add: infinite_cmp_def big_eq_ok big_is_zero_ok big_cmp_ok)
qed

lemma infinite_of_cmp: "infinite_cmp (infinite_of x) (infinite_of y) = rational_cmp x y"
proof -
  have e: "unat a = unat b \<longleftrightarrow> a = b" for a b :: u128 by (rule word_unat_eq_iff [symmetric])
  show ?thesis unfolding infinite_cmp_ok rational_cmp_ok infinite_of_def RationalInfinite.simps to_big_uint_val e unat_eq_zero ..
qed

lemma cmp_fractions:
  assumes "0 < b" "0 < d"
  shows "cmp (a * d) (c * b) = cmp (of_nat a / of_nat b :: rat) (of_nat c / of_nat d)"
proof (rule cmp_iff)
  have p: "0 < (of_nat b :: rat)" "0 < (of_nat d :: rat)" using assms by simp_all
  have "of_nat a / of_nat b < (of_nat c / of_nat d :: rat) \<longleftrightarrow> of_nat a * of_nat d < (of_nat c * of_nat b :: rat)"
    unfolding pos_less_divide_eq [OF p(2)] times_divide_eq_left pos_divide_less_eq [OF p(1)] ..
  then show "a * d < c * b \<longleftrightarrow> of_nat a / of_nat b < (of_nat c / of_nat d :: rat)" unfolding of_nat_mult [symmetric] of_nat_less_iff ..
  have "of_nat a / of_nat b = (of_nat c / of_nat d :: rat) \<longleftrightarrow> of_nat a * of_nat d = (of_nat c * of_nat b :: rat)"
    using p by (intro frac_eq_eq) simp_all
  then show "a * d = c * b \<longleftrightarrow> of_nat a / of_nat b = (of_nat c / of_nat d :: rat)" unfolding of_nat_mult [symmetric] of_nat_eq_iff ..
qed

lemma cmp_rval:
  assumes "r_d x \<noteq> 0" "r_d y \<noteq> 0"
  shows "cmp (rval x) (rval y) = cmp (unat (r_n x) * unat (r_d y)) (unat (r_n y) * unat (r_d x))"
  using cmp_fractions [OF unat_positive [OF assms(1)] unat_positive [OF assms(2)]] by (simp add: rval_def)

lemma rational_cmp_rval:
  assumes "r_d x \<noteq> 0" "r_d y \<noteq> 0"
  shows "rational_cmp x y = Some (cmp (rval x) (rval y))"
proof -
  have "r_d x = r_d y \<Longrightarrow> cmp (unat (r_n x)) (unat (r_n y)) = cmp (unat (r_n x) * unat (r_d y)) (unat (r_n y) * unat (r_d x))"
    using unat_positive [OF assms(2)] by (intro cmp_iff) simp_all
  then show ?thesis unfolding rational_cmp_ok cmp_rval [OF assms] using assms by (cases "r_d x = r_d y") simp_all
qed

section \<open>Multiplication by a rational\<close>

lemma unat_wider: "LENGTH('lo::len) \<le> LENGTH('hi::len) \<Longrightarrow> unat (ucast (a :: 'lo word) :: 'hi word) = unat a"
proof -
  assume "LENGTH('lo) \<le> LENGTH('hi)"
  then have "(2 :: nat) ^ LENGTH('lo) \<le> 2 ^ LENGTH('hi)" by simp
  then have "unat a < 2 ^ LENGTH('hi)" using unsigned_less [of a, where ?'a = nat] by linarith
  then show ?thesis by (simp add: unsigned_ucast_eq take_bit_nat_eq_self)
qed

lemma unat_narrower: "unat (a :: 'hi::len word) < 2 ^ LENGTH('lo::len) \<Longrightarrow> unat (ucast a :: 'lo word) = unat a"
  by (simp add: unsigned_ucast_eq take_bit_nat_eq_self)

lemma unat_max_word: "unat (- 1 :: 'a::len word) = 2 ^ LENGTH('a) - 1"
  by (simp add: unsigned_minus_1_eq_mask mask_eq_exp_minus_1)

lemma wide_product:
  fixes a b :: "'lo::len word"
  assumes "LENGTH('hi::len) = 2 * LENGTH('lo)"
  shows "unat ((ucast a :: 'hi word) * ucast b) = unat a * unat b"
proof -
  have "unat a * unat b < 2 ^ LENGTH('lo) * 2 ^ LENGTH('lo)" by (intro mult_strict_mono') (simp_all add: unsigned_less)
  also have "\<dots> = 2 ^ LENGTH('hi)" unfolding assms by (simp add: mult_2 power_add)
  finally show ?thesis using assms by (simp add: unat_word_ariths unat_wider)
qed

lemma narrow_checked:
  assumes "LENGTH('lo::len) \<le> LENGTH('hi::len)"
  shows "(if x > ucast (- 1 :: 'lo word) then None else Some (ucast (x :: 'hi word) :: 'lo word)) = (if unat x < 2 ^ LENGTH('lo) then Some (of_nat (unat x)) else None)"
proof -
  have "0 < (2 :: nat) ^ LENGTH('lo)" by simp
  then have "x > ucast (- 1 :: 'lo word) \<longleftrightarrow> \<not> unat x < 2 ^ LENGTH('lo)"
    unfolding word_less_nat_alt unat_wider [OF assms] unat_max_word by linarith
  then show ?thesis by simp
qed

lemma multiply_rational_ok:
  fixes self n d :: "'lo::len word"
  assumes "LENGTH('hi::len) = 2 * LENGTH('lo)" "1 < LENGTH('lo)" "d \<noteq> 0"
  shows "multiply_rational TYPE('hi) self n d r =
    (let m = round_div r (unat self * unat n) (unat d) in if m < 2 ^ LENGTH('lo) then Some (of_nat m) else None)"
proof -
  define sn where "sn = (ucast self :: 'hi word) * ucast n"
  define q where "q = sn div ucast d"
  have le: "LENGTH('lo) \<le> LENGTH('hi)" using assms(1) by simp
  have sn: "unat sn = unat self * unat n" unfolding sn_def by (rule wide_product [OF assms(1)])
  have d: "0 < unat d" by (rule unat_positive [OF assms(3)])
  have w: "unat (ucast d :: 'hi word) = unat d" by (rule unat_wider [OF le])
  have q: "unat q = unat sn div unat d" by (simp add: q_def unat_div w)
  have "unat sn mod unat d < 2 ^ LENGTH('lo)"
    using mod_less_divisor [OF d, of "unat sn"] unsigned_less [of d, where ?'a = nat] by linarith
  then have m: "unat (ucast (sn mod ucast d) :: 'lo word) = unat sn mod unat d" by (subst unat_narrower) (simp_all add: unat_mod w)
  define u where "u = rounds_up r (unat sn mod unat d) (unat d)"
  have b: "(2 :: nat) ^ LENGTH('lo) \<le> 2 ^ LENGTH('hi)" using le by simp
  have e: "multiply_rational TYPE('hi) self n d r =
      (case (if u then (if unat q + 1 < 2 ^ LENGTH('hi) then Some (q + 1) else None) else Some q) of
         None \<Rightarrow> None | Some x \<Rightarrow> if unat x < 2 ^ LENGTH('lo) then Some (of_nat (unat x)) else None)"
    unfolding multiply_rational_def Let_def if_not_P [OF assms(3)] sn_def [symmetric] q_def [symmetric]
      rounds_up_word [OF assms(2)] m u_def [symmetric] narrow_checked [OF le] ..
  have "unat (q + 1) = unat q + 1" if "unat q + 1 < 2 ^ LENGTH('hi)" using that by (simp add: unat_word_ariths)
  moreover have "\<not> unat q + 1 < 2 ^ LENGTH('lo)" if "\<not> unat q + 1 < 2 ^ LENGTH('hi)" using that b by linarith
  ultimately show ?thesis unfolding e round_div_eq [OF d] sn [symmetric] u_def [symmetric] q [symmetric] Let_def by auto
qed

end
