(* ===== verification/Per_Things.thy ===== *)
theory Per_Things
  imports Rational
begin

text \<open>
  Fractions of one with a fixed number of parts (\<^verbatim>\<open>primitives/arithmetic/src/per_things.rs\<close>). The macro
  \<^verbatim>\<open>implement_per_thing\<close> is modelled once for all its instances: \<open>'i\<close> is the width of the inner type, \<open>'u\<close> that of
  the upper type, \<open>'n\<close> that of the number type of a generic operation, and \<open>mx\<close> the number of parts of one.
  A generic operation over \<^verbatim>\<open>N: MultiplyRational\<close> takes that operation of \<open>N\<close> as an argument. The flag \<open>debug\<close>
  stands for the overflow checks and assertions of a debug build.
\<close>

section \<open>Values\<close>

datatype 'a per_thing = PerThing (deconstruct: 'a)

type_synonym 'n mul_op = "'n word \<Rightarrow> 'n word \<Rightarrow> 'n word \<Rightarrow> Rounding \<Rightarrow> 'n word option option"

text \<open>The instances of \<^verbatim>\<open>MultiplyRational\<close>.\<close>

definition mul_u8 :: "8 mul_op" where
  "mul_u8 a n d r = Some (multiply_rational TYPE(16) a n d r)"

definition mul_u16 :: "16 mul_op" where
  "mul_u16 a n d r = Some (multiply_rational TYPE(32) a n d r)"

definition mul_u32 :: "32 mul_op" where
  "mul_u32 a n d r = Some (multiply_rational TYPE(64) a n d r)"

definition mul_u64 :: "64 mul_op" where
  "mul_u64 a n d r = Some (multiply_rational TYPE(128) a n d r)"

definition mul_u128 :: "128 mul_op" where
  "mul_u128 a n d r = multiply_by_rational_with_rounding a n d r"

definition from_parts :: "'i::len word \<Rightarrow> 'i word \<Rightarrow> 'i word per_thing" where
  "from_parts mx parts = PerThing (min parts mx)"

definition pt_zero :: "'i::len word \<Rightarrow> 'i word per_thing" where
  "pt_zero mx = from_parts mx 0"

definition pt_is_zero :: "'i::len word per_thing \<Rightarrow> bool" where
  "pt_is_zero p \<longleftrightarrow> deconstruct p = 0"

definition pt_one :: "'i::len word \<Rightarrow> 'i word per_thing" where
  "pt_one mx = from_parts mx mx"

definition pt_is_one :: "'i::len word \<Rightarrow> 'i word per_thing \<Rightarrow> bool" where
  "pt_is_one mx p \<longleftrightarrow> deconstruct p = mx"

definition less_epsilon :: "'i::len word \<Rightarrow> 'i word per_thing \<Rightarrow> 'i word per_thing" where
  "less_epsilon mx p = (if pt_is_zero p then p else from_parts mx (deconstruct p - 1))"

definition try_less_epsilon :: "'i::len word \<Rightarrow> 'i word per_thing \<Rightarrow> ('i word per_thing, 'i word per_thing) result" where
  "try_less_epsilon mx p = (if pt_is_zero p then Inl p else Inr (from_parts mx (deconstruct p - 1)))"

definition plus_epsilon :: "'i::len word \<Rightarrow> 'i word per_thing \<Rightarrow> 'i word per_thing" where
  "plus_epsilon mx p = (if pt_is_one mx p then p else from_parts mx (deconstruct p + 1))"

definition try_plus_epsilon :: "'i::len word \<Rightarrow> 'i word per_thing \<Rightarrow> ('i word per_thing, 'i word per_thing) result" where
  "try_plus_epsilon mx p = (if pt_is_one mx p then Inl p else Inr (from_parts mx (deconstruct p + 1)))"

text \<open>Conversions: \<^verbatim>\<open>try_into\<close> and \<^verbatim>\<open>saturated_into\<close>.\<close>

definition try_into_word :: "'n::len word \<Rightarrow> (unit, 'i::len word) result" where
  "try_into_word x = (if unat x < 2 ^ LENGTH('i) then Inr (ucast x) else Inl ())"

definition saturated_into :: "'n::len word \<Rightarrow> 'i::len word" where
  "saturated_into x = (case try_into_word x of Inr y \<Rightarrow> y | Inl _ \<Rightarrow> - 1)"

section \<open>Fractions\<close>

definition from_rational_with_rounding ::
    "'n::len mul_op \<Rightarrow> 'i::len word \<Rightarrow> 'n word \<Rightarrow> 'n word \<Rightarrow> Rounding \<Rightarrow> (unit, 'i word per_thing) result option" where
  "from_rational_with_rounding mul mx p q r =
     (if q = 0 then Some (Inl ())
      else if p > q then Some (Inl ())
      else
        (let mx_n = ucast mx
         in do {
           x \<leftarrow> mul mx_n p q r;
           Some (case x of
                   None \<Rightarrow> Inl ()
                 | Some x \<Rightarrow> (case try_into_word x of Inr y \<Rightarrow> Inr (PerThing y) | Inl _ \<Rightarrow> Inl ()))
         }))"

definition from_rational :: "'n::len mul_op \<Rightarrow> 'i::len word \<Rightarrow> 'n word \<Rightarrow> 'n word \<Rightarrow> 'i word per_thing option" where
  "from_rational mul mx p q =
     map_option (\<lambda>r. case r of Inr x \<Rightarrow> x | Inl _ \<Rightarrow> pt_one mx) (from_rational_with_rounding mul mx p q Down)"

definition from_percent :: "'i::len mul_op \<Rightarrow> 'i word \<Rightarrow> 'i word \<Rightarrow> 'i word per_thing option" where
  "from_percent mul mx x = (let a = min x 100; b = 100 in from_rational mul mx a b)"

text \<open>The version for constants, an inherent function of each type.\<close>

definition const_from_percent :: "'u::len itself \<Rightarrow> 'i::len word \<Rightarrow> 'i word \<Rightarrow> 'i word per_thing" where
  "const_from_percent TYPE('u) mx x = PerThing (ucast ((ucast (if x > 100 then 100 else x) :: 'u word) * ucast mx div 100))"

definition square :: "'u::len mul_op \<Rightarrow> 'i::len word \<Rightarrow> 'i word per_thing \<Rightarrow> 'i word per_thing option" where
  "square umul mx self =
     (let p = ucast (deconstruct self); q = ucast mx in from_rational umul mx (p * p) (q * q))"

section \<open>Multiplication of integers\<close>

definition div_checked :: "'n::len word \<Rightarrow> 'n word \<Rightarrow> 'n word option" where
  "div_checked a b = (if b = 0 then None else Some (a div b))"

definition rational_mul_correction ::
    "'u::len itself \<Rightarrow> 'n::len word \<Rightarrow> 'i::len word \<Rightarrow> 'i word \<Rightarrow> Rounding \<Rightarrow> 'n word option" where
  "rational_mul_correction TYPE('u) x numer denom rounding =
     (if denom = 0 then None
      else
        (let numer_upper = (ucast numer :: 'u word);
             denom_n = (ucast denom :: 'n word);
             denom_upper = (ucast denom :: 'u word);
             rem = x mod denom_n;
             rem_inner = (saturated_into rem :: 'i word);
             rem_mul_upper = ucast rem_inner * numer_upper;
             rem_mul_div_inner = (saturated_into (rem_mul_upper div denom_upper) :: 'i word);
             up = (case rounding of
                     Down \<Rightarrow> False
                   | Up \<Rightarrow> rem_mul_upper mod denom_upper > 0
                   | NearestPrefDown \<Rightarrow> rem_mul_upper mod denom_upper > denom_upper div 2
                   | NearestPrefUp \<Rightarrow> rem_mul_upper mod denom_upper \<ge> denom_upper div 2 + denom_upper mod 2)
         in Some (ucast (if up then rem_mul_div_inner + 1 else rem_mul_div_inner))))"

definition overflow_prune_mul ::
    "'u::len itself \<Rightarrow> 'i::len word \<Rightarrow> 'n::len word \<Rightarrow> 'i word \<Rightarrow> Rounding \<Rightarrow> 'n word option" where
  "overflow_prune_mul TYPE('u) mx x part rounding = do {
     let maximum = ucast mx;
     let part_n = ucast part;
     c \<leftarrow> rational_mul_correction TYPE('u) x part mx rounding;
     d \<leftarrow> div_checked x maximum;
     Some (d * part_n + c)
   }"

definition saturating_mul_word :: "'n::len word \<Rightarrow> 'n word \<Rightarrow> 'n word" where
  "saturating_mul_word a b = (if unat a * unat b < 2 ^ LENGTH('n) then a * b else - 1)"

definition saturating_add_word :: "'n::len word \<Rightarrow> 'n word \<Rightarrow> 'n word" where
  "saturating_add_word a b = (if unat a + unat b < 2 ^ LENGTH('n) then a + b else - 1)"

definition saturating_sub_word :: "'n::len word \<Rightarrow> 'n word \<Rightarrow> 'n word" where
  "saturating_sub_word a b = (if b \<le> a then a - b else 0)"

definition saturating_reciprocal_mul ::
    "'u::len itself \<Rightarrow> 'i::len word \<Rightarrow> 'n::len word \<Rightarrow> 'i word \<Rightarrow> Rounding \<Rightarrow> 'n word option" where
  "saturating_reciprocal_mul TYPE('u) mx x part rounding = do {
     let maximum = ucast mx;
     c \<leftarrow> rational_mul_correction TYPE('u) x mx part rounding;
     d \<leftarrow> div_checked x (ucast part);
     Some (saturating_add_word (saturating_mul_word d maximum) c)
   }"

definition mul_floor :: "'u::len itself \<Rightarrow> 'i::len word \<Rightarrow> 'i word per_thing \<Rightarrow> 'n::len word \<Rightarrow> 'n word option" where
  "mul_floor TYPE('u) mx self b = overflow_prune_mul TYPE('u) mx b (deconstruct self) Down"

definition mul_ceil :: "'u::len itself \<Rightarrow> 'i::len word \<Rightarrow> 'i word per_thing \<Rightarrow> 'n::len word \<Rightarrow> 'n word option" where
  "mul_ceil TYPE('u) mx self b = overflow_prune_mul TYPE('u) mx b (deconstruct self) Up"

definition mul_nearest :: "'u::len itself \<Rightarrow> 'i::len word \<Rightarrow> 'i word per_thing \<Rightarrow> 'n::len word \<Rightarrow> 'n word option" where
  "mul_nearest TYPE('u) mx self b = overflow_prune_mul TYPE('u) mx b (deconstruct self) NearestPrefDown"

definition pt_saturating_reciprocal_mul :: "'u::len itself \<Rightarrow> 'i::len word \<Rightarrow> 'i word per_thing \<Rightarrow> 'n::len word \<Rightarrow> 'n word option" where
  "pt_saturating_reciprocal_mul TYPE('u) mx self b = saturating_reciprocal_mul TYPE('u) mx b (deconstruct self) NearestPrefUp"

definition saturating_reciprocal_mul_floor :: "'u::len itself \<Rightarrow> 'i::len word \<Rightarrow> 'i word per_thing \<Rightarrow> 'n::len word \<Rightarrow> 'n word option" where
  "saturating_reciprocal_mul_floor TYPE('u) mx self b = saturating_reciprocal_mul TYPE('u) mx b (deconstruct self) Down"

definition saturating_reciprocal_mul_ceil :: "'u::len itself \<Rightarrow> 'i::len word \<Rightarrow> 'i word per_thing \<Rightarrow> 'n::len word \<Rightarrow> 'n word option" where
  "saturating_reciprocal_mul_ceil TYPE('u) mx self b = saturating_reciprocal_mul TYPE('u) mx b (deconstruct self) Up"

section \<open>Operations on fractions\<close>

definition int_mul :: "'i::len word \<Rightarrow> 'i word per_thing \<Rightarrow> 'i word \<Rightarrow> 'i word per_thing" where
  "int_mul mx self b = from_parts mx (saturating_mul_word (deconstruct self) b)"

definition int_div :: "'i::len word per_thing \<Rightarrow> 'i word per_thing \<Rightarrow> 'i word option" where
  "int_div self b = div_checked (deconstruct self) (deconstruct b)"

definition saturating_div :: "'i::len mul_op \<Rightarrow> 'i word \<Rightarrow> 'i word per_thing \<Rightarrow> 'i word per_thing \<Rightarrow> Rounding \<Rightarrow> 'i word per_thing option" where
  "saturating_div mul mx self rhs r =
     (let p = deconstruct self; q = deconstruct rhs
      in map_option (\<lambda>x. case x of Inr y \<Rightarrow> y | Inl _ \<Rightarrow> pt_one mx) (from_rational_with_rounding mul mx p q r))"

definition pt_saturating_add :: "'i::len word \<Rightarrow> 'i word per_thing \<Rightarrow> 'i word per_thing \<Rightarrow> 'i word per_thing" where
  "pt_saturating_add mx self rhs = from_parts mx (saturating_add_word (deconstruct self) (deconstruct rhs))"

definition pt_saturating_sub :: "'i::len word \<Rightarrow> 'i word per_thing \<Rightarrow> 'i word per_thing \<Rightarrow> 'i word per_thing" where
  "pt_saturating_sub mx self rhs = from_parts mx (saturating_sub_word (deconstruct self) (deconstruct rhs))"

definition left_from_one :: "'i::len word \<Rightarrow> 'i word per_thing \<Rightarrow> 'i word per_thing" where
  "left_from_one mx self = pt_saturating_sub mx (pt_one mx) self"

definition pt_mul :: "'u::len itself \<Rightarrow> 'i::len word \<Rightarrow> 'i word per_thing \<Rightarrow> 'i word per_thing \<Rightarrow> 'i word per_thing" where
  "pt_mul TYPE('u) mx self rhs =
     (let a = (ucast (deconstruct self) :: 'u word);
          b = ucast (deconstruct rhs);
          m = ucast mx;
          parts = a * b div m
      in from_parts mx (ucast parts))"

fun pow_loop :: "'u::len mul_op \<Rightarrow> 'i::len word \<Rightarrow> 'i word per_thing \<Rightarrow> nat \<Rightarrow> 'i word per_thing \<Rightarrow> 'i word per_thing option" where
  "pow_loop umul mx self ex result =
     (if ex > 0 \<and> \<not> pt_is_zero result
      then
        (let result = (if ex mod 2 \<noteq> 0 then pt_mul TYPE('u) mx result self else result);
             ex = (if ex mod 2 \<noteq> 0 then ex - 1 else ex)
         in case square umul mx self of
              None \<Rightarrow> None
            | Some self \<Rightarrow> pow_loop umul mx self (ex div 2) result)
      else Some result)"

declare pow_loop.simps [simp del]

definition pow :: "'u::len mul_op \<Rightarrow> 'i::len word \<Rightarrow> 'i word per_thing \<Rightarrow> nat \<Rightarrow> 'i word per_thing option" where
  "pow umul mx self ex =
     (if ex = 0 \<or> pt_is_one mx self then Some (pt_one mx) else pow_loop umul mx self (ex - 1) self)"

definition pt_div :: "'i::len mul_op \<Rightarrow> 'i word \<Rightarrow> 'i word per_thing \<Rightarrow> 'i word per_thing \<Rightarrow> 'i word per_thing option" where
  "pt_div mul mx self rhs = (let p = deconstruct self; q = deconstruct rhs in from_rational mul mx p q)"

definition div_number :: "'i::len word \<Rightarrow> 'i word per_thing \<Rightarrow> 'n::len word \<Rightarrow> 'i word per_thing option" where
  "div_number mx self b =
     (case (try_into_word b :: (unit, 'i word) result) of
        Inl _ \<Rightarrow> Some (pt_zero mx)
      | Inr d \<Rightarrow> map_option (from_parts mx) (div_checked (deconstruct self) d))"

definition pt_add :: "bool \<Rightarrow> 'i::len word \<Rightarrow> 'i word per_thing \<Rightarrow> 'i word per_thing \<Rightarrow> 'i word per_thing option" where
  "pt_add debug mx self rhs =
     (let inner = deconstruct self + deconstruct rhs
      in if debug \<and> (2 ^ LENGTH('i) \<le> unat (deconstruct self) + unat (deconstruct rhs) \<or> \<not> inner \<le> mx) then None
         else Some (from_parts mx inner))"

definition pt_checked_add :: "'i::len word \<Rightarrow> 'i word per_thing \<Rightarrow> 'i word per_thing \<Rightarrow> 'i word per_thing option" where
  "pt_checked_add mx self rhs =
     (if unat (deconstruct self) + unat (deconstruct rhs) < 2 ^ LENGTH('i)
      then (let inner = deconstruct self + deconstruct rhs in if inner > mx then None else Some (from_parts mx inner))
      else None)"

definition pt_sub :: "bool \<Rightarrow> 'i::len word \<Rightarrow> 'i word per_thing \<Rightarrow> 'i word per_thing \<Rightarrow> 'i word per_thing option" where
  "pt_sub debug mx self rhs =
     (if debug \<and> deconstruct self < deconstruct rhs then None
      else Some (from_parts mx (deconstruct self - deconstruct rhs)))"

definition pt_checked_sub :: "'i::len word \<Rightarrow> 'i word per_thing \<Rightarrow> 'i word per_thing \<Rightarrow> 'i word per_thing option" where
  "pt_checked_sub mx self v =
     (if deconstruct v \<le> deconstruct self then Some (from_parts mx (deconstruct self - deconstruct v)) else None)"

definition pt_checked_mul :: "'u::len itself \<Rightarrow> 'i::len word \<Rightarrow> 'i word per_thing \<Rightarrow> 'i word per_thing \<Rightarrow> 'i word per_thing option" where
  "pt_checked_mul TYPE('u) mx self rhs = Some (pt_mul TYPE('u) mx self rhs)"

text \<open>Decoding: the decoder \<open>decode\<close> of the inner type is part of the codec library, \<open>err\<close> its error for a message.\<close>

definition pt_decode :: "('s \<Rightarrow> ('e, 'i::len word \<times> 's) result) \<Rightarrow> (string \<Rightarrow> 'e) \<Rightarrow> 'i word \<Rightarrow> 's \<Rightarrow> ('e, 'i word per_thing \<times> 's) result" where
  "pt_decode decode err mx input =
     (case decode input of
        Inl e \<Rightarrow> Inl e
      | Inr (inner, rest) \<Rightarrow>
          if inner \<le> mx then Inr (PerThing inner, rest) else Inl (err ''Value is greater than allowed maximum!''))"

section \<open>The types\<close>

definition Percent_max :: "8 word" where "Percent_max = 100"
definition PerU16_max :: "16 word" where "PerU16_max = 65535"
definition Permill_max :: "32 word" where "Permill_max = 1000000"
definition Perbill_max :: "32 word" where "Perbill_max = 1000000000"
definition Perquintill_max :: "64 word" where "Perquintill_max = 1000000000000000000"

datatype SignedRounding = High | Low | NearestPrefHigh | NearestPrefLow | Major | Minor | NearestPrefMajor | NearestPrefMinor

fun from_signed :: "SignedRounding \<Rightarrow> bool \<Rightarrow> Rounding" where
  "from_signed Low True = Up"
| "from_signed Major _ = Up"
| "from_signed High False = Up"
| "from_signed High True = Down"
| "from_signed Minor _ = Down"
| "from_signed Low False = Down"
| "from_signed NearestPrefMajor _ = NearestPrefUp"
| "from_signed NearestPrefHigh False = NearestPrefUp"
| "from_signed NearestPrefLow True = NearestPrefUp"
| "from_signed NearestPrefMinor _ = NearestPrefDown"
| "from_signed NearestPrefLow False = NearestPrefDown"
| "from_signed NearestPrefHigh True = NearestPrefDown"

end
