(* ===== verification/Per_Things_Exact.thy ===== *)
theory Per_Things_Exact
  imports Per_Things
begin

text \<open>
  What the operations on fractions compute. The interface \<open>rational_mul\<close> states the promise of
  \<^verbatim>\<open>MultiplyRational\<close>: the exact product divided and rounded once, unless it does not fit. It is interpreted for
  every integer type of the code; the operations of the macro are exact under it.
\<close>

section \<open>Rounded quotients\<close>

lemma round_div_shift: "0 < c \<Longrightarrow> round_div r (k * c + p) c = k + round_div r p c"
  by (simp add: round_div_eq)

lemma round_div_le:
  assumes "p \<le> k * c" "0 < c"
  shows "round_div r p c \<le> k"
proof -
  have q: "p div c \<le> k" using div_le_mono [OF assms(1), of c] assms(2) by simp
  show ?thesis
  proof (cases "p mod c = 0")
    case True
    then show ?thesis using q assms(2) by (cases r) (simp_all add: round_div_eq rounds_up_def)
  next
    case False
    have "p div c \<noteq> k"
    proof
      assume "p div c = k"
      then have "p = k * c + p mod c" using div_mult_mod_eq [of p c] by simp
      then show False using False assms(1) by simp
    qed
    then show ?thesis using q assms(2) by (simp add: round_div_eq)
  qed
qed

lemma round_div_floor: "0 < c \<Longrightarrow> p div c \<le> round_div r p c"
  by (simp add: round_div_eq)

lemma round_div_zero: "0 < c \<Longrightarrow> round_div r 0 c = 0"
  using round_div_le [of 0 0 c r] by simp

lemma split_product: "x * k = (x div m * k) * m + (x mod m) * (k :: nat)"
proof -
  have "(q * m + r) * k = (q * k) * m + r * k" for q r by (simp add: algebra_simps)
  from this [of "x div m" "x mod m"] show ?thesis unfolding div_mult_mod_eq .
qed

section \<open>Conversions\<close>

lemma saturated_into_ok: "unat (x :: 'n::len word) < 2 ^ LENGTH('i::len) \<Longrightarrow> unat (saturated_into x :: 'i word) = unat x"
  by (simp add: saturated_into_def try_into_word_def unat_narrower)

lemma min_below: "0 < m \<Longrightarrow> min k (m - 1) = (if k < m then k else m - (1 :: nat))"
  by (auto simp: min_def)

lemma min_min_add: "min (min a m + c) m = min (a + c) (m :: nat)"
  by (simp add: min_def)

lemma unat_fits:
  fixes a b :: "'n::len word"
  shows "unat a + unat b < 2 ^ LENGTH('n) \<Longrightarrow> unat (a + b) = unat a + unat b"
    and "unat a * unat b < 2 ^ LENGTH('n) \<Longrightarrow> unat (a * b) = unat a * unat b"
  by (simp_all add: unat_word_ariths)

lemma unat_saturating_add: "unat (saturating_add_word a b :: 'n::len word) = min (unat a + unat b) (2 ^ LENGTH('n) - 1)"
  by (simp add: min_below saturating_add_word_def unat_max_word unat_word_ariths)

lemma unat_saturating_mul: "unat (saturating_mul_word a b :: 'n::len word) = min (unat a * unat b) (2 ^ LENGTH('n) - 1)"
  by (simp add: min_below saturating_mul_word_def unat_max_word unat_word_ariths)

lemma unat_saturating_sub: "unat (saturating_sub_word a b :: 'n::len word) = unat a - unat b"
  by (auto simp: saturating_sub_word_def unat_sub word_le_nat_alt)

lemma unat_from_parts: "unat (deconstruct (from_parts mx p)) = min (unat p) (unat mx)"
  by (auto simp: from_parts_def min_def word_le_nat_alt)

section \<open>Multiplication of integers\<close>

lemma correction_ok:
  fixes numer denom :: "'i::len word" and x :: "'n::len word"
  assumes u: "LENGTH('u::len) = 2 * LENGTH('i)" and n: "LENGTH('i) \<le> LENGTH('n)" and d: "denom \<noteq> 0"
  shows "\<exists>c. rational_mul_correction TYPE('u) x numer denom r = Some c \<and>
    unat c = round_div r ((unat x mod unat denom) * unat numer) (unat denom)"
proof -
  define rem where "rem = x mod ucast denom"
  define p where "p = (ucast (saturated_into rem :: 'i word) :: 'u word) * ucast numer"
  have d0: "0 < unat denom" by (rule unat_positive [OF d])
  have dn: "unat (ucast denom :: 'n word) = unat denom" by (rule unat_wider [OF n])
  have du: "unat (ucast denom :: 'u word) = unat denom" using u by (intro unat_wider) simp
  have r: "unat rem = unat x mod unat denom" by (simp add: rem_def unat_mod dn)
  have lt: "unat rem < unat denom" unfolding r by (rule mod_less_divisor [OF d0])
  then have "unat rem < 2 ^ LENGTH('i)" using unsigned_less [of denom, where ?'a = nat] by linarith
  then have p: "unat p = unat rem * unat numer" unfolding p_def wide_product [OF u] by (simp add: saturated_into_ok)
  have le: "unat p \<le> unat numer * unat denom" unfolding p using lt by (simp add: mult.commute)
  have q: "unat p div unat denom + (if rounds_up r (unat p mod unat denom) (unat denom) then 1 else 0) = round_div r (unat p) (unat denom)"
    by (rule round_div_eq [OF d0, symmetric])
  have b: "round_div r (unat p) (unat denom) < 2 ^ LENGTH('i)"
    using round_div_le [OF le d0, of r] unsigned_less [of numer, where ?'a = nat] by linarith
  define v where "v = (saturated_into (p div ucast denom) :: 'i word)"
  have "unat p div unat denom < 2 ^ LENGTH('i)" using b q by linarith
  then have v: "unat v = unat p div unat denom" unfolding v_def by (subst saturated_into_ok) (simp_all add: unat_div du)
  define up where "up = rounds_up r (unat p mod unat denom) (unat denom)"
  have w: "1 < LENGTH('u)" using u len_gt_0 [where ?'a = 'i] by linarith
  have e: "rational_mul_correction TYPE('u) x numer denom r = Some (ucast (if up then v + 1 else v))"
    unfolding rational_mul_correction_def Let_def if_not_P [OF d] rem_def [symmetric] p_def [symmetric] v_def [symmetric]
      rounds_up_word [OF w] unat_mod du up_def [symmetric] ..
  have "unat (v + 1) = unat v + 1" if up
    using b q that unfolding v up_def by (simp add: unat_word_ariths v)
  then have "unat (if up then v + 1 else v) = round_div r (unat p) (unat denom)" using q v unfolding up_def by auto
  then show ?thesis unfolding e using p r by (simp add: unat_wider [OF n])
qed

lemma overflow_prune_mul_ok:
  fixes part mx :: "'i::len word" and x :: "'n::len word"
  assumes u: "LENGTH('u::len) = 2 * LENGTH('i)" and n: "LENGTH('i) \<le> LENGTH('n)" and mx: "mx \<noteq> 0" and part: "part \<le> mx"
  shows "\<exists>y. overflow_prune_mul TYPE('u) mx x part r = Some y \<and> unat y = round_div r (unat x * unat part) (unat mx) \<and> y \<le> x"
proof -
  have m: "0 < unat mx" by (rule unat_positive [OF mx])
  have w: "unat (ucast mx :: 'n word) = unat mx" "unat (ucast part :: 'n word) = unat part" by (rule unat_wider [OF n])+
  have "(ucast mx :: 'n word) \<noteq> 0" using m w(1) by (simp add: unat_gt_0 [symmetric])
  then have dv: "div_checked x (ucast mx) = Some (x div ucast mx)" by (simp add: div_checked_def)
  obtain c where c: "rational_mul_correction TYPE('u) x part mx r = Some c"
    "unat c = round_div r ((unat x mod unat mx) * unat part) (unat mx)" using correction_ok [OF u n mx] by blast
  let ?q = "unat x div unat mx * unat part"
  have s: "round_div r (unat x * unat part) (unat mx) = ?q + unat c" 
    by (subst split_product [of _ _ "unat mx"]) (simp only: round_div_shift [OF m] c(2))
  have "unat x * unat part \<le> unat x * unat mx" using part by (simp add: word_le_nat_alt)
  then have le: "?q + unat c \<le> unat x" using round_div_le [OF _ m, of "unat x * unat part" "unat x" r] s by simp
  then have b: "?q + unat c < 2 ^ LENGTH('n)" using unsigned_less [of x, where ?'a = nat] by linarith
  then have "unat (x div ucast mx * ucast part :: 'n word) = ?q" by (subst unat_fits(2)) (simp_all add: unat_div w)
  then have y: "unat (x div ucast mx * ucast part + c) = ?q + unat c" using b by (subst unat_fits(1)) simp_all
  then show ?thesis using c(1) dv s le by (simp add: overflow_prune_mul_def Let_def word_le_nat_alt)
qed

lemma saturating_reciprocal_mul_ok:
  fixes part mx :: "'i::len word" and x :: "'n::len word"
  assumes u: "LENGTH('u::len) = 2 * LENGTH('i)" and n: "LENGTH('i) \<le> LENGTH('n)"
  shows "part \<noteq> 0 \<Longrightarrow> \<exists>y. saturating_reciprocal_mul TYPE('u) mx x part r = Some y \<and>
    unat y = min (round_div r (unat x * unat mx) (unat part)) (2 ^ LENGTH('n) - 1)"
    "part = 0 \<Longrightarrow> saturating_reciprocal_mul TYPE('u) mx x part r = None"
proof -
  assume part: "part \<noteq> 0"
  have m: "0 < unat part" by (rule unat_positive [OF part])
  have w: "unat (ucast mx :: 'n word) = unat mx" "unat (ucast part :: 'n word) = unat part" by (rule unat_wider [OF n])+
  have "(ucast part :: 'n word) \<noteq> 0" using m w(2) by (simp add: unat_gt_0 [symmetric])
  then have dv: "div_checked x (ucast part) = Some (x div ucast part)" by (simp add: div_checked_def)
  obtain c where c: "rational_mul_correction TYPE('u) x mx part r = Some c"
    "unat c = round_div r ((unat x mod unat part) * unat mx) (unat part)" using correction_ok [OF u n part] by blast
  let ?q = "unat x div unat part * unat mx"
  have s: "round_div r (unat x * unat mx) (unat part) = ?q + unat c"
    by (subst split_product [of _ _ "unat part"]) (simp only: round_div_shift [OF m] c(2))
  have "unat (saturating_add_word (saturating_mul_word (x div ucast part) (ucast mx)) c) = min (?q + unat c) (2 ^ LENGTH('n) - 1)"
    unfolding unat_saturating_add unat_saturating_mul unat_div w by (rule min_min_add)
  then show "\<exists>y. saturating_reciprocal_mul TYPE('u) mx x part r = Some y \<and>
    unat y = min (round_div r (unat x * unat mx) (unat part)) (2 ^ LENGTH('n) - 1)"
    using c(1) dv s by (simp add: saturating_reciprocal_mul_def Let_def)
qed (simp add: saturating_reciprocal_mul_def rational_mul_correction_def)

section \<open>Multiplication and powers of fractions\<close>

lemma pt_mul_ok:
  fixes a b mx :: "'i::len word"
  assumes u: "LENGTH('u::len) = 2 * LENGTH('i)" and mx: "mx \<noteq> 0" and le: "a \<le> mx" "b \<le> mx"
  shows "unat (deconstruct (pt_mul TYPE('u) mx (PerThing a) (PerThing b))) = unat a * unat b div unat mx"
proof -
  have m: "0 < unat mx" by (rule unat_positive [OF mx])
  have w: "unat (ucast mx :: 'u word) = unat mx" using u by (intro unat_wider) simp
  have d: "unat ((ucast a :: 'u word) * ucast b div ucast mx) = unat a * unat b div unat mx"
    unfolding unat_div w wide_product [OF u] ..
  have "unat a * unat b \<le> unat mx * unat mx" using le by (intro mult_le_mono) (simp_all add: word_le_nat_alt)
  then have q: "unat a * unat b div unat mx \<le> unat mx" using div_le_mono [of "unat a * unat b" "unat mx * unat mx" "unat mx"] m by simp
  then have "unat ((ucast a :: 'u word) * ucast b div ucast mx) < 2 ^ LENGTH('i)" unfolding d using unsigned_less [of mx, where ?'a = nat] by linarith
  then show ?thesis using q by (simp add: pt_mul_def Let_def unat_from_parts unat_narrower d min_def)
qed

lemma saturating_ops_ok:
  fixes a b mx :: "'i::len word"
  shows "unat (deconstruct (pt_saturating_add mx (PerThing a) (PerThing b))) = min (unat a + unat b) (unat mx)"
    and "a \<le> mx \<Longrightarrow> unat (deconstruct (pt_saturating_sub mx (PerThing a) (PerThing b))) = unat a - unat b"
    and "unat (deconstruct (int_mul mx (PerThing a) b)) = min (unat a * unat b) (unat mx)"
    and "unat (deconstruct (left_from_one mx (PerThing a))) = unat mx - unat a"
proof -
  have "unat mx \<le> 2 ^ LENGTH('i) - 1" using unsigned_less [of mx, where ?'a = nat] by linarith
  then have m: "min (min k (2 ^ LENGTH('i) - 1)) (unat mx) = min k (unat mx)" for k by linarith
  show "unat (deconstruct (pt_saturating_add mx (PerThing a) (PerThing b))) = min (unat a + unat b) (unat mx)"
    "unat (deconstruct (int_mul mx (PerThing a) b)) = min (unat a * unat b) (unat mx)"
    by (simp_all only: pt_saturating_add_def int_mul_def unat_from_parts per_thing.sel unat_saturating_add unat_saturating_mul m)
  show "a \<le> mx \<Longrightarrow> unat (deconstruct (pt_saturating_sub mx (PerThing a) (PerThing b))) = unat a - unat b"
    by (simp add: pt_saturating_sub_def unat_from_parts unat_saturating_sub word_le_nat_alt)
  show "unat (deconstruct (left_from_one mx (PerThing a))) = unat mx - unat a"
    by (simp add: left_from_one_def pt_one_def pt_saturating_sub_def unat_from_parts unat_saturating_sub)
qed

lemma checked_ops_ok:
  fixes a b mx :: "'i::len word"
  assumes "a \<le> mx" "b \<le> mx"
  shows "pt_checked_add mx (PerThing a) (PerThing b) = (if unat a + unat b \<le> unat mx then Some (PerThing (a + b)) else None)"
    and "pt_checked_sub mx (PerThing a) (PerThing b) = (if unat b \<le> unat a then Some (PerThing (a - b)) else None)"
proof -
  have m: "unat a + unat b < 2 ^ LENGTH('i)" if "unat a + unat b \<le> unat mx" using that unsigned_less [of mx, where ?'a = nat] by linarith
  have "unat (a + b) = unat a + unat b" if "unat a + unat b < 2 ^ LENGTH('i)" using that by (rule unat_fits)
  then show "pt_checked_add mx (PerThing a) (PerThing b) = (if unat a + unat b \<le> unat mx then Some (PerThing (a + b)) else None)"
    using m by (auto simp: pt_checked_add_def from_parts_def Let_def min_def word_le_nat_alt word_less_nat_alt)
  have "a - b \<le> mx" if "b \<le> a" using that assms(1) by (simp add: word_le_nat_alt unat_sub)
  then show "pt_checked_sub mx (PerThing a) (PerThing b) = (if unat b \<le> unat a then Some (PerThing (a - b)) else None)"
    by (auto simp: pt_checked_sub_def from_parts_def min_def word_le_nat_alt)
qed

text \<open>\<open>y\<close> parts out of \<open>m\<close> are at most the \<open>k\<close>-th power of \<open>p\<close> parts.\<close>

definition at_most_power :: "nat \<Rightarrow> nat \<Rightarrow> nat \<Rightarrow> nat \<Rightarrow> bool" where
  "at_most_power m p k y \<longleftrightarrow> y * m ^ k \<le> m * p ^ k"

lemma at_most_power_mult:
  assumes "at_most_power m p k y" "at_most_power m p l z" "0 < m"
  shows "at_most_power m p (k + l) (y * z div m)"
proof -
  have "(y * z div m) * m \<le> y * z" by simp
  then have "(y * z div m) * m * (m ^ k * m ^ l) \<le> y * z * (m ^ k * m ^ l)" by (rule mult_le_mono1)
  also have "\<dots> = (y * m ^ k) * (z * m ^ l)" by (simp only: mult_ac)
  also have "\<dots> \<le> (m * p ^ k) * (m * p ^ l)" using assms(1,2) unfolding at_most_power_def by (rule mult_le_mono)
  finally have "m * ((y * z div m) * m ^ (k + l)) \<le> m * (m * p ^ (k + l))" unfolding power_add by (simp only: mult_ac)
  then show ?thesis using assms(3) by (simp add: at_most_power_def)
qed

lemma at_most_power_quotient:
  assumes "at_most_power m p k y" "0 < m"
  shows "of_nat y / of_nat m \<le> (of_nat p / of_nat m :: rat) ^ k"
proof -
  have "(of_nat (y * m ^ k) :: rat) \<le> of_nat (m * p ^ k)" using assms(1) unfolding at_most_power_def of_nat_le_iff .
  then have "of_nat y * of_nat m ^ k \<le> of_nat p ^ k * (of_nat m :: rat)" by (simp add: mult.commute)
  moreover have "0 < (of_nat m :: rat)" "0 < (of_nat m ^ k :: rat)" using assms(2) by simp_all
  ultimately show ?thesis unfolding power_divide by (simp add: pos_divide_le_eq pos_le_divide_eq)
qed

section \<open>The interface of multiplication by a rational\<close>

locale rational_mul =
  fixes mul :: "'n::len mul_op"
  assumes mul_exact: "d \<noteq> 0 \<Longrightarrow> mul a n d r =
    Some (let m = round_div r (unat a * unat n) (unat d) in if m < 2 ^ LENGTH('n) then Some (of_nat m) else None)"
begin

lemma fraction_exact:
  fixes mx :: "'i::len word"
  assumes n: "LENGTH('i) \<le> LENGTH('n)" and q: "q \<noteq> 0" "p \<le> q"
  shows "\<exists>y. from_rational_with_rounding mul mx p q r = Some (Inr (PerThing y)) \<and> unat y = round_div r (unat mx * unat p) (unat q) \<and> y \<le> mx"
proof -
  let ?m = "round_div r (unat mx * unat p) (unat q)"
  have w: "unat (ucast mx :: 'n word) = unat mx" by (rule unat_wider [OF n])
  have "unat mx * unat p \<le> unat mx * unat q" using q(2) by (simp add: word_le_nat_alt)
  then have le: "?m \<le> unat mx" by (rule round_div_le [OF _ unat_positive [OF q(1)]])
  have i: "?m < 2 ^ LENGTH('i)" "?m < 2 ^ LENGTH('n)" using le unsigned_less [of mx, where ?'a = nat] unsigned_less [of "ucast mx :: 'n word", where ?'a = nat] w by linarith+
  then have u: "unat (of_nat ?m :: 'n word) = ?m" by (simp add: unat_of_nat)
  then have "unat (ucast (of_nat ?m :: 'n word) :: 'i word) = ?m" using i(1) by (simp add: unat_narrower)
  then show ?thesis using q le i u
    by (simp add: from_rational_with_rounding_def Let_def mul_exact w try_into_word_def word_le_nat_alt word_less_nat_alt)
qed

lemma fraction_error: "q = 0 \<or> q < p \<Longrightarrow> from_rational_with_rounding mul mx p q r = Some (Inl ())"
  by (auto simp: from_rational_with_rounding_def)

lemma square_exact:
  fixes mx a :: "'i::len word"
  assumes n: "LENGTH('n) = 2 * LENGTH('i)" and mx: "mx \<noteq> 0" and a: "a \<le> mx"
  shows "\<exists>y. square mul mx (PerThing a) = Some (PerThing y) \<and> unat y = unat a * unat a div unat mx \<and> y \<le> mx"
proof -
  define p q where pq: "p = (ucast a :: 'n word) * ucast a" "q = (ucast mx :: 'n word) * ucast mx"
  have v: "unat p = unat a * unat a" "unat q = unat mx * unat mx" unfolding pq by (rule wide_product [OF n])+
  have m: "0 < unat mx" by (rule unat_positive [OF mx])
  then have "q \<noteq> 0" using v(2) by (simp add: unat_gt_0 [symmetric])
  moreover have "p \<le> q" unfolding word_le_nat_alt v using a by (intro mult_le_mono) (simp_all add: word_le_nat_alt)
  moreover have "unat mx * (unat a * unat a) div (unat mx * unat mx) = unat a * unat a div unat mx" using m by simp
  ultimately show ?thesis using fraction_exact [of q p mx Down] n v
    by (auto simp: square_def Let_def pq [symmetric] from_rational_def round_div_def)
qed

lemma pow_loop_below:
  fixes mx s r :: "'i::len word"
  assumes n: "LENGTH('n) = 2 * LENGTH('i)" and mx: "mx \<noteq> 0"
    and "s \<le> mx" "r \<le> mx" "at_most_power (unat mx) p k (unat r)" "at_most_power (unat mx) p l (unat s)"
  shows "\<exists>y. pow_loop mul mx (PerThing s) e (PerThing r) = Some (PerThing y) \<and> y \<le> mx \<and> at_most_power (unat mx) p (k + e * l) (unat y)"
  using assms(3-)
proof (induction e arbitrary: s r k l rule: less_induct)
  case (less e)
  have m: "0 < unat mx" by (rule unat_positive [OF mx])
  show ?case
  proof (cases "0 < e \<and> r \<noteq> 0")
    case True
    obtain s' where s': "square mul mx (PerThing s) = Some (PerThing s')" "unat s' = unat s * unat s div unat mx" "s' \<le> mx"
      using square_exact [OF n mx less.prems(1)] by blast
    have sp: "at_most_power (unat mx) p (l + l) (unat s')" unfolding s'(2) by (rule at_most_power_mult [OF less.prems(4,4) m])
    define r' where "r' = (if e mod 2 \<noteq> 0 then deconstruct (pt_mul TYPE('n) mx (PerThing r) (PerThing s)) else r)"
    define k' where "k' = (if e mod 2 \<noteq> 0 then k + l else k)"
    have r': "r' \<le> mx \<and> at_most_power (unat mx) p k' (unat r')"
    proof (cases "e mod 2 \<noteq> 0")
      case True
      have "unat r' = unat r * unat s div unat mx" using True pt_mul_ok [OF n mx less.prems(2,1)] by (simp add: r'_def)
      moreover have "unat r * unat s div unat mx \<le> unat mx"
        using div_le_mono [OF mult_le_mono [OF less.prems(2,1) [unfolded word_le_nat_alt]], of "unat mx"] m by simp
      ultimately show ?thesis using True at_most_power_mult [OF less.prems(3,4) m] by (simp add: k'_def word_le_nat_alt)
    next
      case False
      then show ?thesis using less.prems by (simp add: r'_def k'_def)
    qed
    have h: "(if e mod 2 \<noteq> 0 then e - 1 else e) div 2 = e div 2" by (cases "e mod 2 = 0") presburger+
    have "pow_loop mul mx (PerThing s) e (PerThing r) = pow_loop mul mx (PerThing s') (e div 2) (PerThing r')"
      using True s'(1) h by (subst pow_loop.simps) (auto simp: Let_def pt_is_zero_def r'_def)
    moreover have "k' + e div 2 * (l + l) = k + e * l"
    proof -
      have "e * l = (2 * (e div 2) + e mod 2) * l" by simp
      then show ?thesis by (cases "e mod 2 = 0") (simp_all add: k'_def distrib_right distrib_left mult_2)
    qed
    moreover have "e div 2 < e" using True by simp
    ultimately show ?thesis using less.IH [OF _ s'(3) r' [THEN conjunct1] r' [THEN conjunct2] sp, of "e div 2"] by simp
  next
    case False
    then have "pow_loop mul mx (PerThing s) e (PerThing r) = Some (PerThing r)" by (subst pow_loop.simps, subst if_not_P) (simp_all add: pt_is_zero_def)
    moreover have "at_most_power (unat mx) p (k + e * l) (unat r)" using False less.prems(3) by (auto simp: at_most_power_def)
    ultimately show ?thesis using less.prems(2) by simp
  qed
qed

lemma pow_below:
  fixes mx a :: "'i::len word"
  assumes n: "LENGTH('n) = 2 * LENGTH('i)" and mx: "mx \<noteq> 0" and a: "a \<le> mx"
  shows "\<exists>y. pow mul mx (PerThing a) e = Some (PerThing y) \<and> y \<le> mx \<and> at_most_power (unat mx) (unat a) e (unat y)"
proof (cases "e = 0 \<or> a = mx")
  case True
  then show ?thesis by (auto simp: pow_def pt_is_one_def pt_one_def from_parts_def at_most_power_def)
next
  case False
  have "at_most_power (unat mx) (unat a) 1 (unat a)" by (simp add: at_most_power_def mult.commute)
  from pow_loop_below [OF n mx a a this this, of "e - 1"] show ?thesis using False by (simp add: pow_def pt_is_one_def)
qed

lemma percent_agree:
  fixes mx x :: "'n word"
  assumes u: "LENGTH('u::len) = 2 * LENGTH('n)" and l: "7 \<le> LENGTH('n)"
  shows "from_percent mul mx x = Some (const_from_percent TYPE('u) mx x)"
proof -
  have "(2 :: nat) ^ 7 \<le> 2 ^ LENGTH('n)" "(2 :: nat) ^ 7 \<le> 2 ^ LENGTH('u)" using l u by (intro power_increasing; simp)+
  then have h: "unat (100 :: 'n word) = 100" "unat (100 :: 'u word) = 100" by (simp_all add: unat_numeral take_bit_nat_eq_self)
  have "0 < unat (100 :: 'n word)" unfolding h by simp
  then have nz: "(100 :: 'n word) \<noteq> 0" by (rule unat_gt_0 [THEN iffD1])
  obtain y where y: "from_rational_with_rounding mul mx (min x 100) 100 Down = Some (Inr (PerThing y))"
    "unat y = unat mx * unat (min x 100) div 100"
    using fraction_exact [OF order_refl nz min.cobounded2, of mx x Down] unfolding h round_div_def Rounding.case by blast
  define z where "z = (ucast (min x 100) :: 'u word) * ucast mx div 100"
  have z: "unat z = unat (min x 100) * unat mx div 100" unfolding z_def unat_div wide_product [OF u] h ..
  have "unat z < 2 ^ LENGTH('n)" using unsigned_less [of y, where ?'a = nat] unfolding z y(2) by (simp add: mult.commute)
  then have "unat (ucast z :: 'n word) = unat y" unfolding y(2) by (simp add: unat_narrower z mult.commute)
  then have "ucast z = y" by (rule unsigned_word_eqI)
  moreover have "(if x > 100 then 100 else x) = min x 100" by (auto simp: min_def)
  ultimately show ?thesis using y(1) by (simp add: from_percent_def from_rational_def const_from_percent_def z_def)
qed

end

interpretation u8_mul: rational_mul mul_u8
  by unfold_locales (simp add: mul_u8_def multiply_rational_ok)

interpretation u16_mul: rational_mul mul_u16
  by unfold_locales (simp add: mul_u16_def multiply_rational_ok)

interpretation u32_mul: rational_mul mul_u32
  by unfold_locales (simp add: mul_u32_def multiply_rational_ok)

interpretation u64_mul: rational_mul mul_u64
  by unfold_locales (simp add: mul_u64_def multiply_rational_ok)

interpretation u128_mul: rational_mul mul_u128
  by unfold_locales (simp add: mul_u128_def multiply_by_rational_ok)

end
