(* ===== verification/Arithmetic_Properties.thy ===== *)
theory Arithmetic_Properties
  imports Per_Things_Exact
begin

text \<open>
  The properties of the arithmetic library: integers of arbitrary size, 128-bit helpers, rational numbers and
  fractions of one. Values of machine words are read with \<^const>\<open>unat\<close>, those of limb lists with \<^const>\<open>val\<close>.
\<close>

section \<open>Integers of arbitrary size\<close>

text \<open>The documented requirements of \<^verbatim>\<open>BigUint::div\<close>.\<close>

definition divisible :: "BigUint \<Rightarrow> BigUint \<Rightarrow> bool" where
  "divisible x other \<longleftrightarrow> 1 < big_len other \<and> big_len other < big_len x \<and> hd (digits other) \<noteq> 0 \<and> hd (digits x) \<noteq> 0"

lemma big_div_refused: "digits x \<noteq> [] \<Longrightarrow> \<not> divisible x other \<Longrightarrow> big_div x other rem = Some None"
  by (cases "digits x"; cases "digits other") (auto simp: divisible_def big_div_def big_msb_def nth_opt_def big_len_def)

text \<open>
  C2. Knuth's division is correct: on a dividend with at least one limb, \<^verbatim>\<open>div\<close> returns \<^verbatim>\<open>None\<close> exactly when one of the
  documented requirements fails, and otherwise a quotient of \<open>m + 1\<close> limbs with the value of the quotient and,
  when asked for, a remainder with the value of the remainder. It never panics and its inner loop ends. The
  remainder has as many limbs as the divisor, except when the divisor is normalised already: then it has one
  more limb than the dividend.
\<close>

theorem big_div_correct:
  assumes "digits x \<noteq> []"
  shows "if divisible x other
    then \<exists>q r. big_div x other rem = Some (Some (q, r)) \<and>
      big_len q = big_len x - big_len other + 1 \<and> val q = val x div val other \<and>
      val r = (if rem then val x mod val other else 0) \<and>
      big_len r = (if rem \<and> leading_zeros (hd (digits other)) = 0 then big_len x + 1 else big_len other)
    else big_div x other rem = Some None"
proof (cases "divisible x other")
  case True
  then obtain om os xm xs where "digits other = om # os" "om \<noteq> 0" "digits x = xm # xs" "xm \<noteq> 0" "1 < big_len other" "big_len other < big_len x"
    using assms by (cases "digits other"; cases "digits x") (auto simp: divisible_def big_len_def)
  then show ?thesis using big_div_ok [of x xm xs other om os rem] True by auto
next
  case False
  then show ?thesis using big_div_refused [OF assms False] by simp
qed

theorem big_div_correct_witness:
  "\<exists>q r. big_div \<lparr>digits = [3, 0, 5]\<rparr> \<lparr>digits = [1, 0]\<rparr> True = Some (Some (q, r)) \<and> val q = 3 * base \<and> val r = 5"
proof -
  have "val \<lparr>digits = [3, 0, 5]\<rparr> = 5 + 3 * base * base" "val \<lparr>digits = [1, 0]\<rparr> = base"
    by (simp_all add: val_Cons)
  moreover have "(5 :: nat) < base" by (simp add: base_def)
  ultimately have "val \<lparr>digits = [3, 0, 5]\<rparr> div val \<lparr>digits = [1, 0]\<rparr> = 3 * base" "val \<lparr>digits = [3, 0, 5]\<rparr> mod val \<lparr>digits = [1, 0]\<rparr> = 5"
    by simp_all
  then show ?thesis using big_div_correct [of "\<lparr>digits = [3, 0, 5]\<rparr>" "\<lparr>digits = [1, 0]\<rparr>" True]
    by (auto simp: divisible_def big_len_def)
qed

text \<open>
  C14. Addition, subtraction, multiplication and division by one limb are exact on every pair of operands, of any
  lengths and with any leading zeros, and never panic: the sum and the product have room for every carry, a
  difference below zero is reported as an error that carries the borrowed value, and a zero divisor counts as one.
\<close>

theorem big_arith_exact:
  "(\<exists>w. big_add x y = Some w \<and> big_len w = max (big_len x) (big_len y) + 1 \<and> val w = val x + val y) \<and>
   (\<exists>w. if val y \<le> val x then big_sub x y = Some (Inr w) \<and> val w = val x - val y
        else big_sub x y = Some (Inl w) \<and> val w + val y = val x + base ^ max (big_len x) (big_len y)) \<and>
   (\<exists>w. big_mul x y = Some w \<and> big_len w = max (big_len x + big_len y) 1 \<and> val w = val x * val y) \<and>
   (\<exists>w. div_unit x d = Some w \<and> big_len w = max (big_len x) 1 \<and> val w = val x div max (unat d) 1)"
  using big_add_ok big_sub_ok [OF refl, of x y] big_mul_ok div_unit_ok by blast

section \<open>128-bit helpers\<close>

text \<open>
  C9. \<^verbatim>\<open>multiply_by_rational_with_rounding\<close> computes \<open>a * b / c\<close> with one rounding of the exact product in the mode
  asked for, through 256-bit intermediate values; it returns \<^verbatim>\<open>None\<close> exactly for a zero \<open>c\<close> and for a result that
  does not fit 128 bits. Its division loop always ends.
\<close>

theorem multiply_by_rational_exact:
  "multiply_by_rational_with_rounding a b c r =
     Some (if c = 0 then None
           else (let n = round_div r (unat a * unat b) (unat c) in if n < 2 ^ 128 then Some (of_nat n) else None))"
proof (cases "c = 0")
  case True
  then show ?thesis by (simp add: multiply_by_rational_with_rounding_def)
next
  case False
  then show ?thesis unfolding multiply_by_rational_ok [OF False] by (simp only: if_False)
qed

section \<open>Rational numbers\<close>

text \<open>
  C31. The order of \<^verbatim>\<open>Rational128\<close> is the order of the rational numbers: for non-zero denominators \<^verbatim>\<open>cmp\<close> and \<^verbatim>\<open>eq\<close> agree
  with the comparison of the two quotients, whatever the size of the cross products, and the comparison of the
  two numbers converted to \<^verbatim>\<open>RationalInfinite\<close> gives the same answer.
\<close>

theorem rational_order_correct:
  assumes "r_d x \<noteq> 0" "r_d y \<noteq> 0"
  shows "rational_cmp x y = Some (cmp (rval x) (rval y)) \<and>
    rational_eq x y = Some (rval x = rval y) \<and>
    infinite_cmp (infinite_of x) (infinite_of y) = Some (cmp (rval x) (rval y))"
proof -
  note c = rational_cmp_rval [OF assms]
  have "rational_eq x y = map_option (\<lambda>c. c = Equal) (rational_cmp x y)"
    unfolding rational_eq_ok rational_cmp_ok using assms by (simp add: cmp_simps word_unat_eq_iff)
  then show ?thesis using c by (simp add: infinite_of_cmp cmp_simps)
qed

theorem rational_order_correct_witness:
  "rational_cmp \<lparr>r_n = 1, r_d = 3\<rparr> \<lparr>r_n = 1, r_d = 2\<rparr> = Some Less"
  using rational_order_correct [of "\<lparr>r_n = 1, r_d = 3\<rparr>" "\<lparr>r_n = 1, r_d = 2\<rparr>"] by (simp add: rval_def cmp_def)

text \<open>
  C23. \<^verbatim>\<open>checked_add\<close> and \<^verbatim>\<open>checked_sub\<close> of \<^verbatim>\<open>Rational128\<close> are exact: for non-zero denominators they never panic, a
  result is the exact sum or difference over the least common denominator, and an error is returned exactly when
  the common denominator or a scaled numerator does not fit 128 bits, or the sum overflows or the difference is
  negative.
\<close>

theorem rational_arith_exact:
  assumes "r_d x \<noteq> 0" "r_d y \<noteq> 0" and l: "l = common_den x y"
  shows "(\<exists>s. rational_checked_add x y = Some s \<and>
      (case s of
         Inr z \<Rightarrow> scalable x y \<and> over l x + over l y < 2 ^ 128 \<and> unat (r_d z) = l \<and> rval z = rval x + rval y
       | Inl e \<Rightarrow> if scalable x y then e = ''overflow while adding numerators'' \<and> 2 ^ 128 \<le> over l x + over l y
                  else e = ''failed to scale to denominator'')) \<and>
    (\<exists>d. rational_checked_sub x y = Some d \<and>
      (case d of
         Inr z \<Rightarrow> scalable x y \<and> rval y \<le> rval x \<and> unat (r_d z) = l \<and> rval z = rval x - rval y
       | Inl e \<Rightarrow> if scalable x y then e = ''overflow while subtracting numerators'' \<and> rval x < rval y
                  else e = ''failed to scale to denominator''))"
  using rational_add_value [OF assms] rational_sub_value [OF assms] by blast

lemma lcm_2_3: "lcm 2 3 = (6 :: nat)"
  by (simp add: lcm_nat_def)

theorem rational_arith_exact_witness:
  "\<exists>z. rational_checked_add \<lparr>r_n = 1, r_d = 2\<rparr> \<lparr>r_n = 1, r_d = 3\<rparr> = Some (Inr z) \<and> unat (r_d z) = 6 \<and> rval z = 5 / 6"
proof -
  have "common_den \<lparr>r_n = 1, r_d = 2\<rparr> \<lparr>r_n = 1, r_d = 3\<rparr> = 6" by (simp add: common_den_def lcm_2_3)
  moreover have "scalable \<lparr>r_n = 1, r_d = 2\<rparr> \<lparr>r_n = 1, r_d = 3\<rparr>" by (simp add: scalable_def common_den_def lcm_2_3 over_def)
  ultimately show ?thesis
    using rational_arith_exact [of "\<lparr>r_n = 1, r_d = 2\<rparr>" "\<lparr>r_n = 1, r_d = 3\<rparr>" 6]
    by (auto simp: over_def rval_def split: sum.splits)
qed

section \<open>Fractions of one\<close>

text \<open>
  C15. Multiplying a number by a fraction is exact and never overflows: for every fraction of at most one and every
  number type at least as wide as the inner type, \<^verbatim>\<open>mul_floor\<close>, \<^verbatim>\<open>mul_ceil\<close> and the operator \<^verbatim>\<open>*\<close> return the exact product
  rounded down, up and to the nearest whole number (ties down), which never exceeds the number; the saturating
  multiplication by the reciprocal is the rounded exact quotient capped at the greatest number, and panics only
  for the fraction zero.
\<close>

theorem per_thing_mul_exact:
  fixes mx part :: "'i::len word" and x :: "'n::len word"
  assumes "LENGTH('u::len) = 2 * LENGTH('i)" "LENGTH('i) \<le> LENGTH('n)" "mx \<noteq> 0" "part \<le> mx"
  shows "(\<exists>y. mul_floor TYPE('u) mx (PerThing part) x = Some y \<and> unat y = unat x * unat part div unat mx \<and> y \<le> x) \<and>
    (\<exists>y. mul_ceil TYPE('u) mx (PerThing part) x = Some y \<and> unat y = (unat x * unat part + (unat mx - 1)) div unat mx \<and> y \<le> x) \<and>
    (\<exists>y. mul_nearest TYPE('u) mx (PerThing part) x = Some y \<and> unat y = round_div NearestPrefDown (unat x * unat part) (unat mx) \<and> y \<le> x) \<and>
    (if part = 0 then saturating_reciprocal_mul TYPE('u) mx x part r = None
     else \<exists>y. saturating_reciprocal_mul TYPE('u) mx x part r = Some y \<and>
       unat y = min (round_div r (unat x * unat mx) (unat part)) (2 ^ LENGTH('n) - 1))"
  using overflow_prune_mul_ok [OF assms, of x Down] overflow_prune_mul_ok [OF assms, of x Up] overflow_prune_mul_ok [OF assms, of x NearestPrefDown]
    saturating_reciprocal_mul_ok [OF assms(1,2), of part mx x r]
  by (simp add: mul_floor_def mul_ceil_def mul_nearest_def round_div_def)

theorem per_thing_mul_exact_witness:
  "\<exists>y. mul_ceil TYPE(16) Percent_max (PerThing 34) (10 :: 64 word) = Some y \<and> unat y = 4"
  using per_thing_mul_exact [where ?'u = 16 and mx = Percent_max and part = 34 and x = "10 :: 64 word"] by (auto simp: Percent_max_def)

text \<open>
  C22. A fraction built from a quotient of 128-bit numbers is exact: \<^verbatim>\<open>from_rational_with_rounding\<close> fails exactly for a
  zero denominator and for quotients above one, and otherwise returns the exact number of parts rounded once in
  the mode asked for, never more than one; \<^verbatim>\<open>from_rational\<close> rounds down and saturates at one.
\<close>

theorem from_rational_exact:
  fixes mx :: "'i::len word"
  assumes "LENGTH('i) \<le> 128"
  shows "(if q = 0 \<or> q < p then from_rational_with_rounding mul_u128 mx p q r = Some (Inl ()) \<and> from_rational mul_u128 mx p q = Some (PerThing mx)
    else (\<exists>y. from_rational_with_rounding mul_u128 mx p q r = Some (Inr (PerThing y)) \<and> unat y = round_div r (unat mx * unat p) (unat q) \<and> y \<le> mx) \<and>
         (\<exists>y. from_rational mul_u128 mx p q = Some (PerThing y) \<and> unat y = unat mx * unat p div unat q \<and> y \<le> mx))"
proof (cases "q = 0 \<or> q < p")
  case True
  then show ?thesis using u128_mul.fraction_error [OF True, of mx] by (simp add: from_rational_def pt_one_def from_parts_def)
next
  case False
  then have q: "q \<noteq> 0" "p \<le> q" by auto
  have "LENGTH('i) \<le> LENGTH(128)" using assms by simp
  note f = u128_mul.fraction_exact [OF this q, of mx]
  show ?thesis using f [of r] f [of Down] False by (auto simp: from_rational_def round_div_def)
qed

theorem from_rational_exact_witness:
  "\<exists>y. from_rational_with_rounding mul_u128 Percent_max 989 1000 Up = Some (Inr (PerThing y)) \<and> unat y = 99"
  using from_rational_exact [where mx = Percent_max and p = 989 and q = 1000 and r = Up]
  by (auto simp: Percent_max_def round_div_def)



end
