(* ===== verification/Spec2Isabelle.thy ===== *)
theory Spec2Isabelle
  imports Merkle_Tree Changeset Allocator Fork_Client Balances_Properties Bags_Properties Arithmetic_Properties
begin

text \<open>
  Verification of core components of Substrate, a framework for blockchains: a native client keeps the blocks
  and runs the state transition function, the runtime, as Wasm code; the runtime is composed of pallets. The
  development takes, from both sides, components whose behaviour is determined by the source alone and on whose
  correctness the others rest, translates each completely and proves what it promises.

  \<^bold>\<open>Parts and their theories.\<close> Paths are under \<^verbatim>\<open>src/\<close>.

  \<^item> \<^emph>\<open>Shared ground.\<close> \<open>Prelude\<close>: machine types, results of fallible code, sequencing. \<open>BTree_Map\<close>: the ordered
    map of the standard library and the interface \<open>keyed_store\<close>, interpreted on it as \<open>btm\<close>.

  \<^item> \<^emph>\<open>Binary Merkle tree\<close> (\<^verbatim>\<open>utils/binary-merkle-tree/src/lib.rs\<close>). \<open>Merkle_Tree\<close>: \<open>merkle_root\<close>, \<open>merkle_proof\<close> and
    \<open>verify_proof\<close> are the functions of the same names, with the row-by-row loops (\<open>merkelize_loop\<close>) and the
    visitor. Lemmas: every proof produced verifies, an accepted proof of another leaf exhibits a hash collision,
    the rows agree with the recursive tree, and when the code panics.

  \<^item> \<^emph>\<open>Transactional overlay\<close> (\<^verbatim>\<open>primitives/state-machine/src/overlayed_changes/changeset.rs\<close>). \<open>Changeset\<close>: the
    versions of a key and the dirty sets per open transaction, with one definition per method. The interface
    \<open>transactional\<close> (a view of the keys and a stack of saved views) is interpreted as \<open>om\<close>; rolling back restores
    every view, committing keeps it, and no reachable overlay panics.

  \<^item> \<^emph>\<open>Wasm heap allocator\<close> (\<^verbatim>\<open>client/allocator/src/freeing_bump.rs\<close>). \<open>Allocator\<close>: orders, headers in linear memory,
    free lists, the bumper, \<open>allocate\<close> and \<open>deallocate\<close>. The interface \<open>linear_memory\<close> is interpreted on the memory
    as \<open>mem\<close>. In every history of requests, releases, client writes and growth, allocations held are disjoint,
    aligned and inside the memory; double frees are detected; when requests succeed; how the bumper wraps at 4 GiB.

  \<^item> \<^emph>\<open>Blocks and forks.\<close> \<open>Header_Metadata\<close> (\<^verbatim>\<open>primitives/blockchain/src/header_metadata.rs\<close>, with the lookups of
    \<^verbatim>\<open>client/db/src/lib.rs\<close> and \<^verbatim>\<open>client/api/src/lib.rs\<close>): the lowest common ancestor, tree routes, \<open>is_descendent_of\<close>.
    \<open>Fork_Tree\<close> (\<^verbatim>\<open>utils/fork-tree/src/lib.rs\<close>): all operations of the fork tree; \<open>Fork_Tree_Shape\<close>, \<open>Fork_Tree_Search\<close>
    and \<open>Fork_Tree_Ops\<close> prove them, under the interface \<open>ancestry\<close> (the closure answers with a forest order);
    \<open>Header_Metadata\<close> interprets it as \<open>client\<close> on the headers of a database, and \<open>Fork_Client\<close> states the results for
    fork trees as the client calls them.

  \<^item> \<^emph>\<open>Accounts and balances.\<close> \<open>System_Accounts\<close> (\<^verbatim>\<open>frame/system/src/lib.rs\<close>): accounts and reference counters.
    \<open>Fungible\<close> (\<^verbatim>\<open>frame/support/src/traits/tokens/fungible\<close>): the traits as a record of operations, the derived methods
    as functions of it, and the interface \<open>fungible\<close>. \<open>Balances\<close>, \<open>Balances_Currency\<close>, \<open>Balances_Calls\<close>
    (\<^verbatim>\<open>frame/balances/src\<close>): storage, the provided operations, the older currency traits, genesis and calls.
    \<open>Balances_Account\<close>, \<open>Balances_Ledger\<close> (interpretation \<open>bal\<close>), \<open>Balances_Steps\<close>, \<open>Balances_Holds\<close> carry the proofs;
    \<open>Balances_Properties\<close> states conservation of the issuance and well-formed accounts along every run, exact
    transfers, respect for freezes, exact holds, and the loss of funds in a transfer to oneself.

  \<^item> \<^emph>\<open>Bags list\<close> (\<^verbatim>\<open>frame/bags-list/src\<close>). \<open>Bags_List\<close>: nodes, bags, every list operation, migration, checks, calls and
    hooks. \<open>Bags_Links\<close>, \<open>Bags_Repr\<close>, \<open>Bags_Iteration\<close>, \<open>Bags_Runs\<close>: the linked lists refine one list of accounts per
    bag. \<open>Sorted_List\<close>: the interface \<open>sorted_list\<close> of \<^verbatim>\<open>SortedListProvider\<close>, interpreted as \<open>bags\<close>. \<open>Bags_Properties\<close>:
    after any run the iteration ends and lists each node once in the bag of its score, and the code's state
    check succeeds; moving in front, resuming, migrating; and a migration that loses a bag.

  \<^item> \<^emph>\<open>Arithmetic\<close> (\<^verbatim>\<open>primitives/arithmetic/src\<close>). \<open>Wide_Arith\<close> (\<^verbatim>\<open>helpers_128bit.rs\<close>): binary gcd, 256-bit products and
    quotients, rounding, square root. \<open>BigUint\<close> (\<^verbatim>\<open>biguint.rs\<close>): limb lists; \<open>BigUint_Value\<close> gives them the value \<open>val\<close>
    and proves the schoolbook operations, comparison and conversions, \<open>BigUint_Div\<close> Knuth's division. \<open>Rational\<close>
    (\<^verbatim>\<open>rational.rs\<close>): \<open>Rational128\<close>, \<open>RationalInfinite\<close>, \<open>multiply_rational\<close>. \<open>Per_Things\<close> (\<^verbatim>\<open>per_things.rs\<close>): the macro for
    fractions of one, once for all widths; \<open>Per_Things_Exact\<close>: the interface \<open>rational_mul\<close> of the trait
    \<^verbatim>\<open>MultiplyRational\<close>, interpreted for \<open>u8\<close> to \<open>u128\<close>, and exactness of the operations. \<open>Arithmetic_Properties\<close>:
    division, schoolbook arithmetic, rounded products, rational order and sums, fractions and their powers.

  \<^bold>\<open>Conventions.\<close> Structs are records, enums datatypes, and each method one definition of the same or a prefixed
  name; state is passed explicitly and returned on errors too. Errors are the left side of a sum; \<open>None\<close> in front of
  a result is a panic or a loop that never ends. Machine words are kept where the code's bits matter (extrinsic
  indices, bytes, the arithmetic library); elsewhere unsigned integers are natural numbers with their bounds, saturation
  and release-build wrap-around written out. Hash functions, database reads, cache eviction, grants of memory,
  thresholds, scores and the decoder of the codec are parameters.

  \<^bold>\<open>Termination.\<close> No definition carries fuel. Loops whose end depends on the data (\<open>merkelize_loop\<close>, the four loops of
  \<open>Header_Metadata\<close>, \<open>successors\<close> of the bags list, \<open>div_loop\<close> of the 256-bit division, \<open>qhat_loop\<close> of Knuth's division)
  are partial functions into \<open>option\<close>, and the theorems show that they return; all others are recursive functions with a
  termination proof.

  \<^bold>\<open>Not modelled.\<close> Fixed point numbers and the normalisation helpers of the arithmetic library; floating point
  conversions and formatting everywhere; log messages, weights, benchmarks and tests. The layers of the state machine
  above the changeset, the trie, codecs, cryptography, the Wasm engine, the key-value store and the network are third-party
  code or thin wrappers of it. Consensus engines, transaction pool, executor, RPC, service and command line are
  asynchronous, driven by I/O, and generated in part by macros. The other pallets (governance, staking, assets,
  contracts and so on) are state transitions that could be modelled as the balances and bags-list pallets are, and are
  left for further work.
\<close>

end
